(* ===== verification/Prelude.thy ===== *)
theory Prelude
  imports Main "HOL-Library.Word"
begin

unbundle bit_operations_syntax

text \<open>
  Shared vocabulary of the development: the machine types of the Go sources, the error values,
  the result of a fallible Go function, slices with their bounds checks, in-memory readers, and
  the generic lemmas on lists and words that the component theories share.

  A Go function that returns \<^verbatim>\<open>(T, error)\<close> is a HOL function into \<open>'a result\<close>: \<open>Ok v\<close> for
  a nil error, \<open>Error e\<close> for a non-nil one, and \<open>Panic\<close> for a run-time panic (an index or a
  slice out of range). A sentinel error of the sources is \<open>Sentinel\<close> with the Go variable's
  name; an error wrapped with \<^verbatim>\<open>fmt.Errorf("...%w", err)\<close> is \<open>Wrapped\<close>.
\<close>

section \<open>Machine types\<close>

type_synonym byte = "8 word"
type_synonym bytes = "byte list"
type_synonym u16 = "16 word"
type_synonym u32 = "32 word"
type_synonym u64 = "64 word"

section \<open>Collections of rewrite rules\<close>

named_theorems go_simps \<open>unfolding rules of the control operators\<close>
named_theorems no_panic \<open>an operation does not panic\<close>
named_theorems shrinks \<open>a reader hands back no more input than it was given\<close>

section \<open>Errors and results\<close>

datatype error =
    EOF
  | ErrUnexpectedEOF
  | Sentinel string
  | Wrapped string error
  | ErrorLine bytes

text \<open>\<^verbatim>\<open>errors.Is\<close>: the error or one it wraps. \<open>ErrorLine\<close> is the error type of the pkt-line format.\<close>

fun errors_Is :: "error \<Rightarrow> error \<Rightarrow> bool" where
  "errors_Is (Wrapped msg e) target \<longleftrightarrow> Wrapped msg e = target \<or> errors_Is e target"
| "errors_Is e target \<longleftrightarrow> e = target"

datatype 'a result = Ok 'a | Error error | Panic

primrec rbind :: "'a result \<Rightarrow> ('a \<Rightarrow> 'b result) \<Rightarrow> 'b result" where
  "rbind (Ok a) f = f a"
| "rbind (Error e) f = Error e"
| "rbind Panic f = Panic"

primrec is_ok :: "'a result \<Rightarrow> bool" where
  "is_ok (Ok a) = True"
| "is_ok (Error e) = False"
| "is_ok Panic = False"

lemma rbind_cong [fundef_cong]:
  "m = m' \<Longrightarrow> (\<And>a. m' = Ok a \<Longrightarrow> f a = f' a) \<Longrightarrow> rbind m f = rbind m' f'"
  by (cases m') simp_all

lemma rbind_Ok_iff [simp]: "rbind m f = Ok b \<longleftrightarrow> (\<exists>a. m = Ok a \<and> f a = Ok b)"
  by (cases m) auto

lemma rbind_Panic_iff [simp]: "rbind m f = Panic \<longleftrightarrow> m = Panic \<or> (\<exists>a. m = Ok a \<and> f a = Panic)"
  by (cases m) auto

lemma rbind_Error_iff:
  "rbind m f = Error e \<longleftrightarrow> m = Error e \<or> (\<exists>a. m = Ok a \<and> f a = Error e)"
  by (cases m) auto

lemma is_ok_iff: "is_ok r \<longleftrightarrow> (\<exists>a. r = Ok a)"
  by (cases r) auto

section \<open>Slices\<close>

text \<open>
  \<^verbatim>\<open>xs[i]\<close>, \<^verbatim>\<open>xs[lo:hi]\<close> and \<^verbatim>\<open>xs[i] = v\<close> of Go, with the run-time panic out of range.
\<close>

definition idx :: "'a list \<Rightarrow> nat \<Rightarrow> 'a result" where
  "idx xs i = (if i < length xs then Ok (xs ! i) else Panic)"

definition slice :: "'a list \<Rightarrow> nat \<Rightarrow> nat \<Rightarrow> 'a list result" where
  "slice xs lo hi = (if lo \<le> hi \<and> hi \<le> length xs then Ok (take (hi - lo) (drop lo xs)) else Panic)"

definition upd :: "'a list \<Rightarrow> nat \<Rightarrow> 'a \<Rightarrow> 'a list result" where
  "upd xs i v = (if i < length xs then Ok (xs[i := v]) else Panic)"

lemma idx_Ok [simp]: "i < length xs \<Longrightarrow> idx xs i = Ok (xs ! i)"
  by (simp add: idx_def)

lemma upd_Ok [simp]: "i < length xs \<Longrightarrow> upd xs i v = Ok (xs[i := v])"
  by (simp add: upd_def)

lemma slice_Ok [simp]:
  "lo \<le> hi \<Longrightarrow> hi \<le> length xs \<Longrightarrow> slice xs lo hi = Ok (take (hi - lo) (drop lo xs))"
  by (simp add: slice_def)

section \<open>Readers\<close>

text \<open>
  An \<^verbatim>\<open>io.Reader\<close> over data in memory is the list of the bytes that are left; a read returns
  its value with the rest. The one way such a reader fails is the end of its input:
  \<^verbatim>\<open>io.ReadFull\<close> answers \<^verbatim>\<open>io.EOF\<close> when nothing was read and \<^verbatim>\<open>io.ErrUnexpectedEOF\<close> when
  the input ended inside the value.
\<close>

type_synonym reader = bytes

fun readByte :: "reader \<Rightarrow> (byte \<times> reader) result" where
  "readByte [] = Error EOF"
| "readByte (b # r) = Ok (b, r)"

definition readFull :: "nat \<Rightarrow> reader \<Rightarrow> (bytes \<times> reader) result" where
  "readFull n r =
     (if n \<le> length r then Ok (take n r, drop n r)
      else if r = [] then Error EOF
      else Error ErrUnexpectedEOF)"

lemma readByte_Ok_iff: "readByte r = Ok (b, r') \<longleftrightarrow> r = b # r'"
  by (cases r) auto

lemma readByte_no_panic [no_panic, simp]: "readByte r \<noteq> Panic"
  by (cases r) auto

lemma readByte_shrinks [shrinks]: "readByte r = Ok (b, r') \<Longrightarrow> length r' < length r"
  by (cases r) auto

lemma readFull_no_panic [no_panic, simp]: "readFull n r \<noteq> Panic"
  by (simp add: readFull_def)

lemma readFull_shrinks [shrinks]:
  "readFull n r = Ok (v, r') \<Longrightarrow> length r' \<le> length r \<and> length v = n"
  by (auto simp: readFull_def split: if_splits)

lemma readFull_append [simp]: "length v = n \<Longrightarrow> readFull n (v @ r) = Ok (v, r)"
  by (simp add: readFull_def)

lemma readFull_Ok_iff: "readFull n r = Ok (v, r') \<longleftrightarrow> r = v @ r' \<and> length v = n"
  by (auto simp: readFull_def split: if_splits)

section \<open>Text as bytes\<close>

text \<open>A Go string is a sequence of bytes: \<open>str\<close> is the conversion \<^verbatim>\<open>[]byte(s)\<close>.\<close>

definition str :: "string \<Rightarrow> bytes" where
  "str s = map of_char s"

lemma length_str [simp]: "length (str s) = length s"
  by (simp add: str_def)

lemma str_append [simp]: "str (s @ t) = str s @ str t"
  by (simp add: str_def)

lemma str_Nil [simp]: "str [] = []"
  by (simp add: str_def)

lemma str_Cons [simp]: "str (c # s) = of_char c # str s"
  by (simp add: str_def)

text \<open>The conversion back, \<^verbatim>\<open>string(b)\<close>.\<close>

definition unstr :: "bytes \<Rightarrow> string" where
  "unstr b = map (\<lambda>x. char_of (unat x)) b"

lemma unstr_simps [simp]:
  "unstr [] = []" "unstr (x # b) = char_of (unat x) # unstr b" "unstr (a @ b) = unstr a @ unstr b"
  "length (unstr b) = length b"
  by (simp_all add: unstr_def)

lemma unat_of_char [simp]: "unat (of_char c :: byte) = of_char c"
proof -
  have "(of_char c :: byte) = word_of_nat (of_char c)" by (simp add: of_char_def)
  then show ?thesis by (simp add: unsigned_of_nat take_bit_eq_mod)
qed

lemma of_char_unat [simp]: "(of_char (char_of (unat x)) :: byte) = x"
proof -
  have "(of_char (char_of (unat x)) :: byte) = word_of_nat (of_char (char_of (unat x)))"
    by (simp add: of_char_def)
  moreover have "of_char (char_of (unat x)) = unat x"
    using unsigned_less [where 'a = nat, of x] by simp
  ultimately show ?thesis by simp
qed

lemma unstr_str [simp]: "unstr (str s) = s"
  by (induction s) simp_all

lemma str_unstr [simp]: "str (unstr b) = b"
  by (induction b) simp_all

section \<open>Bits of words\<close>

lemma unat_byte_less [simp]: "unat (b::byte) < 256"
  using unsigned_less [where 'a = nat, of b] by simp

lemma unat_byte_of_nat: "unat (word_of_nat n :: byte) = n mod 256"
  by (simp add: unsigned_of_nat take_bit_eq_mod)

lemma unat_u64_of_nat: "n < 2 ^ 64 \<Longrightarrow> unat (word_of_nat n :: u64) = n"
  by (simp add: unsigned_of_nat take_bit_nat_eq_self)

lemma unat_u32_of_nat: "n < 2 ^ 32 \<Longrightarrow> unat (word_of_nat n :: u32) = n"
  by (simp add: unsigned_of_nat take_bit_nat_eq_self)

lemma unat_u64_less [simp]: "unat (w::u64) < 18446744073709551616"
  using unsigned_less [where 'a = nat, of w] by simp

lemma byte_of_nat_cong: "m mod 256 = n mod 256 \<Longrightarrow> (word_of_nat m :: byte) = word_of_nat n"
  by (metis unat_byte_of_nat word_unat_eq_iff)

text \<open>
  Concatenating bit chunks with \<open>OR\<close> is addition when the chunks do not overlap; the decoders
  of variable-length numbers all rely on it.
\<close>

lemma or_push_bit_add:
  fixes a b :: "'a::len word"
  assumes "unat a < 2 ^ n"
  shows "a OR push_bit n b = a + push_bit n b"
proof -
  have "a AND push_bit n b = 0"
  proof (rule bit_word_eqI)
    fix i
    have "bit a i \<Longrightarrow> i < n"
    proof (rule ccontr)
      assume bi: "bit a i" and "\<not> i < n"
      have "bit (unat a) i" using bi by (simp add: bit_unsigned_iff)
      then have "2 ^ i \<le> unat a"
        by (metis bit_iff_odd div_less even_zero not_le)
      moreover have "(2::nat) ^ n \<le> 2 ^ i" using \<open>\<not> i < n\<close> by (simp add: power_increasing)
      ultimately show False using assms by simp
    qed
    then show "bit (a AND push_bit n b) i = bit (0 :: 'a word) i"
      by (auto simp: bit_simps)
  qed
  then show ?thesis by (simp add: disjunctive_add_eq_or)
qed

lemma push_bit_word_of_nat: "push_bit n (of_nat m :: 'a::len word) = of_nat (m * 2 ^ n)"
  by (simp add: push_bit_eq_mult)

lemma or_push_bit_of_nat:
  assumes "a < 2 ^ n" and "a < 2 ^ LENGTH('a)"
  shows "(of_nat a OR push_bit n (of_nat b) :: 'a::len word) = of_nat (a + b * 2 ^ n)"
proof -
  have "unat (of_nat a :: 'a word) = a"
    using assms(2) by (simp add: unsigned_of_nat take_bit_eq_mod)
  then have "(of_nat a OR push_bit n (of_nat b) :: 'a word) = of_nat a + push_bit n (of_nat b)"
    using assms(1) by (intro or_push_bit_add) simp
  then show ?thesis by (simp add: push_bit_word_of_nat)
qed

lemma nat_and_mask: "(n::nat) AND (2 ^ k - 1) = n mod 2 ^ k"
  by (metis mask_eq_exp_minus_1 take_bit_eq_mask take_bit_eq_mod)

lemma nat_and_0x7f [simp]: "(n::nat) AND 127 = n mod 128"
  using nat_and_mask [of n 7] by simp

lemma nat_drop_bit_7 [simp]: "drop_bit 7 (n::nat) = n div 128"
  by (simp add: drop_bit_eq_div)

lemma ucast_and_0x7f: "(ucast (b::byte) AND 127 :: u64) = of_nat (unat b mod 128)"
proof -
  have "(ucast b AND 127 :: u64) = take_bit 7 (ucast b)"
    by (simp add: take_bit_eq_mask mask_eq_exp_minus_1)
  also have "\<dots> = of_nat (take_bit 7 (unat b))"
    by (simp add: of_nat_take_bit unsigned_of_nat)
  finally show ?thesis by (simp add: take_bit_eq_mod)
qed

end
