(* ===== verification/BinaryIO.thy ===== *)
theory BinaryIO
  imports Prelude
begin

text \<open>
  The package \<^verbatim>\<open>utils/binary\<close>: big-endian integers, delimited reads, Git's variable-width
  integers and the binary sniffer. Readers are byte lists (see \<open>Prelude\<close>), writers append to
  the bytes they return. \<open>int64\<close> values are 64-bit words read in two's complement.
\<close>

section \<open>Big-endian integers\<close>

text \<open>\<^verbatim>\<open>encoding/binary\<close> with \<^verbatim>\<open>BigEndian\<close>: the value of a byte string and its inverse.\<close>

definition be_value :: "bytes \<Rightarrow> nat" where
  "be_value bs = foldl (\<lambda>a b. a * 256 + unat b) 0 bs"

primrec be_bytes :: "nat \<Rightarrow> nat \<Rightarrow> bytes" where
  "be_bytes 0 v = []"
| "be_bytes (Suc n) v = word_of_nat (v div 256 ^ n) # be_bytes n v"

definition ReadUint64 :: "reader \<Rightarrow> (u64 \<times> reader) result" where
  "ReadUint64 r = rbind (readFull 8 r) (\<lambda>(v, r'). Ok (word_of_nat (be_value v), r'))"

definition ReadUint32 :: "reader \<Rightarrow> (u32 \<times> reader) result" where
  "ReadUint32 r = rbind (readFull 4 r) (\<lambda>(v, r'). Ok (word_of_nat (be_value v), r'))"

definition ReadUint16 :: "reader \<Rightarrow> (u16 \<times> reader) result" where
  "ReadUint16 r = rbind (readFull 2 r) (\<lambda>(v, r'). Ok (word_of_nat (be_value v), r'))"

definition WriteUint64 :: "u64 \<Rightarrow> bytes" where
  "WriteUint64 v = be_bytes 8 (unat v)"

definition WriteUint32 :: "u32 \<Rightarrow> bytes" where
  "WriteUint32 v = be_bytes 4 (unat v)"

definition WriteUint16 :: "u16 \<Rightarrow> bytes" where
  "WriteUint16 v = be_bytes 2 (unat v)"

section \<open>Delimited reads\<close>

fun readUntil_loop :: "bytes \<Rightarrow> byte \<Rightarrow> reader \<Rightarrow> (bytes \<times> reader) result" where
  "readUntil_loop v d [] = Error EOF"
| "readUntil_loop v d (b # r) = (if b = d then Ok (v, r) else readUntil_loop (v @ [b]) d r)"

definition ReadUntil :: "reader \<Rightarrow> byte \<Rightarrow> (bytes \<times> reader) result" where
  "ReadUntil r delim = readUntil_loop [] delim r"

text \<open>\<^verbatim>\<open>bufio.Reader.ReadBytes\<close> hands back everything up to and including the delimiter.\<close>

definition bufio_ReadBytes :: "reader \<Rightarrow> byte \<Rightarrow> (bytes \<times> reader) result" where
  "bufio_ReadBytes r delim =
     (case dropWhile (\<lambda>b. b \<noteq> delim) r of
        [] \<Rightarrow> Error EOF
      | d # r' \<Rightarrow> Ok (takeWhile (\<lambda>b. b \<noteq> delim) r @ [d], r'))"

definition ReadUntilFromBufioReader :: "reader \<Rightarrow> byte \<Rightarrow> (bytes \<times> reader) result" where
  "ReadUntilFromBufioReader r delim =
     rbind (bufio_ReadBytes r delim)
       (\<lambda>(value, r'). if value = [] then Ok ([], r') else Ok (take (length value - 1) value, r'))"

section \<open>Variable-width integers\<close>

abbreviation (input) maskContinue :: byte where "maskContinue \<equiv> 128"
abbreviation (input) maskLength :: byte where "maskLength \<equiv> 127"

fun readVariableWidthInt_loop :: "u64 \<Rightarrow> byte \<Rightarrow> reader \<Rightarrow> (u64 \<times> reader) result" where
  "readVariableWidthInt_loop v c r =
     (if c AND maskContinue > 0
      then (case r of
              [] \<Rightarrow> Error EOF
            | c' # r' \<Rightarrow>
                readVariableWidthInt_loop (push_bit 7 (v + 1) + ucast (c' AND maskLength)) c' r')
      else Ok (v, r))"

definition ReadVariableWidthInt :: "reader \<Rightarrow> (u64 \<times> reader) result" where
  "ReadVariableWidthInt r =
     rbind (readByte r) (\<lambda>(c, r'). readVariableWidthInt_loop (ucast (c AND maskLength)) c r')"

text \<open>
  The writer's loop shifts an \<open>int64\<close> arithmetically and stops at zero, which a negative number
  never reaches, so not returning is the value \<open>None\<close>.
\<close>

partial_function (option) writeVariableWidthInt_loop :: "u64 \<Rightarrow> bytes \<Rightarrow> bytes option" where
  "writeVariableWidthInt_loop n buf =
     (if n = 0 then Some buf
      else writeVariableWidthInt_loop (signed_drop_bit 7 (n - 1))
             ((128 OR ucast ((n - 1) AND 127)) # buf))"

definition WriteVariableWidthInt :: "u64 \<Rightarrow> bytes option" where
  "WriteVariableWidthInt n = writeVariableWidthInt_loop (signed_drop_bit 7 n) [ucast (n AND 127)]"

section \<open>Binary sniffing\<close>

definition sniffLen :: nat where
  "sniffLen = 8000"

fun isBinary_loop :: "nat \<Rightarrow> reader \<Rightarrow> bool" where
  "isBinary_loop c [] = False"
| "isBinary_loop c (b # r) =
     (if c = sniffLen then False else if b = 0 then True else isBinary_loop (c + 1) r)"

definition IsBinary :: "reader \<Rightarrow> bool" where
  "IsBinary r = isBinary_loop 0 r"

section \<open>Big-endian round trips\<close>

lemma length_be_bytes [simp]: "length (be_bytes n v) = n"
  by (induction n) simp_all

lemma be_value_foldl: "foldl (\<lambda>a b. a * 256 + unat b) a bs = a * 256 ^ length bs + be_value bs"
proof (induction bs arbitrary: a)
  case Nil
  then show ?case by (simp add: be_value_def)
next
  case (Cons b bs)
  have "be_value (b # bs) = unat b * 256 ^ length bs + be_value bs"
    using Cons.IH [of "unat b"] by (simp add: be_value_def)
  then show ?case using Cons.IH [of "a * 256 + unat b"] by (simp add: algebra_simps)
qed

lemma be_value_Nil [simp]: "be_value [] = 0"
  by (simp add: be_value_def)

lemma be_value_Cons: "be_value (b # bs) = unat b * 256 ^ length bs + be_value bs"
  using be_value_foldl [of "unat b" bs] by (simp add: be_value_def)

lemma be_value_be_bytes: "be_value (be_bytes n v) = v mod 256 ^ n"
proof (induction n)
  case 0
  then show ?case by simp
next
  case (Suc n)
  have "v mod 256 ^ Suc n = 256 ^ n * (v div 256 ^ n mod 256) + v mod 256 ^ n"
    by (simp only: power_Suc2 mod_mult2_eq)
  with Suc show ?case by (simp add: be_value_Cons unat_byte_of_nat algebra_simps)
qed

lemma be_value_less: "be_value bs < 256 ^ length bs"
proof (induction bs)
  case Nil
  then show ?case by simp
next
  case (Cons b bs)
  have "unat b \<le> 255" using unat_byte_less [of b] by linarith
  then have "unat b * 256 ^ length bs \<le> 255 * 256 ^ length bs" by (rule mult_le_mono1)
  with Cons show ?case unfolding be_value_Cons list.size(4) add_Suc_right add_0_right power_Suc
    by linarith
qed

lemma mod_mult_div: "(v::nat) mod (256 ^ n * b) div 256 ^ n = v div 256 ^ n mod b"
  by (simp add: mod_mult2_eq)

lemma be_bytes_mod: "be_bytes n (v mod 256 ^ (n + k)) = be_bytes n v"
proof (induction n arbitrary: k)
  case 0
  then show ?case by simp
next
  case (Suc n)
  have "256 ^ (Suc n + k) = (256 ^ n * 256 ^ Suc k :: nat)"
    by (simp add: power_add)
  then have "v mod 256 ^ (Suc n + k) div 256 ^ n = v div 256 ^ n mod 256 ^ Suc k"
    by (simp only: mod_mult_div)
  moreover have "v div 256 ^ n mod 256 ^ Suc k mod 256 = v div 256 ^ n mod 256"
    by (rule mod_mod_cancel) simp
  ultimately have byte: "(word_of_nat (v mod 256 ^ (Suc n + k) div 256 ^ n) :: byte) = word_of_nat (v div 256 ^ n)"
    by (intro byte_of_nat_cong) simp
  have "be_bytes n (v mod 256 ^ (Suc n + k)) = be_bytes n v"
    using Suc.IH [of "Suc k"] by simp
  with byte show ?case by (simp only: be_bytes.simps)
qed

lemma be_bytes_cong: "v mod 256 ^ n = w mod 256 ^ n \<Longrightarrow> be_bytes n v = be_bytes n w"
  by (metis add_0_right be_bytes_mod)

lemma be_bytes_be_value: "be_bytes (length bs) (be_value bs) = bs"
proof (induction bs)
  case Nil
  then show ?case by simp
next
  case (Cons b bs)
  let ?n = "length bs"
  have "be_value (b # bs) div 256 ^ ?n = unat b"
    using be_value_less [of bs] by (simp add: be_value_Cons)
  moreover have "be_bytes ?n (be_value (b # bs)) = be_bytes ?n (be_value bs)"
    by (rule be_bytes_cong) (simp add: be_value_Cons)
  ultimately show ?case using Cons.IH by simp
qed

lemma ReadUint64_Write [simp]: "ReadUint64 (WriteUint64 v @ r) = Ok (v, r)"
  using unsigned_less [where 'a = nat, of v] by (simp add: ReadUint64_def WriteUint64_def be_value_be_bytes)

lemma ReadUint32_Write [simp]: "ReadUint32 (WriteUint32 v @ r) = Ok (v, r)"
  using unsigned_less [where 'a = nat, of v] by (simp add: ReadUint32_def WriteUint32_def be_value_be_bytes)

lemma ReadUint16_Write [simp]: "ReadUint16 (WriteUint16 v @ r) = Ok (v, r)"
  using unsigned_less [where 'a = nat, of v] by (simp add: ReadUint16_def WriteUint16_def be_value_be_bytes)

section \<open>Delimited reads agree\<close>

lemma delim_in_set: "dropWhile (\<lambda>b. b \<noteq> d) r = x # xs \<Longrightarrow> d \<in> set r"
  by (induction r) (auto split: if_splits)

lemma readUntil_loop_eq:
  "readUntil_loop v d r =
     (case dropWhile (\<lambda>b. b \<noteq> d) r of
        [] \<Rightarrow> Error EOF
      | _ # r' \<Rightarrow> Ok (v @ takeWhile (\<lambda>b. b \<noteq> d) r, r'))"
  by (induction r arbitrary: v) (auto split: list.split simp: delim_in_set)

lemma ReadUntil_eq_bufio: "ReadUntil r d = ReadUntilFromBufioReader r d"
  by (auto simp: ReadUntil_def readUntil_loop_eq ReadUntilFromBufioReader_def bufio_ReadBytes_def
      split: list.split dest: delim_in_set)

lemma ReadUntil_append: "d \<notin> set v \<Longrightarrow> ReadUntil (v @ d # r) d = Ok (v, r)"
proof -
  assume "d \<notin> set v"
  then have "\<forall>b \<in> set v. b \<noteq> d" by auto
  then have "dropWhile (\<lambda>b. b \<noteq> d) (v @ d # r) = d # r"
    and "takeWhile (\<lambda>b. b \<noteq> d) (v @ d # r) = v" by (simp_all add: takeWhile_append)
  then show ?thesis by (simp add: ReadUntil_def readUntil_loop_eq)
qed

lemma ReadUntil_Ok_iff:
  "ReadUntil r d = Ok (v, r') \<longleftrightarrow> d \<notin> set v \<and> r = v @ d # r'"
proof
  assume ok: "ReadUntil r d = Ok (v, r')"
  then obtain d' where drop: "dropWhile (\<lambda>b. b \<noteq> d) r = d' # r'"
    and take: "v = takeWhile (\<lambda>b. b \<noteq> d) r"
    by (auto simp: ReadUntil_def readUntil_loop_eq split: list.splits)
  have "d' = d" using drop by (auto simp: dropWhile_eq_Cons_conv)
  moreover have "r = v @ d' # r'" using drop take by (metis takeWhile_dropWhile_id)
  moreover have "d \<notin> set v" using take by (auto dest: set_takeWhileD)
  ultimately show "d \<notin> set v \<and> r = v @ d # r'" by simp
qed (auto simp: ReadUntil_append)

lemma ReadUntil_shrinks [shrinks]: "ReadUntil r d = Ok (v, r') \<Longrightarrow> length r' < length r"
  by (simp add: ReadUntil_Ok_iff)

section \<open>Variable-width integers: round trip\<close>

declare readVariableWidthInt_loop.simps [simp del]

text \<open>The decoder without the special first step, and the writer over \<open>nat\<close>.\<close>

fun vlq_dec :: "u64 \<Rightarrow> reader \<Rightarrow> (u64 \<times> reader) result" where
  "vlq_dec v [] = Error EOF"
| "vlq_dec v (c # r) =
     (let v' = push_bit 7 v + ucast (c AND 127)
      in if c AND 128 > 0 then vlq_dec (v' + 1) r else Ok (v', r))"

fun vlq_enc :: "nat \<Rightarrow> bytes \<Rightarrow> bytes" where
  "vlq_enc m buf =
     (if m = 0 then buf
      else vlq_enc ((m - 1) div 128) ((128 + word_of_nat ((m - 1) mod 128)) # buf))"

declare vlq_enc.simps [simp del]

lemma readVariableWidthInt_loop_eq:
  "readVariableWidthInt_loop v c r =
     (if c AND 128 > 0 then vlq_dec (v + 1) r else Ok (v, r))"
  by (induction v c r rule: readVariableWidthInt_loop.induct)
    (subst readVariableWidthInt_loop.simps, auto simp: Let_def split: list.split)

lemma ReadVariableWidthInt_eq: "ReadVariableWidthInt r = vlq_dec 0 r"
  by (cases r) (simp_all add: ReadVariableWidthInt_def readVariableWidthInt_loop_eq Let_def)

lemma bit_byte_of_nat: "bit (word_of_nat m :: byte) i \<longleftrightarrow> i < 8 \<and> bit m i"
  by (simp add: bit_of_nat_iff)

lemma nat_bit_small: "m < 128 \<Longrightarrow> bit (m::nat) i \<Longrightarrow> i < 7"
proof (rule ccontr)
  assume m: "m < 128" and "bit m i" and i: "\<not> i < 7"
  from \<open>bit m i\<close> have "2 ^ i \<le> m" by (metis bit_iff_odd div_less even_zero not_le)
  moreover have "(2::nat) ^ 7 \<le> 2 ^ i" using i by (intro power_increasing) simp_all
  ultimately show False using m by simp
qed

lemma bit_128: "bit (128 :: int) i \<longleftrightarrow> i = 7"
  using bit_exp_iff [where 'a = int, of 7 i] by simp

lemma bit_127: "bit (127 :: int) i \<longleftrightarrow> i < 7"
  using bit_mask_iff [where 'a = int, of 7 i] by (simp add: mask_eq_exp_minus_1)

lemma or_continue: "m < 128 \<Longrightarrow> 128 OR (word_of_nat m :: byte) = 128 + word_of_nat m"
  by (intro disjunctive_add_eq_or [symmetric] bit_eqI)
    (auto simp: bit_and_iff bit_128 bit_byte_of_nat dest: nat_bit_small)

lemma byte_and_maskContinue: "m < 128 \<Longrightarrow> (word_of_nat m :: byte) AND 128 = 0"
  by (rule bit_eqI) (auto simp: bit_and_iff bit_128 bit_byte_of_nat dest: nat_bit_small)

lemma byte_and_maskContinue': "m < 128 \<Longrightarrow> (128 + word_of_nat m :: byte) AND 128 = 128"
  unfolding or_continue [symmetric]
  by (rule bit_eqI) (auto simp: bit_and_iff bit_or_iff bit_128 bit_byte_of_nat dest: nat_bit_small)

lemma byte_and_maskLength: "m < 128 \<Longrightarrow> (word_of_nat m :: byte) AND 127 = word_of_nat m"
  by (rule bit_eqI) (auto simp: bit_and_iff bit_127 bit_byte_of_nat dest: nat_bit_small)

lemma byte_and_maskLength': "m < 128 \<Longrightarrow> (128 + word_of_nat m :: byte) AND 127 = word_of_nat m"
  unfolding or_continue [symmetric]
  by (rule bit_eqI)
    (auto simp: bit_and_iff bit_or_iff bit_127 bit_128 bit_byte_of_nat dest: nat_bit_small)

lemma ucast_byte_of_nat: "m < 256 \<Longrightarrow> (ucast (word_of_nat m :: byte) :: u64) = word_of_nat m"
  by (simp add: unsigned_of_nat take_bit_eq_mod)

lemma vlq_dec_cont:
  "m < 128 \<Longrightarrow> vlq_dec v ((128 + word_of_nat m) # r) = vlq_dec (v * 128 + word_of_nat m + 1) r"
  by (simp add: byte_and_maskContinue' byte_and_maskLength' ucast_byte_of_nat push_bit_eq_mult
      mult.commute)

lemma vlq_dec_last: "m < 128 \<Longrightarrow> vlq_dec v (word_of_nat m # r) = Ok (v * 128 + word_of_nat m, r)"
  by (simp add: byte_and_maskContinue byte_and_maskLength ucast_byte_of_nat push_bit_eq_mult
      mult.commute)

lemma vlq_dec_enc: "vlq_dec 0 (vlq_enc m buf) = vlq_dec (word_of_nat m) buf"
proof (induction m buf rule: vlq_enc.induct)
  case (1 m buf)
  show ?case
  proof (cases "m = 0")
    case True
    then show ?thesis by (simp add: vlq_enc.simps)
  next
    case False
    let ?q = "(m - 1) div 128" and ?d = "(m - 1) mod 128"
    have "m = ?q * 128 + ?d + 1" using False by simp
    then have "(word_of_nat m :: u64) = word_of_nat (?q * 128 + ?d + 1)"
      by (rule arg_cong)
    then have "(word_of_nat m :: u64) = word_of_nat ?q * 128 + word_of_nat ?d + 1"
      by (simp only: of_nat_add of_nat_mult of_nat_numeral of_nat_1)
    moreover have "vlq_dec 0 (vlq_enc m buf) = vlq_dec (word_of_nat ?q) ((128 + word_of_nat ?d) # buf)"
      using False "1.IH" by (simp add: vlq_enc.simps [of m])
    ultimately show ?thesis
      by (simp only: vlq_dec_cont [OF mod_less_divisor] zero_less_numeral)
  qed
qed

text \<open>On a non-negative \<open>int64\<close> the writer's arithmetic is that of \<open>nat\<close>.\<close>

lemma sint_word_of_nat: "m < 2 ^ 63 \<Longrightarrow> sint (word_of_nat m :: u64) = int m"
  by (simp add: sint_uint unsigned_of_nat signed_take_bit_int_eq_self take_bit_nat_eq_self)

lemma signed_drop_bit_nonneg:
  assumes "m < 2 ^ 63"
  shows "signed_drop_bit 7 (word_of_nat m :: u64) = word_of_nat (m div 128)"
proof -
  have "m div 128 < 2 ^ 63" using assms by simp
  then have "sint (signed_drop_bit 7 (word_of_nat m :: u64)) = sint (word_of_nat (m div 128) :: u64)"
    using assms
    by (simp only: sint_signed_drop_bit_eq drop_bit_eq_div zdiv_int sint_word_of_nat) simp
  then show ?thesis by (simp only: signed_word_eqI)
qed

lemma low_byte_of_nat: "(ucast ((word_of_nat m :: u64) AND 127) :: byte) = word_of_nat (m mod 128)"
proof -
  have "(word_of_nat m :: u64) AND 127 = take_bit 7 (word_of_nat m)"
    by (simp add: take_bit_eq_mask mask_eq_exp_minus_1)
  also have "\<dots> = word_of_nat (m mod 128)"
    using of_nat_take_bit [where 'a = u64, of 7 m] by (simp only: take_bit_eq_mod) simp
  finally show ?thesis
    by (simp add: unsigned_of_nat take_bit_nat_eq_self less_imp_le_nat)
qed

lemma writeVariableWidthInt_loop_eq:
  "m < 2 ^ 63 \<Longrightarrow> writeVariableWidthInt_loop (word_of_nat m) buf = Some (vlq_enc m buf)"
proof (induction m buf rule: vlq_enc.induct)
  case (1 m buf)
  show ?case
  proof (cases "m = 0")
    case True
    then show ?thesis by (simp add: writeVariableWidthInt_loop.simps vlq_enc.simps)
  next
    case False
    then obtain k where m: "m = Suc k" by (cases m) simp_all
    have "(word_of_nat m :: u64) \<noteq> 0"
      using False "1.prems" by (simp add: word_of_nat_eq_0_iff nat_dvd_not_less)
    moreover have "(word_of_nat m :: u64) - 1 = word_of_nat k"
      by (simp add: m)
    moreover have "k < 2 ^ 63" "k div 128 < 2 ^ 63" using "1.prems" m by simp_all
    ultimately show ?thesis
      using False "1.IH" [OF False] unfolding m
      by (simp add: writeVariableWidthInt_loop.simps [of "1 + word_of_nat k"]
          vlq_enc.simps [of "Suc k"] signed_drop_bit_nonneg low_byte_of_nat or_continue)
  qed
qed

lemma WriteVariableWidthInt_eq:
  assumes "m < 2 ^ 63"
  shows "WriteVariableWidthInt (word_of_nat m) = Some (vlq_enc (m div 128) [word_of_nat (m mod 128)])"
proof -
  have "m div 128 < 2 ^ 63" using assms by simp
  then show ?thesis
    by (simp add: WriteVariableWidthInt_def signed_drop_bit_nonneg [OF assms] low_byte_of_nat
        writeVariableWidthInt_loop_eq)
qed

lemma vlq_enc_append: "vlq_enc m buf @ r = vlq_enc m (buf @ r)"
proof (induction m buf rule: vlq_enc.induct)
  case (1 m buf)
  then show ?case
    by (cases "m = 0") (simp_all add: vlq_enc.simps [of m] vlq_enc.simps [of 0])
qed

lemma unat_nonneg: "0 \<le> sint (n :: u64) \<Longrightarrow> unat n < 2 ^ 63"
proof -
  assume n: "0 \<le> sint n"
  then have "even (uint n div 2 ^ 63)" by (simp add: sint_uint bit_iff_odd)
  moreover have "uint n div 2 ^ 63 = int (unat n div 2 ^ 63)" by (simp add: zdiv_int)
  ultimately have "even (unat n div 2 ^ 63)" by (simp only: even_of_nat)
  moreover have "unat n div 2 ^ 63 < 2"
    using unsigned_less [where 'a = nat, of n] by (simp add: less_mult_imp_div_less)
  ultimately have "unat n div 2 ^ 63 = 0" by (metis even_zero less_2_cases odd_one One_nat_def)
  then show ?thesis by (simp add: div_eq_0_iff)
qed

text \<open>
  C7. Writing a non-negative \<open>int64\<close> in Git's variable-width format terminates, and reading the
  bytes back, whatever follows them in the stream, gives the number and leaves what follows.
\<close>

theorem VariableWidthInt_roundtrip:
  "0 \<le> sint n \<Longrightarrow>
     \<exists>bs. WriteVariableWidthInt n = Some bs \<and> ReadVariableWidthInt (bs @ r) = Ok (n, r)"
proof -
  assume "0 \<le> sint n"
  then have less: "unat n < 2 ^ 63" by (rule unat_nonneg)
  let ?m = "unat n"
  have "n = word_of_nat (?m div 128 * 128 + ?m mod 128)" unfolding div_mult_mod_eq by simp
  then have "word_of_nat (?m div 128) * 128 + word_of_nat (?m mod 128) = n"
    by (simp only: of_nat_add of_nat_mult of_nat_numeral)
  then have "ReadVariableWidthInt (vlq_enc (?m div 128) [word_of_nat (?m mod 128)] @ r) = Ok (n, r)"
    by (simp only: ReadVariableWidthInt_eq vlq_enc_append vlq_dec_enc append.simps
        vlq_dec_last [OF mod_less_divisor] zero_less_numeral)
  moreover have "WriteVariableWidthInt n = Some (vlq_enc (?m div 128) [word_of_nat (?m mod 128)])"
    using WriteVariableWidthInt_eq [OF less] by simp
  ultimately show ?thesis by blast
qed

theorem VariableWidthInt_roundtrip_witness:
  "\<exists>bs. WriteVariableWidthInt 358 = Some bs \<and> ReadVariableWidthInt (bs @ [7]) = Ok (358, [7])"
proof -
  have "0 \<le> sint (358 :: u64)" by simp
  then show ?thesis by (rule VariableWidthInt_roundtrip)
qed

end
