(* ===== verification/GoStrings.thy ===== *)
theory GoStrings
  imports Prelude "HOL-Library.Sublist"
begin

text \<open>
  The part of Go's \<^verbatim>\<open>strings\<close>, \<^verbatim>\<open>bytes\<close>, \<^verbatim>\<open>strconv\<close> and \<^verbatim>\<open>encoding/hex\<close> packages that the
  modelled sources call, over lists (strings are \<open>char list\<close>, byte slices \<open>byte list\<close>).
\<close>

section \<open>Searching\<close>

definition HasPrefix :: "'a list \<Rightarrow> 'a list \<Rightarrow> bool" where
  "HasPrefix s p \<longleftrightarrow> take (length p) s = p"

definition HasSuffix :: "'a list \<Rightarrow> 'a list \<Rightarrow> bool" where
  "HasSuffix s p \<longleftrightarrow> length p \<le> length s \<and> drop (length s - length p) s = p"

text \<open>\<^verbatim>\<open>strings.Index\<close>: the first position where \<open>p\<close> occurs, \<open>None\<close> for Go's -1.\<close>

fun Index :: "'a list \<Rightarrow> 'a list \<Rightarrow> nat option" where
  "Index [] p = (if p = [] then Some 0 else None)"
| "Index (c # s) p = (if HasPrefix (c # s) p then Some 0 else map_option Suc (Index s p))"

definition Contains :: "'a list \<Rightarrow> 'a list \<Rightarrow> bool" where
  "Contains s p \<longleftrightarrow> Index s p \<noteq> None"

definition ContainsAny :: "'a list \<Rightarrow> 'a list \<Rightarrow> bool" where
  "ContainsAny s cs \<longleftrightarrow> list_ex (\<lambda>c. List.member cs c) s"

text \<open>\<^verbatim>\<open>strings.Count\<close> and \<^verbatim>\<open>strings.Split\<close> for a separator of one character.\<close>

definition CountChar :: "'a list \<Rightarrow> 'a \<Rightarrow> nat" where
  "CountChar s c = count_list s c"

fun SplitChar :: "'a list \<Rightarrow> 'a \<Rightarrow> 'a list list" where
  "SplitChar [] c = [[]]"
| "SplitChar (x # s) c =
     (if x = c then [] # SplitChar s c
      else case SplitChar s c of
             [] \<Rightarrow> [[x]]
           | p # ps \<Rightarrow> (x # p) # ps)"

fun JoinChar :: "'a list list \<Rightarrow> 'a \<Rightarrow> 'a list" where
  "JoinChar [] c = []"
| "JoinChar [p] c = p"
| "JoinChar (p # ps) c = p @ c # JoinChar ps c"

definition TrimPrefix :: "'a list \<Rightarrow> 'a list \<Rightarrow> 'a list" where
  "TrimPrefix s p = (if HasPrefix s p then drop (length p) s else s)"

definition TrimSuffix :: "'a list \<Rightarrow> 'a list \<Rightarrow> 'a list" where
  "TrimSuffix s p = (if HasSuffix s p then take (length s - length p) s else s)"

text \<open>
  \<^verbatim>\<open>bytes.TrimSpace\<close>: the white space of \<^verbatim>\<open>unicode.IsSpace\<close> in its UTF-8 encodings, removed at
  both ends.
\<close>

definition spaces :: "bytes list" where
  "spaces = [[9], [10], [11], [12], [13], [32], [0xC2, 0x85], [0xC2, 0xA0], [0xE1, 0x9A, 0x80],
     [0xE2, 0x80, 0x80], [0xE2, 0x80, 0x81], [0xE2, 0x80, 0x82], [0xE2, 0x80, 0x83], [0xE2, 0x80, 0x84],
     [0xE2, 0x80, 0x85], [0xE2, 0x80, 0x86], [0xE2, 0x80, 0x87], [0xE2, 0x80, 0x88], [0xE2, 0x80, 0x89],
     [0xE2, 0x80, 0x8A], [0xE2, 0x80, 0xA8], [0xE2, 0x80, 0xA9], [0xE2, 0x80, 0xAF], [0xE2, 0x81, 0x9F],
     [0xE3, 0x80, 0x80]]"

lemma spaces_nonempty: "List.find P spaces = Some sp \<Longrightarrow> 0 < length sp"
proof -
  assume "List.find P spaces = Some sp"
  then have "sp \<in> set spaces" by (auto simp: find_Some_iff)
  then show ?thesis by (auto simp: spaces_def)
qed

function TrimLeftSpace :: "bytes \<Rightarrow> bytes" where
  "TrimLeftSpace s =
     (case List.find (\<lambda>sp. HasPrefix s sp) spaces of
        None \<Rightarrow> s
      | Some sp \<Rightarrow> TrimLeftSpace (drop (length sp) s))"
  by pat_completeness auto
termination
proof (relation "measure length")
  fix s sp
  assume sp: "List.find (\<lambda>sp. HasPrefix s sp) spaces = Some sp"
  then have "HasPrefix s sp" by (auto simp: find_Some_iff)
  with spaces_nonempty [OF sp] show "(drop (length sp) s, s) \<in> measure length"
    by (cases s) (auto simp: HasPrefix_def)
qed simp

function TrimRightSpace :: "bytes \<Rightarrow> bytes" where
  "TrimRightSpace s =
     (case List.find (\<lambda>sp. HasSuffix s sp) spaces of
        None \<Rightarrow> s
      | Some sp \<Rightarrow> TrimRightSpace (take (length s - length sp) s))"
  by pat_completeness auto
termination
proof (relation "measure length")
  fix s sp
  assume sp: "List.find (\<lambda>sp. HasSuffix s sp) spaces = Some sp"
  then have "HasSuffix s sp" by (auto simp: find_Some_iff)
  with spaces_nonempty [OF sp] show "(take (length s - length sp) s, s) \<in> measure length"
    unfolding HasSuffix_def by (simp only: in_measure length_take) linarith
qed simp

declare TrimLeftSpace.simps [simp del] TrimRightSpace.simps [simp del]

definition TrimSpace :: "bytes \<Rightarrow> bytes" where
  "TrimSpace s = TrimRightSpace (TrimLeftSpace s)"

text \<open>\<^verbatim>\<open>bytes.Compare\<close>: lexicographic, as -1, 0 or 1.\<close>

fun Compare :: "'a::linorder list \<Rightarrow> 'a list \<Rightarrow> int" where
  "Compare [] [] = 0"
| "Compare [] (y # ys) = -1"
| "Compare (x # xs) [] = 1"
| "Compare (x # xs) (y # ys) = (if x < y then -1 else if y < x then 1 else Compare xs ys)"

lemma HasPrefix_append [simp]: "HasPrefix (p @ s) p"
  by (simp add: HasPrefix_def)

lemma HasPrefix_iff: "HasPrefix s p \<longleftrightarrow> (\<exists>t. s = p @ t)"
  unfolding HasPrefix_def by (metis append_eq_conv_conj)

lemma HasSuffix_append [simp]: "HasSuffix (s @ p) p"
  by (simp add: HasSuffix_def)

lemma HasSuffix_iff: "HasSuffix s p \<longleftrightarrow> (\<exists>t. s = t @ p)"
proof
  assume "HasSuffix s p"
  then have "s = take (length s - length p) s @ p"
    unfolding HasSuffix_def by (metis append_take_drop_id)
  then show "\<exists>t. s = t @ p" ..
qed auto

lemma Index_Some:
  "Index s p = Some i \<Longrightarrow> i + length p \<le> length s \<and> take (length p) (drop i s) = p"
proof (induction s p arbitrary: i rule: Index.induct)
  case (1 p)
  then show ?case by (auto split: if_splits)
next
  case (2 c s p)
  show ?case
  proof (cases "HasPrefix (c # s) p")
    case True
    then have "take (length p) (c # s) = p" by (simp add: HasPrefix_def)
    then have "length p \<le> length (c # s)" by (metis length_take min.cobounded1)
    with True 2 show ?thesis by (auto simp: HasPrefix_def)
  next
    case False
    with "2.prems" obtain j where "Index s p = Some j" "i = Suc j" by auto
    with "2.IH" [OF False] show ?thesis by auto
  qed
qed

lemma Index_char:
  "Index s [c] = (if c \<in> set s then Some (length (takeWhile (\<lambda>x. x \<noteq> c) s)) else None)"
  by (induction s) (auto simp: HasPrefix_def)

lemma Contains_char: "Contains s [c] \<longleftrightarrow> c \<in> set s"
  by (simp add: Contains_def Index_char)

lemma SplitChar_nonempty [simp]: "SplitChar s c \<noteq> []"
  by (induction s) (auto split: list.splits)

lemma JoinChar_SplitChar [simp]: "JoinChar (SplitChar s c) c = s"
proof (induction s)
  case Nil
  then show ?case by simp
next
  case (Cons x s)
  obtain p ps where ps: "SplitChar s c = p # ps" by (cases "SplitChar s c") simp_all
  show ?case
  proof (cases ps)
    case Nil
    with Cons ps show ?thesis by auto
  next
    case (Cons q qs)
    with \<open>JoinChar (SplitChar s c) c = s\<close> ps show ?thesis by auto
  qed
qed

lemma SplitChar_no_sep: "p \<in> set (SplitChar s c) \<Longrightarrow> c \<notin> set p"
proof (induction s arbitrary: p)
  case Nil
  then show ?case by simp
next
  case (Cons x s)
  obtain q qs where "SplitChar s c = q # qs" by (cases "SplitChar s c") simp_all
  with Cons show ?case by (auto split: if_splits)
qed

lemma SplitChar_JoinChar:
  "ps \<noteq> [] \<Longrightarrow> \<forall>p \<in> set ps. c \<notin> set p \<Longrightarrow> SplitChar (JoinChar ps c) c = ps"
proof (induction ps rule: induct_list012)
  case (2 p)
  then have "c \<notin> set p" by simp
  then show ?case by (induction p) auto
next
  case (3 p q ps)
  from 3 have IH: "SplitChar (JoinChar (q # ps) c) c = q # ps" by simp
  from 3 have "c \<notin> set p" by simp
  then show ?case using IH by (induction p) auto
qed simp

lemma Compare_eq_0_iff [simp]: "Compare xs ys = 0 \<longleftrightarrow> xs = ys"
  by (induction xs ys rule: Compare.induct) auto

lemma Compare_antisym: "Compare ys xs = - Compare xs ys"
  by (induction xs ys rule: Compare.induct) auto

lemma Compare_less_trans: "Compare xs ys < 0 \<Longrightarrow> Compare ys zs < 0 \<Longrightarrow> Compare xs zs < 0"
proof (induction xs ys arbitrary: zs rule: Compare.induct)
  case (2 y ys)
  then show ?case by (cases zs) auto
next
  case (4 x xs y ys)
  then show ?case by (cases zs) (auto split: if_splits)
qed auto

section \<open>Numbers in text\<close>

definition digit :: "nat \<Rightarrow> char" where
  "digit d = char_of (if d < 10 then 48 + d else 87 + d)"

text \<open>The digits of a number in a base up to 36, as \<^verbatim>\<open>strconv.FormatUint\<close> prints it.\<close>

fun FormatNat :: "nat \<Rightarrow> nat \<Rightarrow> string" where
  "FormatNat base n =
     (if base < 2 \<or> n < base then [digit n]
      else FormatNat base (n div base) @ [digit (n mod base)])"

declare FormatNat.simps [simp del]

definition FormatInt :: "int \<Rightarrow> string" where
  "FormatInt i = (if i < 0 then CHR ''-'' # FormatNat 10 (nat (- i)) else FormatNat 10 (nat i))"

text \<open>The value of a digit as \<^verbatim>\<open>strconv.ParseUint\<close> reads it, \<open>None\<close> when it is not one.\<close>

definition digit_value :: "char \<Rightarrow> nat option" where
  "digit_value c =
     (let n = of_char c :: nat
      in if 48 \<le> n \<and> n \<le> 57 then Some (n - 48)
         else if 97 \<le> n \<and> n \<le> 122 then Some (n - 87)
         else if 65 \<le> n \<and> n \<le> 90 then Some (n - 55)
         else None)"

text \<open>\<^verbatim>\<open>strconv.ParseUint(s, base, bits)\<close> for an explicit base: syntax and range errors.\<close>

fun parseUint_loop :: "nat \<Rightarrow> nat \<Rightarrow> nat \<Rightarrow> string \<Rightarrow> nat result" where
  "parseUint_loop base bits n [] = Ok n"
| "parseUint_loop base bits n (c # s) =
     (case digit_value c of
        None \<Rightarrow> Error (Sentinel ''strconv.ErrSyntax'')
      | Some d \<Rightarrow>
          if base \<le> d then Error (Sentinel ''strconv.ErrSyntax'')
          else if 2 ^ bits \<le> n * base + d then Error (Sentinel ''strconv.ErrRange'')
          else parseUint_loop base bits (n * base + d) s)"

definition ParseUint :: "string \<Rightarrow> nat \<Rightarrow> nat \<Rightarrow> nat result" where
  "ParseUint s base bits =
     (if s = [] then Error (Sentinel ''strconv.ErrSyntax'') else parseUint_loop base bits 0 s)"

lemma digit_value_digit: "d < 36 \<Longrightarrow> digit_value (digit d) = Some d"
  by (auto simp: digit_value_def digit_def Let_def)

lemma parseUint_loop_append:
  "parseUint_loop base bits n (s @ t) =
     rbind (parseUint_loop base bits n s) (\<lambda>m. parseUint_loop base bits m t)"
  by (induction base bits n s rule: parseUint_loop.induct) (auto split: option.split)

lemma parseUint_loop_FormatNat:
  "2 \<le> base \<Longrightarrow> base \<le> 36 \<Longrightarrow> n < 2 ^ bits \<Longrightarrow>
     parseUint_loop base bits 0 (FormatNat base n) = Ok n"
proof (induction base n rule: FormatNat.induct)
  case (1 base n)
  show ?case
  proof (cases "n < base")
    case True
    with 1 show ?thesis by (simp add: FormatNat.simps [of base n] digit_value_digit)
  next
    case False
    have small: "n div base < 2 ^ bits" using "1.prems" by (meson div_le_dividend le_less_trans)
    have less: "n mod base < base" using "1.prems" by simp
    then have "digit_value (digit (n mod base)) = Some (n mod base)"
      using "1.prems"(2) by (intro digit_value_digit) linarith
    with less False "1.prems" "1.IH" [OF _ "1.prems"(1,2) small] show ?thesis
      by (simp add: FormatNat.simps [of base n] parseUint_loop_append not_le)
  qed
qed

lemma FormatNat_nonempty [simp]: "FormatNat base n \<noteq> []"
  by (subst FormatNat.simps) simp

lemma ParseUint_FormatNat:
  "2 \<le> base \<Longrightarrow> base \<le> 36 \<Longrightarrow> n < 2 ^ bits \<Longrightarrow> ParseUint (FormatNat base n) base bits = Ok n"
  by (simp add: ParseUint_def parseUint_loop_FormatNat)

section \<open>Hexadecimal\<close>

text \<open>\<^verbatim>\<open>encoding/hex\<close>: two lower-case digits a byte; decoding takes either case.\<close>

fun hexEncode :: "bytes \<Rightarrow> string" where
  "hexEncode [] = []"
| "hexEncode (b # bs) = digit (unat b div 16) # digit (unat b mod 16) # hexEncode bs"

definition hex_value :: "char \<Rightarrow> nat option" where
  "hex_value c = (case digit_value c of None \<Rightarrow> None | Some d \<Rightarrow> if d < 16 then Some d else None)"

fun hexDecode :: "string \<Rightarrow> bytes option" where
  "hexDecode [] = Some []"
| "hexDecode [c] = None"
| "hexDecode (c # d # s) =
     (case (hex_value c, hex_value d) of
        (Some h, Some l) \<Rightarrow> map_option ((#) (word_of_nat (16 * h + l))) (hexDecode s)
      | _ \<Rightarrow> None)"

lemma length_hexEncode [simp]: "length (hexEncode bs) = 2 * length bs"
  by (induction bs) simp_all

lemma hex_value_digit [simp]: "d < 16 \<Longrightarrow> hex_value (digit d) = Some d"
  by (simp add: hex_value_def digit_value_digit)

lemma hexDecode_hexEncode [simp]: "hexDecode (hexEncode bs) = Some bs"
proof (induction bs)
  case Nil
  then show ?case by simp
next
  case (Cons b bs)
  have "unat b div 16 < 16" using unat_byte_less [of b] by (simp add: less_mult_imp_div_less)
  moreover have "16 * (unat b div 16) + unat b mod 16 = unat b" by simp
  ultimately show ?case using Cons by (simp del: of_nat_add of_nat_mult)
qed

lemma hexDecode_length: "hexDecode s = Some bs \<Longrightarrow> length s = 2 * length bs"
  by (induction s arbitrary: bs rule: hexDecode.induct) (auto split: option.splits)


section \<open>Splitting and searching\<close>

lemma HasPrefix_Nil [simp]: "HasPrefix s []" and HasPrefix_of_Nil [simp]: "HasPrefix [] p \<longleftrightarrow> p = []"
  by (auto simp: HasPrefix_def)

lemma HasPrefix_Cons [simp]: "HasPrefix (x # s) (y # p) \<longleftrightarrow> x = y \<and> HasPrefix s p"
  by (auto simp: HasPrefix_def)

lemma Contains_Nil [simp]: "Contains [] p \<longleftrightarrow> p = []"
  by (simp add: Contains_def)

lemma Contains_Cons [simp]: "Contains (x # s) p \<longleftrightarrow> HasPrefix (x # s) p \<or> Contains s p"
  by (simp add: Contains_def)

lemma Contains_append: "Contains (a @ p @ b) p"
proof (induction a)
  case Nil
  have "HasPrefix (p @ b) p" by simp
  then show ?case by (cases "p @ b") auto
qed simp

lemma Contains_split: "Contains s p \<Longrightarrow> \<exists>a b. s = a @ p @ b"
proof (induction s)
  case Nil
  then show ?case by simp
next
  case (Cons x s)
  then consider t where "x # s = p @ t" | a b where "s = a @ p @ b" by (auto simp: HasPrefix_iff)
  then show ?case
  proof cases
    case 1
    then show ?thesis by (intro exI [of _ "[]"] exI [of _ t]) simp
  next
    case 2
    then show ?thesis by (intro exI [of _ "x # a"] exI [of _ b]) simp
  qed
qed

lemma SplitChar_hd: "\<exists>ps. SplitChar s c = takeWhile (\<lambda>x. x \<noteq> c) s # ps"
  by (induction s) (auto split: list.splits)

lemma HasPrefix_takeWhile:
  "c \<notin> set p \<Longrightarrow> HasPrefix (takeWhile (\<lambda>x. x \<noteq> c) s) p \<longleftrightarrow> HasPrefix s p"
proof (induction s arbitrary: p)
  case (Cons x s)
  then show ?case by (cases p) auto
qed simp

lemma Contains_SplitChar:
  assumes "c \<notin> set p" and "p \<noteq> []"
  shows "Contains s p \<longleftrightarrow> (\<exists>part \<in> set (SplitChar s c). Contains part p)"
proof (induction s)
  case Nil
  then show ?case by simp
next
  case (Cons x s)
  obtain ps where ps: "SplitChar s c = takeWhile (\<lambda>x. x \<noteq> c) s # ps" using SplitChar_hd [of s c] by blast
  show ?case
  proof (cases "x = c")
    case True
    then have "\<not> HasPrefix (x # s) p" using assms by (cases p) auto
    with True Cons.IH assms(2) show ?thesis by simp
  next
    case False
    then have "HasPrefix (x # takeWhile (\<lambda>x. x \<noteq> c) s) p \<longleftrightarrow> HasPrefix (x # s) p"
      using HasPrefix_takeWhile [OF assms(1), of "x # s"] by simp
    with False Cons.IH ps show ?thesis by simp
  qed
qed

lemma SplitChar_empty_tail:
  "[] \<in> set (tl (SplitChar s c)) \<longleftrightarrow> s \<noteq> [] \<and> (last s = c \<or> Contains s [c, c])"
proof (induction s)
  case (Cons x s)
  obtain ps where ps: "SplitChar s c = takeWhile (\<lambda>x. x \<noteq> c) s # ps" using SplitChar_hd [of s c] by blast
  show ?case
  proof (cases s)
    case Nil
    then show ?thesis by (auto simp: HasPrefix_def)
  next
    case s: (Cons y t)
    have "takeWhile (\<lambda>x. x \<noteq> c) s = [] \<longleftrightarrow> y = c" using s by simp
    then show ?thesis using Cons.IH ps s by (cases "x = c") auto
  qed
qed simp

lemma SplitChar_empty_part:
  "[] \<in> set (SplitChar s c) \<longleftrightarrow> s = [] \<or> hd s = c \<or> last s = c \<or> Contains s [c, c]"
proof -
  obtain ps where ps: "SplitChar s c = takeWhile (\<lambda>x. x \<noteq> c) s # ps" using SplitChar_hd [of s c] by blast
  have "takeWhile (\<lambda>x. x \<noteq> c) s = [] \<longleftrightarrow> s = [] \<or> hd s = c" by (cases s) auto
  with ps SplitChar_empty_tail [of s c] show ?thesis by auto
qed

lemma SplitChar_chars: "(\<Union>p \<in> set (SplitChar s c). set p) = set s - {c}"
proof (induction s)
  case (Cons x s)
  obtain ps where ps: "SplitChar s c = takeWhile (\<lambda>x. x \<noteq> c) s # ps" using SplitChar_hd [of s c] by blast
  show ?case using Cons ps by (cases "x = c") auto
qed simp

lemma SplitChar_length: "length (SplitChar s c) = CountChar s c + 1"
  by (induction s) (auto simp: CountChar_def split: list.split)

section \<open>Splitting, trimming and numbers\<close>

text \<open>\<^verbatim>\<open>bytes.SplitN\<close> in two parts: up to the first equals sign, and the rest.\<close>

definition SplitN2 :: "'a list \<Rightarrow> 'a \<Rightarrow> 'a list \<times> 'a list option" where
  "SplitN2 s c =
     (case Index s [c] of None \<Rightarrow> (s, None) | Some i \<Rightarrow> (take i s, Some (drop (i + 1) s)))"

lemma SplitN2_name: "x \<notin> set s \<Longrightarrow> SplitN2 s x = (s, None)"
  by (simp add: SplitN2_def Index_char)

lemma SplitN2_pair: "x \<notin> set s \<Longrightarrow> SplitN2 (s @ x # t) x = (s, Some t)"
  by (induction s) (auto simp: SplitN2_def HasPrefix_def split: option.splits)

lemma SplitChar_no: "c \<notin> set s \<Longrightarrow> SplitChar s c = [s]"
  by (induction s) auto

lemma SplitChar_cons: "c \<notin> set s \<Longrightarrow> SplitChar (s @ c # t) c = s # SplitChar t c"
  by (induction s) auto

lemma TrimSpace_visible:
  assumes "s \<noteq> []" and "33 \<le> unat (hd s) \<and> unat (hd s) \<le> 126" and "33 \<le> unat (last s) \<and> unat (last s) \<le> 126"
  shows "TrimSpace s = s"
proof -
  have ends: "sp \<noteq> [] \<and> \<not> (33 \<le> unat (hd sp) \<and> unat (hd sp) \<le> 126) \<and> \<not> (33 \<le> unat (last sp) \<and> unat (last sp) \<le> 126)"
    if "sp \<in> set spaces" for sp
    using that by (auto simp: spaces_def)
  have "\<not> HasPrefix s sp \<and> \<not> HasSuffix s sp" if "sp \<in> set spaces" for sp
    using ends [OF that] assms by (auto simp: HasPrefix_iff HasSuffix_iff)
  then have none: "List.find (\<lambda>sp. HasPrefix s sp) spaces = None" "List.find (\<lambda>sp. HasSuffix s sp) spaces = None"
    by (auto simp: find_None_iff)
  show ?thesis unfolding TrimSpace_def TrimLeftSpace.simps [of s] none option.case
    by (subst TrimRightSpace.simps) (simp add: none)
qed

lemma TrimLeftSpace_Nil: "TrimRightSpace (TrimLeftSpace []) = []"
proof -
  have none: "List.find (\<lambda>sp. HasPrefix ([] :: bytes) sp) spaces = None" "List.find (\<lambda>sp. HasSuffix ([] :: bytes) sp) spaces = None"
    by (auto simp: find_None_iff HasPrefix_def HasSuffix_def spaces_def)
  show ?thesis unfolding TrimLeftSpace.simps [of "[]"] none option.case
    by (subst TrimRightSpace.simps) (simp only: none option.case)
qed

lemma TrimLeftSpace_visible:
  assumes "s \<noteq> []" and "33 \<le> unat (hd s) \<and> unat (hd s) \<le> 126"
  shows "TrimLeftSpace (s @ t) = s @ t"
proof -
  have "\<not> HasPrefix (s @ t) x" if "x \<in> set spaces" for x
    using that assms by (cases s) (auto simp: spaces_def)
  then have "List.find (\<lambda>x. HasPrefix (s @ t) x) spaces = None" by (auto simp: find_None_iff)
  then show ?thesis by (subst TrimLeftSpace.simps) simp
qed

lemma TrimRightSpace_newline: "TrimRightSpace (s @ [10]) = TrimRightSpace s"
proof -
  have "HasSuffix (s @ [10]) x \<longleftrightarrow> x = [10]" if "x \<in> set spaces" for x
    using that by (auto simp: spaces_def HasSuffix_iff)
  then have "List.find (\<lambda>x. HasSuffix (s @ [10]) x) spaces = List.find (\<lambda>x. x = [10]) spaces"
    by (intro find_cong) auto
  also have "\<dots> = Some [10]" by (simp add: spaces_def)
  finally show ?thesis by (subst TrimRightSpace.simps) simp
qed

lemma TrimSpace_newline:
  assumes "s \<noteq> []" and "33 \<le> unat (hd s) \<and> unat (hd s) \<le> 126" and "33 \<le> unat (last s) \<and> unat (last s) \<le> 126"
  shows "TrimSpace (s @ [10]) = s"
  using TrimSpace_visible [OF assms] TrimLeftSpace_visible [OF assms(1,2), of "[10]"] TrimLeftSpace_visible [OF assms(1,2), of "[]"]
  by (simp add: TrimSpace_def TrimRightSpace_newline)

text \<open>Trimming at the right stops at the last visible character.\<close>

lemma TrimRightSpace_prefix:
  assumes "k \<noteq> []" and "33 \<le> unat (last k) \<and> unat (last k) \<le> 126"
  shows "\<exists>n. TrimRightSpace (k @ t) = k @ take n t"
proof (induction t rule: measure_induct_rule [of length])
  case (less t)
  show ?case
  proof (cases "List.find (\<lambda>sp. HasSuffix (k @ t) sp) spaces")
    case None
    then have "TrimRightSpace (k @ t) = k @ take (length t) t" by (subst TrimRightSpace.simps) simp
    then show ?thesis by blast
  next
    case (Some sp)
    then have sp: "sp \<in> set spaces" "HasSuffix (k @ t) sp" by (auto simp: find_Some_iff)
    have "\<not> (33 \<le> unat x \<and> unat x \<le> 126)" if "x \<in> set sp" for x using that sp(1) by (auto simp: spaces_def)
    then have vis: "last k \<notin> set sp" using assms(2) by blast
    obtain p where p: "k @ t = p @ sp" using sp(2) unfolding HasSuffix_iff by blast
    have le: "length sp \<le> length t"
    proof (rule ccontr)
      assume "\<not> length sp \<le> length t"
      with p obtain u where "sp = u @ t" "k = p @ u" unfolding append_eq_append_conv2 by fastforce
      moreover from this \<open>\<not> length sp \<le> length t\<close> have "u \<noteq> []" by auto
      ultimately have "last k \<in> set sp" by simp
      with vis show False by contradiction
    qed
    have "length (take (length t - length sp) t) < length t"
      using le spaces_nonempty [OF Some] by (simp only: length_take)
    from less [OF this] obtain n where "TrimRightSpace (k @ take (length t - length sp) t) = k @ take n (take (length t - length sp) t)" by blast
    then have "TrimRightSpace (k @ t) = k @ take (min n (length t - length sp)) t"
      using Some le by (subst TrimRightSpace.simps) (simp add: take_take)
    then show ?thesis by blast
  qed
qed

lemma set_str: "set (str s) = of_char ` set s"
  by (simp add: str_def)

lemma of_char_in_str: "(of_char x :: byte) \<in> set (str s) \<longleftrightarrow> x \<in> set s"
proof -
  have "(of_char x :: byte) = of_char y \<longleftrightarrow> x = y" for y by (metis of_char_eq_iff unat_of_char)
  then show ?thesis by (simp add: set_str image_iff)
qed

text \<open>\<^verbatim>\<open>strconv.ParseInt(s, 10, 64)\<close>, which is also \<^verbatim>\<open>strconv.Atoi(s)\<close>.\<close>

definition ParseInt :: "string \<Rightarrow> int result" where
  "ParseInt s =
     (let (neg, u) = (case s of
                        [] \<Rightarrow> (False, [])
                      | c # t \<Rightarrow> if c = CHR ''+'' then (False, t) else if c = CHR ''-'' then (True, t) else (False, s))
      in rbind (ParseUint u 10 64) (\<lambda>un.
           if \<not> neg \<and> un \<ge> 2 ^ 63 then Error (Sentinel ''strconv.ErrRange'')
           else if neg \<and> un > 2 ^ 63 then Error (Sentinel ''strconv.ErrRange'')
           else Ok (if neg then - int un else int un)))"

lemma FormatNat_hd: "2 \<le> base \<Longrightarrow> base \<le> 10 \<Longrightarrow> \<exists>d s. FormatNat base n = digit d # s \<and> d < 10"
proof (induction base n rule: FormatNat.induct)
  case (1 base n)
  show ?case
  proof (cases "base < 2 \<or> n < base")
    case True
    with 1 have "FormatNat base n = [digit n] \<and> n < 10" by (subst FormatNat.simps) simp
    then show ?thesis by blast
  next
    case False
    with 1 obtain d s where "FormatNat base (n div base) = digit d # s \<and> d < 10" by blast
    with False have "FormatNat base n = digit d # s @ [digit (n mod base)] \<and> d < 10" by (subst FormatNat.simps) simp
    then show ?thesis by blast
  qed
qed

lemma ParseInt_FormatInt:
  assumes "- (2 ^ 63) \<le> i" and "i < 2 ^ 63"
  shows "ParseInt (FormatInt i) = Ok i"
proof (cases "i < 0")
  case True
  then have "nat (- i) < 2 ^ 64" "\<not> nat (- i) > 2 ^ 63" using assms by simp_all
  with True ParseUint_FormatNat [of 10 "nat (- i)" 64] show ?thesis
    by (simp add: ParseInt_def FormatInt_def)
next
  case False
  obtain d s where fmt: "FormatNat 10 (nat i) = digit d # s" and d: "d < 10" using FormatNat_hd [of 10 "nat i"] by auto
  have "(of_char (digit d) :: nat) = 48 + d" using d by (simp add: digit_def)
  then have "digit d \<noteq> CHR ''+''" "digit d \<noteq> CHR ''-''" by auto
  moreover have "nat i < 2 ^ 64" "\<not> nat i \<ge> 2 ^ 63" using assms False by simp_all
  ultimately show ?thesis using False ParseUint_FormatNat [of 10 "nat i" 64]
    by (simp add: ParseInt_def FormatInt_def fmt)
qed

lemma hexEncode_char: "c \<in> set (hexEncode bs) \<Longrightarrow> 48 \<le> (of_char c :: nat) \<and> (of_char c :: nat) \<le> 102 \<and> (of_char c :: nat) \<noteq> 69"
proof (induction bs)
  case (Cons b bs)
  have hex: "48 \<le> (of_char (digit d) :: nat) \<and> (of_char (digit d) :: nat) \<le> 102 \<and> (of_char (digit d) :: nat) \<noteq> 69" if "d < 16" for d
    using that by (auto simp: digit_def)
  have "unat b div 16 < 16" using unat_byte_less [of b] by (simp add: less_mult_imp_div_less)
  with hex [of "unat b div 16"] hex [of "unat b mod 16"] Cons show ?case by auto
qed simp

end
