(* ===== verification/ObjectId.thy ===== *)
theory ObjectId
  imports GoStrings
begin

text \<open>
  The package \<^verbatim>\<open>plumbing\<close> on objects: object formats (\<^verbatim>\<open>format/config/format.go\<close>), object ids
  (\<^verbatim>\<open>objectid.go\<close>, \<^verbatim>\<open>hash.go\<close>), the two hashers (\<^verbatim>\<open>hash.go\<close>, \<^verbatim>\<open>hasher.go\<close>), object types
  (\<^verbatim>\<open>object.go\<close>) and the in-memory object (\<^verbatim>\<open>memory.go\<close>). The digest algorithms come from other
  modules; they are the parameter \<open>sha\<close>, from an algorithm and the bytes written to a digest.
\<close>

section \<open>Object formats\<close>

datatype ObjectFormat = SHA1 | SHA256 | OtherFormat int

definition SHA1Size :: nat where "SHA1Size = 20"
definition SHA256Size :: nat where "SHA256Size = 32"
definition SHA1HexSize :: nat where "SHA1HexSize = SHA1Size * 2"
definition SHA256HexSize :: nat where "SHA256HexSize = SHA256Size * 2"

lemmas format_sizes = SHA1Size_def SHA256Size_def SHA1HexSize_def SHA256HexSize_def

fun ObjectFormat_String :: "ObjectFormat \<Rightarrow> string" where
  "ObjectFormat_String SHA1 = ''sha1''"
| "ObjectFormat_String SHA256 = ''sha256''"
| "ObjectFormat_String (OtherFormat i) = ''''"

fun ObjectFormat_Size :: "ObjectFormat \<Rightarrow> nat" where
  "ObjectFormat_Size SHA1 = SHA1Size"
| "ObjectFormat_Size SHA256 = SHA256Size"
| "ObjectFormat_Size (OtherFormat i) = 0"

fun ObjectFormat_HexSize :: "ObjectFormat \<Rightarrow> nat" where
  "ObjectFormat_HexSize SHA1 = SHA1HexSize"
| "ObjectFormat_HexSize SHA256 = SHA256HexSize"
| "ObjectFormat_HexSize (OtherFormat i) = 0"

section \<open>Object ids\<close>

record ObjectID =
  oid_hash :: bytes
  oid_format :: ObjectFormat

text \<open>Go's built-in \<^verbatim>\<open>copy(dst, src)\<close> into an array.\<close>

definition go_copy :: "'a list \<Rightarrow> 'a list \<Rightarrow> 'a list" where
  "go_copy dst src = take (length dst) src @ drop (length src) dst"

definition empty_hash :: bytes where
  "empty_hash = replicate SHA256Size 0"

definition ZeroHash :: ObjectID where
  "ZeroHash = \<lparr>oid_hash = empty_hash, oid_format = SHA1\<rparr>"

definition ObjectID_Size :: "ObjectID \<Rightarrow> nat" where
  "ObjectID_Size s = ObjectFormat_Size (oid_format s)"

definition ObjectID_HexSize :: "ObjectID \<Rightarrow> nat" where
  "ObjectID_HexSize s = ObjectFormat_HexSize (oid_format s)"

definition ObjectID_Write :: "ObjectID \<Rightarrow> bytes \<Rightarrow> ObjectID" where
  "ObjectID_Write s inp = s\<lparr>oid_hash := go_copy (oid_hash s) inp\<rparr>"

definition FromHex :: "string \<Rightarrow> ObjectID \<times> bool" where
  "FromHex inp =
     (let ident = (if length inp = SHA256HexSize then ZeroHash\<lparr>oid_format := SHA256\<rparr> else ZeroHash)
      in case hexDecode inp of
           None \<Rightarrow> (ident, False)
         | Some out \<Rightarrow> (ObjectID_Write ident out, True))"

definition FromBytes :: "bytes \<Rightarrow> ObjectID \<times> bool" where
  "FromBytes inp =
     (if length inp = SHA1Size
      then (ObjectID_Write (ZeroHash\<lparr>oid_format := SHA1\<rparr>) inp, True)
      else if length inp = SHA256Size
      then (ObjectID_Write (ZeroHash\<lparr>oid_format := SHA256\<rparr>) inp, True)
      else (ZeroHash, False))"

definition ObjectID_Bytes :: "ObjectID \<Rightarrow> bytes" where
  "ObjectID_Bytes s = take (ObjectID_Size s) (oid_hash s)"

definition ObjectID_Compare :: "ObjectID \<Rightarrow> bytes \<Rightarrow> int" where
  "ObjectID_Compare s b = Compare (take (ObjectID_Size s) (oid_hash s)) b"

definition ObjectID_Equal :: "ObjectID \<Rightarrow> ObjectID \<Rightarrow> bool" where
  "ObjectID_Equal s inp \<longleftrightarrow> oid_hash s = oid_hash inp"

definition ObjectID_HasPrefix :: "ObjectID \<Rightarrow> bytes \<Rightarrow> bool" where
  "ObjectID_HasPrefix s p \<longleftrightarrow> HasPrefix (take (ObjectID_Size s) (oid_hash s)) p"

definition ObjectID_IsZero :: "ObjectID \<Rightarrow> bool" where
  "ObjectID_IsZero s \<longleftrightarrow> oid_hash s = empty_hash"

definition ObjectID_String :: "ObjectID \<Rightarrow> string" where
  "ObjectID_String s = hexEncode (take (ObjectID_Size s) (oid_hash s))"

definition ObjectID_ReadFrom :: "ObjectID \<Rightarrow> reader \<Rightarrow> (ObjectID \<times> reader) result" where
  "ObjectID_ReadFrom s r =
     (case readFull (ObjectID_Size s) r of
        Ok (v, r') \<Rightarrow> Ok (s\<lparr>oid_hash := go_copy (oid_hash s) v\<rparr>, r')
      | Error e \<Rightarrow> Error (Wrapped ''read hash from binary'' e)
      | Panic \<Rightarrow> Panic)"

definition ObjectID_WriteTo :: "ObjectID \<Rightarrow> bytes" where
  "ObjectID_WriteTo s = take (ObjectID_Size s) (oid_hash s)"

definition ObjectID_ResetBySize :: "ObjectID \<Rightarrow> nat \<Rightarrow> ObjectID" where
  "ObjectID_ResetBySize s idSize =
     (let s' = (if idSize = SHA256Size then s\<lparr>oid_format := SHA256\<rparr> else s\<lparr>oid_format := SHA1\<rparr>)
      in s'\<lparr>oid_hash := go_copy (oid_hash s') (take 0 (oid_hash s'))\<rparr>)"

definition NewHash :: "string \<Rightarrow> ObjectID" where
  "NewHash s = fst (FromHex s)"

definition HashSlice_Less :: "ObjectID list \<Rightarrow> nat \<Rightarrow> nat \<Rightarrow> bool" where
  "HashSlice_Less p i j \<longleftrightarrow> ObjectID_Compare (p ! i) (ObjectID_Bytes (p ! j)) < 0"

definition IsHash :: "string \<Rightarrow> bool" where
  "IsHash s \<longleftrightarrow>
     (if length s = SHA1HexSize \<or> length s = SHA256HexSize then hexDecode s \<noteq> None else False)"

section \<open>Object types\<close>

type_synonym ObjectType = int

definition InvalidObject :: ObjectType where "InvalidObject = 0"
definition CommitObject :: ObjectType where "CommitObject = 1"
definition TreeObject :: ObjectType where "TreeObject = 2"
definition BlobObject :: ObjectType where "BlobObject = 3"
definition TagObject :: ObjectType where "TagObject = 4"
definition OFSDeltaObject :: ObjectType where "OFSDeltaObject = 6"
definition REFDeltaObject :: ObjectType where "REFDeltaObject = 7"
definition AnyObject :: ObjectType where "AnyObject = -127"

lemmas object_types = InvalidObject_def CommitObject_def TreeObject_def BlobObject_def
  TagObject_def OFSDeltaObject_def REFDeltaObject_def AnyObject_def

definition ObjectType_String :: "ObjectType \<Rightarrow> string" where
  "ObjectType_String t =
     (if t = CommitObject then ''commit''
      else if t = TreeObject then ''tree''
      else if t = BlobObject then ''blob''
      else if t = TagObject then ''tag''
      else if t = OFSDeltaObject then ''ofs-delta''
      else if t = REFDeltaObject then ''ref-delta''
      else if t = AnyObject then ''any''
      else ''unknown'')"

definition ObjectType_Bytes :: "ObjectType \<Rightarrow> bytes" where
  "ObjectType_Bytes t = str (ObjectType_String t)"

definition ObjectType_Valid :: "ObjectType \<Rightarrow> bool" where
  "ObjectType_Valid t \<longleftrightarrow> t \<ge> CommitObject \<and> t \<le> REFDeltaObject"

definition ObjectType_IsDelta :: "ObjectType \<Rightarrow> bool" where
  "ObjectType_IsDelta t \<longleftrightarrow> t = REFDeltaObject \<or> t = OFSDeltaObject"

definition ParseObjectType :: "string \<Rightarrow> ObjectType result" where
  "ParseObjectType value =
     (if value = ''commit'' then Ok CommitObject
      else if value = ''tree'' then Ok TreeObject
      else if value = ''blob'' then Ok BlobObject
      else if value = ''tag'' then Ok TagObject
      else if value = ''ofs-delta'' then Ok OFSDeltaObject
      else if value = ''ref-delta'' then Ok REFDeltaObject
      else Error (Sentinel ''ErrInvalidType''))"

section \<open>Hashers\<close>

text \<open>A running digest is the bytes written since its last reset.\<close>

type_synonym digest = "ObjectFormat \<Rightarrow> bytes \<Rightarrow> bytes"

definition hash_header :: "ObjectType \<Rightarrow> int \<Rightarrow> bytes" where
  "hash_header t sz = ObjectType_Bytes t @ str '' '' @ str (FormatInt sz) @ [0]"

record Hasher =
  hr_alg :: ObjectFormat
  hr_buf :: bytes
  hr_format :: ObjectFormat

definition Hasher_Reset :: "Hasher \<Rightarrow> ObjectType \<Rightarrow> int \<Rightarrow> Hasher" where
  "Hasher_Reset h t sz = h\<lparr>hr_buf := hash_header t sz\<rparr>"

definition NewHasher :: "ObjectFormat \<Rightarrow> ObjectType \<Rightarrow> int \<Rightarrow> Hasher" where
  "NewHasher f t sz =
     Hasher_Reset \<lparr>hr_alg = (if f = SHA256 then SHA256 else SHA1), hr_buf = [], hr_format = f\<rparr> t sz"

definition Hasher_Write :: "Hasher \<Rightarrow> bytes \<Rightarrow> Hasher" where
  "Hasher_Write h p = h\<lparr>hr_buf := hr_buf h @ p\<rparr>"

definition Hasher_Sum :: "digest \<Rightarrow> Hasher \<Rightarrow> ObjectID" where
  "Hasher_Sum sha h = ObjectID_Write (ZeroHash\<lparr>oid_format := hr_format h\<rparr>) (sha (hr_alg h) (hr_buf h))"

record ObjectHasher =
  oh_alg :: ObjectFormat
  oh_buf :: bytes
  oh_format :: ObjectFormat

definition newHasher :: "ObjectFormat \<Rightarrow> ObjectHasher result" where
  "newHasher f =
     (case f of
        OtherFormat _ \<Rightarrow> Error (Sentinel ''unsupported object format'')
      | _ \<Rightarrow> Ok \<lparr>oh_alg = f, oh_buf = [], oh_format = f\<rparr>)"

definition FromObjectFormat :: "ObjectFormat \<Rightarrow> ObjectHasher result" where
  "FromObjectFormat f =
     (case f of
        OtherFormat _ \<Rightarrow> Error (Sentinel ''ErrInvalidObjectFormat'')
      | _ \<Rightarrow> newHasher f)"

definition FromHash :: "nat \<Rightarrow> ObjectHasher result" where
  "FromHash sz =
     (if sz = SHA1Size then newHasher SHA1
      else if sz = SHA256Size then newHasher SHA256
      else Error (Sentinel ''unsupported hash function''))"

definition ObjectHasher_Write :: "ObjectHasher \<Rightarrow> bytes \<Rightarrow> ObjectHasher" where
  "ObjectHasher_Write h p = h\<lparr>oh_buf := oh_buf h @ p\<rparr>"

definition ObjectHasher_Compute :: "digest \<Rightarrow> ObjectHasher \<Rightarrow> ObjectType \<Rightarrow> bytes \<Rightarrow> ObjectID \<times> ObjectHasher" where
  "ObjectHasher_Compute sha h ot d =
     (let h0 = h\<lparr>oh_buf := []\<rparr>;
          out = ZeroHash\<lparr>oid_format := oh_format h\<rparr>;
          h1 = ObjectHasher_Write h0 (hash_header ot (int (length d)));
          h2 = ObjectHasher_Write h1 d
      in (out\<lparr>oid_hash := go_copy (oid_hash out) (sha (oh_alg h2) (oh_buf h2))\<rparr>, h2))"

definition ComputeHash :: "digest \<Rightarrow> ObjectType \<Rightarrow> bytes \<Rightarrow> ObjectID" where
  "ComputeHash sha t content =
     (case newHasher SHA1 of
        Ok ha \<Rightarrow> fst (ObjectHasher_Compute sha ha t content)
      | _ \<Rightarrow> ZeroHash)"

section \<open>Objects in memory\<close>

record MemoryObject =
  mo_t :: ObjectType
  mo_h :: ObjectID
  mo_cont :: bytes
  mo_sz :: int

definition newMemoryObject :: MemoryObject where
  "newMemoryObject = \<lparr>mo_t = InvalidObject, mo_h = ZeroHash, mo_cont = [], mo_sz = 0\<rparr>"

definition MemoryObject_Hash :: "digest \<Rightarrow> MemoryObject \<Rightarrow> ObjectID \<times> MemoryObject" where
  "MemoryObject_Hash sha ob =
     (let o1 = (if ObjectID_IsZero (mo_h ob) \<and> int (length (mo_cont ob)) = mo_sz ob
                then ob\<lparr>mo_h := ComputeHash sha (mo_t ob) (mo_cont ob)\<rparr> else ob)
      in if ObjectID_IsZero (mo_h o1) then (ZeroHash, o1) else (mo_h o1, o1))"

definition MemoryObject_SetType :: "MemoryObject \<Rightarrow> ObjectType \<Rightarrow> MemoryObject" where
  "MemoryObject_SetType ob t = ob\<lparr>mo_t := t\<rparr>"

definition MemoryObject_SetSize :: "MemoryObject \<Rightarrow> int \<Rightarrow> MemoryObject" where
  "MemoryObject_SetSize ob s = ob\<lparr>mo_sz := s\<rparr>"

definition MemoryObject_Reader :: "MemoryObject \<Rightarrow> reader" where
  "MemoryObject_Reader ob = mo_cont ob"

definition MemoryObject_Write :: "MemoryObject \<Rightarrow> bytes \<Rightarrow> MemoryObject" where
  "MemoryObject_Write ob p =
     (let cont = mo_cont ob @ p in ob\<lparr>mo_cont := cont, mo_sz := int (length cont)\<rparr>)"

section \<open>Well-formed ids\<close>

text \<open>An id holds 32 bytes, and past the digest of its format they are zero.\<close>

definition wf_oid :: "ObjectID \<Rightarrow> bool" where
  "wf_oid s \<longleftrightarrow>
     length (oid_hash s) = SHA256Size \<and>
     (oid_format s = SHA1 \<and> drop SHA1Size (oid_hash s) = replicate (SHA256Size - SHA1Size) 0 \<or>
      oid_format s = SHA256)"

lemma length_go_copy [simp]: "length (go_copy dst src) = length dst"
  by (simp add: go_copy_def)

lemma wf_ZeroHash [simp]: "wf_oid ZeroHash"
  by (simp add: wf_oid_def ZeroHash_def empty_hash_def)

lemma go_copy_all: "length src = length dst \<Longrightarrow> go_copy dst src = src"
  by (simp add: go_copy_def)

lemma go_copy_Nil [simp]: "go_copy dst [] = dst"
  by (simp add: go_copy_def)

lemma wf_oid_write_sha1:
  "length bs = SHA1Size \<Longrightarrow> wf_oid (ObjectID_Write ZeroHash bs)"
  by (simp add: wf_oid_def ObjectID_Write_def ZeroHash_def empty_hash_def go_copy_def format_sizes)

lemma wf_oid_write_sha256:
  "length bs = SHA256Size \<Longrightarrow> wf_oid (ObjectID_Write (ZeroHash\<lparr>oid_format := SHA256\<rparr>) bs)"
  by (simp add: wf_oid_def ObjectID_Write_def ZeroHash_def empty_hash_def go_copy_def)

lemma ObjectID_Write_Bytes_sha1:
  assumes "wf_oid s" and "oid_format s = SHA1"
  shows "ObjectID_Write ZeroHash (ObjectID_Bytes s) = s"
proof -
  have "replicate (SHA256Size - SHA1Size) 0 = drop SHA1Size (oid_hash s)"
    using assms by (auto simp: wf_oid_def)
  moreover have "length (take SHA1Size (oid_hash s)) = SHA1Size"
    using assms(1) by (simp add: wf_oid_def format_sizes)
  ultimately have "go_copy empty_hash (take SHA1Size (oid_hash s)) = oid_hash s"
    by (simp add: go_copy_def empty_hash_def format_sizes)
  then show ?thesis
    using assms(2) by (simp add: ObjectID_Write_def ObjectID_Bytes_def ObjectID_Size_def ZeroHash_def)
qed

lemma ObjectID_Write_Bytes_sha256:
  assumes "wf_oid s" and "oid_format s = SHA256"
  shows "ObjectID_Write (ZeroHash\<lparr>oid_format := SHA256\<rparr>) (ObjectID_Bytes s) = s"
  using assms
  by (simp add: ObjectID_Write_def ObjectID_Bytes_def ObjectID_Size_def ZeroHash_def wf_oid_def
      empty_hash_def go_copy_def)

lemma length_ObjectID_Bytes: "wf_oid s \<Longrightarrow> length (ObjectID_Bytes s) = ObjectID_Size s"
  by (auto simp: wf_oid_def ObjectID_Bytes_def ObjectID_Size_def format_sizes)

lemma ObjectID_text:
  assumes "wf_oid s"
  shows "FromHex (ObjectID_String s) = (s, True) \<and> FromBytes (ObjectID_Bytes s) = (s, True) \<and>
    IsHash (ObjectID_String s)"
proof -
  have hex: "ObjectID_String s = hexEncode (ObjectID_Bytes s)"
    by (simp add: ObjectID_String_def ObjectID_Bytes_def)
  consider (sha1) "oid_format s = SHA1" | (sha256) "oid_format s = SHA256"
    using assms by (auto simp: wf_oid_def)
  then show ?thesis
  proof cases
    case sha1
    then have "length (ObjectID_Bytes s) = SHA1Size"
      using length_ObjectID_Bytes [OF assms] by (simp add: ObjectID_Size_def)
    with ObjectID_Write_Bytes_sha1 [OF assms sha1] show ?thesis
      by (simp add: FromHex_def FromBytes_def IsHash_def hex ZeroHash_def format_sizes)
  next
    case sha256
    then have "length (ObjectID_Bytes s) = SHA256Size"
      using length_ObjectID_Bytes [OF assms] by (simp add: ObjectID_Size_def)
    with ObjectID_Write_Bytes_sha256 [OF assms sha256] show ?thesis
      by (simp add: FromHex_def FromBytes_def IsHash_def hex ZeroHash_def format_sizes)
  qed
qed

text \<open>
  C8. An id read back from its hexadecimal text, or from its bytes, is the same id, for both
  object formats; the text of an id is a hash in the sense of \<^verbatim>\<open>IsHash\<close>.
\<close>

theorem ObjectID_text_roundtrip:
  assumes "wf_oid s"
  shows "FromHex (ObjectID_String s) = (s, True) \<and> FromBytes (ObjectID_Bytes s) = (s, True) \<and>
    IsHash (ObjectID_String s)"
  using assms by (rule ObjectID_text)

theorem ObjectID_text_roundtrip_witness:
  "wf_oid (ZeroHash\<lparr>oid_hash := 171 # replicate 31 0\<rparr>) \<and>
   FromHex (ObjectID_String (ZeroHash\<lparr>oid_hash := 171 # replicate 31 0\<rparr>)) =
     (ZeroHash\<lparr>oid_hash := 171 # replicate 31 0\<rparr>, True)"
proof -
  have wf: "wf_oid (ZeroHash\<lparr>oid_hash := 171 # replicate 31 0\<rparr>)" by code_simp
  then show ?thesis using ObjectID_text_roundtrip [OF wf] by simp
qed

lemma IsHash_FromHex: "IsHash s \<Longrightarrow> snd (FromHex s) \<and> wf_oid (fst (FromHex s))"
proof -
  assume h: "IsHash s"
  then obtain out where out: "hexDecode s = Some out" by (auto simp: IsHash_def split: if_splits)
  from h have "length s = SHA1HexSize \<or> length s = SHA256HexSize"
    by (auto simp: IsHash_def split: if_splits)
  then have "length out = SHA1Size \<and> length s = SHA1HexSize \<or>
      length out = SHA256Size \<and> length s = SHA256HexSize"
    using hexDecode_length [OF out] by (auto simp: format_sizes)
  then show ?thesis using out wf_oid_write_sha1 [of out] wf_oid_write_sha256 [of out]
    by (auto simp: FromHex_def Let_def format_sizes)
qed

section \<open>The hashers agree\<close>

lemma Hasher_Write_append: "Hasher_Write (Hasher_Write h p) q = Hasher_Write h (p @ q)"
  by (simp add: Hasher_Write_def)

lemma ObjectHasher_Compute_id:
  "fst (ObjectHasher_Compute sha h t d) =
     ObjectID_Write (ZeroHash\<lparr>oid_format := oh_format h\<rparr>)
       (sha (oh_alg h) (hash_header t (int (length d)) @ d))"
  by (simp add: ObjectHasher_Compute_def ObjectHasher_Write_def ObjectID_Write_def Let_def)

lemma Hasher_Sum_id:
  "Hasher_Sum sha (Hasher_Write (NewHasher f t n) d) =
     ObjectID_Write (ZeroHash\<lparr>oid_format := f\<rparr>)
       (sha (if f = SHA256 then SHA256 else SHA1) (hash_header t n @ d))"
  by (simp add: Hasher_Sum_def Hasher_Write_def NewHasher_def Hasher_Reset_def)

text \<open>
  The streaming hasher that is told an object's type and size and then fed the content in any
  number of pieces yields the id that the one-shot hasher computes, whatever was hashed with the
  one-shot hasher before.
\<close>

theorem Hasher_eq_ObjectHasher:
  assumes "newHasher f = Ok h"
  shows "Hasher_Sum sha (foldl Hasher_Write (NewHasher f t (int (length (concat ps)))) ps) =
     fst (ObjectHasher_Compute sha (snd (ObjectHasher_Compute sha h t' d')) t (concat ps))"
proof -
  have fold: "foldl Hasher_Write h' ps = Hasher_Write h' (concat ps)" for h'
  proof (induction ps arbitrary: h')
    case Nil
    then show ?case by (simp add: Hasher_Write_def)
  next
    case (Cons p ps)
    then show ?case by (simp add: Hasher_Write_append)
  qed
  have alg: "oh_alg (snd (ObjectHasher_Compute sha h t' d')) = oh_alg h"
    "oh_format (snd (ObjectHasher_Compute sha h t' d')) = oh_format h"
    by (simp_all add: ObjectHasher_Compute_def ObjectHasher_Write_def Let_def)
  have "f = SHA1 \<or> f = SHA256" "oh_alg h = f" "oh_format h = f"
    using assms by (auto simp: newHasher_def split: ObjectFormat.splits)
  then show ?thesis
    unfolding fold by (auto simp: Hasher_Sum_id ObjectHasher_Compute_id alg)
qed

text \<open>A stand-in digest for evaluation: the number of bytes hashed, padded to a digest of the right length.\<close>

definition toy_sha :: digest where
  "toy_sha f bs = word_of_nat (1 + length bs) # replicate (ObjectFormat_Size f - 1) 7"

theorem Hasher_eq_ObjectHasher_witness:
  "newHasher SHA256 = Ok \<lparr>oh_alg = SHA256, oh_buf = [], oh_format = SHA256\<rparr> \<and>
   Hasher_Sum toy_sha (foldl Hasher_Write (NewHasher SHA256 BlobObject (int (length (concat [[1 :: byte], [2, 3]])))) [[1], [2, 3]]) =
   fst (ObjectHasher_Compute toy_sha
     (snd (ObjectHasher_Compute toy_sha \<lparr>oh_alg = SHA256, oh_buf = [], oh_format = SHA256\<rparr> TreeObject [9]))
     BlobObject (concat [[1], [2, 3]]))"
proof -
  have h: "newHasher SHA256 = Ok \<lparr>oh_alg = SHA256, oh_buf = [], oh_format = SHA256\<rparr>"
    by (simp add: newHasher_def)
  then show ?thesis by (intro conjI Hasher_eq_ObjectHasher)
qed

section \<open>Objects in memory\<close>

lemma MemoryObject_Write_fold:
  "int (length (mo_cont ob)) = mo_sz ob \<Longrightarrow>
   foldl MemoryObject_Write ob ps =
     ob\<lparr>mo_cont := mo_cont ob @ concat ps, mo_sz := int (length (mo_cont ob @ concat ps))\<rparr>"
  by (induction ps arbitrary: ob) (auto simp: MemoryObject_Write_def Let_def)

lemma MemoryObject_Hash_cached:
  "\<not> ObjectID_IsZero (mo_h ob) \<Longrightarrow> MemoryObject_Hash sha ob = (mo_h ob, ob)"
  by (simp add: MemoryObject_Hash_def)

text \<open>
  An object built in memory by writing its content in pieces hashes to the id of that content
  and type, and once asked for its id it keeps answering that id whatever is written to it or set
  on it afterwards.
\<close>

theorem MemoryObject_Hash_stable:
  assumes "ob = MemoryObject_SetType (foldl MemoryObject_Write newMemoryObject ps) t"
    and "\<not> ObjectID_IsZero (ComputeHash sha t (concat ps))"
    and "MemoryObject_Hash sha ob = (h, ob')"
  shows "h = ComputeHash sha t (concat ps) \<and> MemoryObject_Reader ob' = concat ps \<and>
    fst (MemoryObject_Hash sha (MemoryObject_SetSize (MemoryObject_SetType (MemoryObject_Write ob' q) t') n)) = h"
proof -
  have ob: "ob = \<lparr>mo_t = t, mo_h = ZeroHash, mo_cont = concat ps, mo_sz = int (length (concat ps))\<rparr>"
    using assms(1) MemoryObject_Write_fold [of newMemoryObject ps]
    by (simp add: newMemoryObject_def MemoryObject_SetType_def)
  have "ObjectID_IsZero ZeroHash" by (simp add: ObjectID_IsZero_def ZeroHash_def)
  then have h: "h = ComputeHash sha t (concat ps)" and ob': "ob' = ob\<lparr>mo_h := h\<rparr>"
    using assms(2,3) by (auto simp: MemoryObject_Hash_def ob Let_def)
  then show ?thesis
    using assms(2)
    by (simp add: ob MemoryObject_Reader_def MemoryObject_Hash_cached MemoryObject_SetSize_def
        MemoryObject_SetType_def MemoryObject_Write_def Let_def)
qed

theorem MemoryObject_Hash_stable_witness:
  "\<exists>h ob'. MemoryObject_Hash toy_sha
     (MemoryObject_SetType (foldl MemoryObject_Write newMemoryObject [[1, 2], [3]]) BlobObject) = (h, ob') \<and>
     h = ComputeHash toy_sha BlobObject (concat [[1, 2], [3]]) \<and>
     fst (MemoryObject_Hash toy_sha (MemoryObject_SetSize (MemoryObject_SetType (MemoryObject_Write ob' [8]) TagObject) 0)) = h"
proof -
  let ?ob = "MemoryObject_SetType (foldl MemoryObject_Write newMemoryObject [[1, 2], [3]]) BlobObject"
  obtain h ob' where eq: "MemoryObject_Hash toy_sha ?ob = (h, ob')" by fastforce
  have "\<not> ObjectID_IsZero (ComputeHash toy_sha BlobObject (concat [[1, 2], [3]]))" by code_simp
  from MemoryObject_Hash_stable [OF refl this eq, of "[8]" TagObject 0] eq show ?thesis by blast
qed

text \<open>
  \<^verbatim>\<open>ObjectID.ResetBySize\<close> sets the object format but leaves the bytes of the previous id in
  place, although its comment promises that it resets the id.
\<close>

theorem ObjectID_ResetBySize_keeps_hash:
  "oid_hash (ObjectID_ResetBySize s n) = oid_hash s \<and>
   oid_format (ObjectID_ResetBySize s n) = (if n = SHA256Size then SHA256 else SHA1)"
  by (simp add: ObjectID_ResetBySize_def Let_def)

lemma ParseObjectType_String:
  "ParseObjectType (ObjectType_String t) = Ok t'\<Longrightarrow> t = t'"
  by (auto simp: ParseObjectType_def ObjectType_String_def split: if_splits)

lemma ObjectType_String_parses:
  "ObjectType_Valid t \<Longrightarrow> t \<noteq> 5 \<Longrightarrow> ParseObjectType (ObjectType_String t) = Ok t"
  by (auto simp: ParseObjectType_def ObjectType_String_def ObjectType_Valid_def object_types)

section \<open>Ids of the first format\<close>

definition sha1_id :: "ObjectID \<Rightarrow> bool" where
  "sha1_id h \<longleftrightarrow> wf_oid h \<and> oid_format h = SHA1"

lemma sha1_id_text:
  assumes "sha1_id h"
  shows "length (ObjectID_String h) = 40" and "FromHex (ObjectID_String h) = (h, True)"
proof -
  have "length (oid_hash h) = 32" using assms by (simp add: sha1_id_def wf_oid_def SHA256Size_def)
  then show "length (ObjectID_String h) = 40"
    using assms by (simp add: sha1_id_def ObjectID_String_def length_hexEncode ObjectID_Size_def SHA1Size_def)
  show "FromHex (ObjectID_String h) = (h, True)" using assms ObjectID_text by (simp add: sha1_id_def)
qed

lemma sha1_id_ZeroHash: "sha1_id ZeroHash"
  using wf_ZeroHash by (simp add: sha1_id_def) (simp add: ZeroHash_def)

lemma NewHash_text: "sha1_id h \<Longrightarrow> NewHash (ObjectID_String h) = h"
  using sha1_id_text(2) [of h] by (simp add: NewHash_def)

lemma hash_bytes: "x \<in> set (str (ObjectID_String h)) \<Longrightarrow> 48 \<le> unat x \<and> unat x \<le> 102 \<and> unat x \<noteq> 69"
  using hexEncode_char by (auto simp: set_str ObjectID_String_def)

lemma no_space_in_hash: "32 \<notin> set (str (ObjectID_String h))"
  using hash_bytes [of 32 h] by auto

lemma sha1_IsZero: "sha1_id h \<Longrightarrow> ObjectID_IsZero h \<longleftrightarrow> h = ZeroHash"
  by (cases h) (auto simp: sha1_id_def ObjectID_IsZero_def ZeroHash_def)

end
