(* ===== verification/PatchDelta.thy ===== *)
theory PatchDelta
  imports BinaryIO ObjectId
begin

text \<open>
  Applying a delta: \<^verbatim>\<open>plumbing/format/packfile/patch_delta.go\<close>. Go's \<open>uint\<close> is a 64-bit word,
  because the size checks of the sources wrap around. Three routines apply a delta: \<open>patchDelta\<close>
  over byte slices, \<open>patchDeltaWriter\<close> over streams with a running hash, and \<open>ReaderFromDelta\<close>
  through a pipe.
\<close>

section \<open>Errors and constants\<close>

abbreviation ErrInvalidDelta :: error where
  "ErrInvalidDelta \<equiv> Sentinel ''ErrInvalidDelta''"

abbreviation ErrDeltaCmd :: error where
  "ErrDeltaCmd \<equiv> Sentinel ''ErrDeltaCmd''"

abbreviation (input) payload :: u64 where "payload \<equiv> 127"
abbreviation (input) continuation :: byte where "continuation \<equiv> 128"

definition minDeltaSize :: nat where "minDeltaSize = 4"
definition minCopySize :: nat where "minCopySize = 4"
definition maxCopySize :: nat where "maxCopySize = 64 * 1024"

text \<open>The masks and shifts of the optional offset and size bytes of a copy command.\<close>

definition offsets :: "(byte \<times> nat) list" where
  "offsets = [(1, 0), (2, 8), (4, 16), (8, 24)]"

definition sizes :: "(byte \<times> nat) list" where
  "sizes = [(16, 0), (32, 8), (64, 16)]"

section \<open>Numbers of the delta format\<close>

fun decodeLEB128_loop :: "u64 \<Rightarrow> nat \<Rightarrow> bytes \<Rightarrow> u64 \<times> bytes" where
  "decodeLEB128_loop num sz [] = (num, [])"
| "decodeLEB128_loop num sz (b # input) =
     (let num' = num OR push_bit (sz * 7) (ucast b AND payload)
      in if b AND continuation = 0 \<or> input = [] then (num', input)
         else decodeLEB128_loop num' (sz + 1) input)"

definition decodeLEB128 :: "bytes \<Rightarrow> u64 \<times> bytes" where
  "decodeLEB128 input = (if input = [] then (0, input) else decodeLEB128_loop 0 0 input)"

fun decodeLEB128ByteReader_loop :: "u64 \<Rightarrow> nat \<Rightarrow> reader \<Rightarrow> (u64 \<times> reader) result" where
  "decodeLEB128ByteReader_loop num sz [] = Error EOF"
| "decodeLEB128ByteReader_loop num sz (b # input) =
     (let num' = num OR push_bit (sz * 7) (ucast b AND payload)
      in if b AND continuation = 0 then Ok (num', input)
         else decodeLEB128ByteReader_loop num' (sz + 1) input)"

definition decodeLEB128ByteReader :: "reader \<Rightarrow> (u64 \<times> reader) result" where
  "decodeLEB128ByteReader input = decodeLEB128ByteReader_loop 0 0 input"

section \<open>Commands\<close>

definition isCopyFromSrc :: "byte \<Rightarrow> bool" where
  "isCopyFromSrc cmd \<longleftrightarrow> cmd AND continuation \<noteq> 0"

definition isCopyFromDelta :: "byte \<Rightarrow> bool" where
  "isCopyFromDelta cmd \<longleftrightarrow> cmd AND continuation = 0 \<and> cmd \<noteq> 0"

text \<open>
  The loop of the four decoders of a copy command's operands. A byte is present when its mask is
  set in the command; the slice decoders report the end of the input as \<open>ErrInvalidDelta\<close>, the
  reader ones as the reader's \<open>EOF\<close>.
\<close>

fun decodeMasked :: "error \<Rightarrow> (byte \<times> nat) list \<Rightarrow> byte \<Rightarrow> u64 \<Rightarrow> bytes \<Rightarrow> (u64 \<times> bytes) result" where
  "decodeMasked e [] cmd v delta = Ok (v, delta)"
| "decodeMasked e ((m, shift) # ms) cmd v delta =
     (if cmd AND m \<noteq> 0
      then (case delta of
              [] \<Rightarrow> Error e
            | b # delta' \<Rightarrow> decodeMasked e ms cmd (v OR push_bit shift (ucast b)) delta')
      else decodeMasked e ms cmd v delta)"

definition decodeOffset :: "byte \<Rightarrow> bytes \<Rightarrow> (u64 \<times> bytes) result" where
  "decodeOffset cmd delta = decodeMasked ErrInvalidDelta offsets cmd 0 delta"

definition decodeOffsetByteReader :: "byte \<Rightarrow> reader \<Rightarrow> (u64 \<times> reader) result" where
  "decodeOffsetByteReader cmd delta = decodeMasked EOF offsets cmd 0 delta"

definition decodeSize :: "byte \<Rightarrow> bytes \<Rightarrow> (u64 \<times> bytes) result" where
  "decodeSize cmd delta =
     rbind (decodeMasked ErrInvalidDelta sizes cmd 0 delta)
       (\<lambda>(sz, delta'). Ok (if sz = 0 then word_of_nat maxCopySize else sz, delta'))"

definition decodeSizeByteReader :: "byte \<Rightarrow> reader \<Rightarrow> (u64 \<times> reader) result" where
  "decodeSizeByteReader cmd delta =
     rbind (decodeMasked EOF sizes cmd 0 delta)
       (\<lambda>(sz, delta'). Ok (if sz = 0 then word_of_nat maxCopySize else sz, delta'))"

definition sumOverflows :: "u64 \<Rightarrow> u64 \<Rightarrow> bool" where
  "sumOverflows a b \<longleftrightarrow> a + b < a"

definition invalidSize :: "u64 \<Rightarrow> u64 \<Rightarrow> bool" where
  "invalidSize sz targetSz \<longleftrightarrow> sz > targetSz"

definition invalidOffsetSize :: "u64 \<Rightarrow> u64 \<Rightarrow> u64 \<Rightarrow> bool" where
  "invalidOffsetSize offset sz srcSz \<longleftrightarrow> sumOverflows offset sz \<or> offset + sz > srcSz"

section \<open>Applying a delta held in memory\<close>

text \<open>
  One turn of the loop of \<^verbatim>\<open>patchDelta\<close>: from the delta that is left, the size that is left to
  write and the bytes written so far to the next such triple. An invalid copy command only leaves
  Go's \<^verbatim>\<open>switch\<close> (\<^verbatim>\<open>break\<close>), so the loop goes on with the command's operands consumed.
\<close>

fun patchDelta_step ::
    "bytes \<Rightarrow> u64 \<Rightarrow> u64 \<Rightarrow> bytes \<Rightarrow> u64 \<Rightarrow> bytes \<Rightarrow> (bytes \<times> u64 \<times> bytes) result" where
  "patchDelta_step src srcSz targetSz [] remaining dst = Error ErrInvalidDelta"
| "patchDelta_step src srcSz targetSz (cmd # delta) remaining dst =
     (if isCopyFromSrc cmd then
        rbind (decodeOffset cmd delta) (\<lambda>(offset, delta).
        rbind (decodeSize cmd delta) (\<lambda>(sz, delta).
          if invalidSize sz targetSz \<or> invalidOffsetSize offset sz srcSz
          then Ok (delta, remaining, dst)
          else rbind (slice src (unat offset) (unat (offset + sz))) (\<lambda>chunk.
                 Ok (delta, remaining - sz, dst @ chunk))))
      else if isCopyFromDelta cmd then
        (let sz = ucast cmd
         in if invalidSize sz targetSz then Error ErrInvalidDelta
            else if word_of_nat (length delta) < sz then Error ErrInvalidDelta
            else rbind (slice delta 0 (unat sz)) (\<lambda>chunk.
                   Ok (drop (unat sz) delta, remaining - sz, dst @ chunk)))
      else Error ErrDeltaCmd)"

lemma decodeMasked_shrinks [shrinks]:
  "decodeMasked e ms cmd v delta = Ok (w, delta') \<Longrightarrow> length delta' \<le> length delta"
  by (induction e ms cmd v delta rule: decodeMasked.induct)
    (auto split: if_splits list.splits)

lemma decodeOffset_shrinks [shrinks]:
  "decodeOffset cmd delta = Ok (v, delta') \<Longrightarrow> length delta' \<le> length delta"
  by (auto simp: decodeOffset_def dest: decodeMasked_shrinks)

lemma decodeSize_shrinks [shrinks]:
  "decodeSize cmd delta = Ok (v, delta') \<Longrightarrow> length delta' \<le> length delta"
  by (auto simp: decodeSize_def dest: decodeMasked_shrinks)

lemma patchDelta_step_shrinks [shrinks]:
  "patchDelta_step src srcSz targetSz delta remaining dst = Ok (delta', remaining', dst') \<Longrightarrow>
     length delta' < length delta"
  by (cases delta)
    (auto simp: Let_def split: if_splits dest!: decodeOffset_shrinks decodeSize_shrinks)

function patchDelta_loop :: "bytes \<Rightarrow> u64 \<Rightarrow> u64 \<Rightarrow> bytes \<Rightarrow> u64 \<Rightarrow> bytes \<Rightarrow> bytes result" where
  "patchDelta_loop src srcSz targetSz delta remaining dst =
     rbind (patchDelta_step src srcSz targetSz delta remaining dst)
       (\<lambda>(delta', remaining', dst').
          if remaining' \<le> 0 then Ok dst'
          else patchDelta_loop src srcSz targetSz delta' remaining' dst')"
  by pat_completeness auto
termination
  by (relation "measure (\<lambda>(src, srcSz, targetSz, delta, remaining, dst). length delta)")
    (auto dest: patchDelta_step_shrinks)

definition patchDelta :: "bytes \<Rightarrow> bytes \<Rightarrow> bytes \<Rightarrow> bytes result" where
  "patchDelta dst src delta =
     (if length delta < minCopySize then Error ErrInvalidDelta
      else let (srcSz, delta1) = decodeLEB128 delta
           in if srcSz \<noteq> word_of_nat (length src) then Error ErrInvalidDelta
              else let (targetSz, delta2) = decodeLEB128 delta1
                   in patchDelta_loop src srcSz targetSz delta2 targetSz dst)"

definition PatchDelta :: "bytes \<Rightarrow> bytes \<Rightarrow> bytes result" where
  "PatchDelta src delta =
     (if length src = 0 \<or> length delta < minDeltaSize then Error ErrInvalidDelta
      else patchDelta [] src delta)"

declare patchDelta_loop.simps [simp del]

section \<open>Facts about the decoders\<close>

lemma decodeMasked_no_panic [no_panic, simp]: "decodeMasked e ms cmd v delta \<noteq> Panic"
  by (induction e ms cmd v delta rule: decodeMasked.induct) (auto split: list.split)

lemma decodeOffset_no_panic [no_panic, simp]: "decodeOffset cmd delta \<noteq> Panic"
  by (simp add: decodeOffset_def)

lemma decodeSize_no_panic [no_panic, simp]: "decodeSize cmd delta \<noteq> Panic"
  by (auto simp: decodeSize_def)

lemma decodeLEB128_loop_shrinks [shrinks]:
  "decodeLEB128_loop num sz input = (n, rest) \<Longrightarrow> length rest \<le> length input"
  by (induction input arbitrary: num sz) (fastforce simp: Let_def split: if_splits)+

lemma decodeLEB128_shrinks [shrinks]:
  "decodeLEB128 input = (n, rest) \<Longrightarrow> length rest \<le> length input"
  by (auto simp: decodeLEB128_def split: if_splits dest: decodeLEB128_loop_shrinks)

text \<open>A size operand has three bytes.\<close>

lemma or_less_exp: "unat (a::u64) < 2 ^ n \<Longrightarrow> unat b < 2 ^ n \<Longrightarrow> unat (a OR b) < 2 ^ n"
  by (simp add: take_bit_nat_eq_self_iff [symmetric] unsigned_or_eq take_bit_or)

lemma unat_ucast_byte: "unat (ucast (b::byte) :: u64) = unat b"
  by (simp add: unsigned_ucast_eq take_bit_nat_eq_self order_less_le_trans [OF unat_byte_less])

lemma unat_push_bit_byte:
  assumes "m \<le> 48"
  shows "unat (push_bit m (ucast (b::byte)) :: u64) < 2 ^ (m + 8)"
proof -
  have "unat b * 2 ^ m < 2 ^ 8 * 2 ^ m" using unat_byte_less [of b] by simp
  also have "\<dots> = (2::nat) ^ (m + 8)" by (simp add: power_add)
  finally have less: "unat b * 2 ^ m < 2 ^ (m + 8)" .
  also have "\<dots> \<le> (2::nat) ^ 64" using assms by (intro power_increasing) simp_all
  finally have "unat b * 2 ^ m < 2 ^ 64" .
  moreover have "push_bit m (ucast b :: u64) = word_of_nat (unat b * 2 ^ m)"
    using push_bit_word_of_nat [of m "unat b"] by simp
  ultimately show ?thesis using less
    by (simp only: unat_u64_of_nat)
qed

lemma decodeMasked_less:
  assumes "decodeMasked e ms cmd v delta = Ok (w, delta')" and "unat v < 2 ^ n"
    and "\<forall>(m, s) \<in> set ms. s + 8 \<le> n \<and> s \<le> 48"
  shows "unat w < 2 ^ n"
  using assms
proof (induction e ms cmd v delta rule: decodeMasked.induct)
  case (2 e m shift ms cmd v delta)
  have "unat (push_bit shift (ucast b) :: u64) < 2 ^ n" for b :: byte
  proof -
    have "(2::nat) ^ (shift + 8) \<le> 2 ^ n" using 2 by (intro power_increasing) auto
    moreover have "unat (push_bit shift (ucast b) :: u64) < 2 ^ (shift + 8)"
      using 2 by (intro unat_push_bit_byte) auto
    ultimately show ?thesis by (rule order_less_le_trans [rotated])
  qed
  then show ?case using 2 by (auto split: if_splits list.splits intro: or_less_exp)
qed simp

lemma decodeSize_bounds:
  assumes "decodeSize cmd delta = Ok (sz, delta')"
  shows "0 < unat sz \<and> unat sz < 2 ^ 24"
proof -
  from assms obtain v where v: "decodeMasked ErrInvalidDelta sizes cmd 0 delta = Ok (v, delta')"
    and sz: "sz = (if v = 0 then word_of_nat maxCopySize else v)"
    by (auto simp: decodeSize_def)
  have "unat v < 2 ^ 24"
    using v by (rule decodeMasked_less) (simp_all add: sizes_def)
  then show ?thesis unfolding sz by (simp add: maxCopySize_def unat_gt_0)
qed

section \<open>Memory safety and the size of the result\<close>

text \<open>A copy that passes the checks lies inside the source.\<close>

lemma copy_in_range:
  assumes "\<not> invalidOffsetSize offset sz (word_of_nat n)" and "n < 2 ^ 64"
  shows "unat offset \<le> unat (offset + sz)" and "unat (offset + sz) \<le> n"
    and "unat (offset + sz) - unat offset = unat sz"
proof -
  have le: "offset \<le> offset + sz" and up: "offset + sz \<le> word_of_nat n"
    using assms(1) by (auto simp: invalidOffsetSize_def sumOverflows_def)
  show "unat (offset + sz) \<le> n"
    using up assms(2) by (simp add: word_le_nat_alt unat_u64_of_nat)
  show "unat offset \<le> unat (offset + sz)"
    using le by (simp add: word_le_nat_alt)
  show "unat (offset + sz) - unat offset = unat sz"
    using le by (simp flip: unat_sub)
qed

lemma insert_in_range:
  assumes "\<not> word_of_nat (length delta) < (ucast (cmd::byte) :: u64)" and "length delta < 2 ^ 64"
  shows "unat (ucast cmd :: u64) \<le> length delta"
  using assms by (simp add: not_less word_le_nat_alt unat_u64_of_nat)

lemma patchDelta_step_no_panic [no_panic]:
  assumes "length src < 2 ^ 64" and "length delta < 2 ^ 64"
  shows "patchDelta_step src (word_of_nat (length src)) targetSz delta remaining dst \<noteq> Panic"
proof (cases delta)
  case (Cons cmd ds)
  have "slice src (unat offset) (unat (offset + sz)) \<noteq> Panic"
    if "\<not> invalidOffsetSize offset sz (word_of_nat (length src))" for offset sz
    using copy_in_range [OF that assms(1)] by simp
  moreover have "slice ds 0 (unat (ucast cmd :: u64)) \<noteq> Panic"
    if "\<not> word_of_nat (length ds) < (ucast cmd :: u64)"
    using insert_in_range [OF that] assms(2) Cons by simp
  ultimately show ?thesis using Cons by (auto simp: Let_def split: if_splits)
qed simp

lemma patchDelta_step_chunk:
  assumes step: "patchDelta_step src (word_of_nat (length src)) targetSz delta remaining dst =
      Ok (delta', remaining', dst')"
    and len: "length src < 2 ^ 64" "length delta < 2 ^ 64"
  shows "\<exists>chunk. dst' = dst @ chunk \<and> remaining' = remaining - word_of_nat (length chunk) \<and>
    length chunk < 2 ^ 24"
proof (cases delta)
  case Nil
  with step show ?thesis by simp
next
  case (Cons cmd ds)
  show ?thesis
  proof (cases "isCopyFromSrc cmd")
    case True
    with step Cons obtain offset ds1 sz ds2 where "decodeOffset cmd ds = Ok (offset, ds1)"
      and size: "decodeSize cmd ds1 = Ok (sz, ds2)"
      and rest: "(if invalidSize sz targetSz \<or> invalidOffsetSize offset sz (word_of_nat (length src))
          then Ok (ds2, remaining, dst)
          else rbind (slice src (unat offset) (unat (offset + sz))) (\<lambda>chunk.
                 Ok (ds2, remaining - sz, dst @ chunk))) = Ok (delta', remaining', dst')"
      by auto
    show ?thesis
    proof (cases "invalidSize sz targetSz \<or> invalidOffsetSize offset sz (word_of_nat (length src))")
      case True
      with rest show ?thesis by (intro exI [of _ "[]"]) simp
    next
      case False
      then have valid: "\<not> invalidOffsetSize offset sz (word_of_nat (length src))" by simp
      note range = copy_in_range [OF valid len(1)]
      let ?chunk = "take (unat sz) (drop (unat offset) src)"
      have "length ?chunk = unat sz" using range by simp
      moreover have "dst' = dst @ ?chunk" "remaining' = remaining - sz"
        using rest False range by (auto simp del: rbind_Ok_iff)
      ultimately show ?thesis
        using decodeSize_bounds [OF size] by (intro exI [of _ ?chunk]) simp
    qed
  next
    case False
    let ?chunk = "take (unat (ucast cmd :: u64)) ds"
    from step Cons False have valid: "\<not> word_of_nat (length ds) < (ucast cmd :: u64)"
      by (auto simp: Let_def split: if_splits)
    then have le: "unat (ucast cmd :: u64) \<le> length ds"
      using insert_in_range [of ds cmd] len(2) Cons by simp
    with step Cons False have "dst' = dst @ ?chunk" "remaining' = remaining - ucast cmd"
      by (auto simp: Let_def split: if_splits)
    moreover have "unat cmd < 2 ^ 24"
      by (rule order_less_trans [OF unat_byte_less]) simp
    ultimately show ?thesis using le
      by (intro exI [of _ ?chunk]) (simp add: unat_ucast_byte min_absorb2)
  qed
qed

lemma patchDelta_loop_no_panic [no_panic]:
  assumes "length src < 2 ^ 64" and "length delta < 2 ^ 64"
  shows "patchDelta_loop src (word_of_nat (length src)) targetSz delta remaining dst \<noteq> Panic"
  using assms(2)
proof (induction "length delta" arbitrary: delta remaining dst rule: less_induct)
  case less
  show ?case
  proof (subst patchDelta_loop.simps, intro notI, elim rbind_Panic_iff [THEN iffD1, THEN disjE])
    assume "patchDelta_step src (word_of_nat (length src)) targetSz delta remaining dst = Panic"
    then show False using patchDelta_step_no_panic [OF assms(1) less.prems] by simp
  next
    assume "\<exists>a. patchDelta_step src (word_of_nat (length src)) targetSz delta remaining dst = Ok a \<and>
      (case a of (delta', remaining', dst') \<Rightarrow>
         if remaining' \<le> 0 then Ok dst'
         else patchDelta_loop src (word_of_nat (length src)) targetSz delta' remaining' dst') = Panic"
    then obtain d r w where
      st: "patchDelta_step src (word_of_nat (length src)) targetSz delta remaining dst = Ok (d, r, w)"
      and "patchDelta_loop src (word_of_nat (length src)) targetSz d r w = Panic"
      by (auto split: if_splits)
    moreover have "length d < length delta" using st by (rule patchDelta_step_shrinks)
    ultimately show False using less.hyps [of d r w] less.prems by simp
  qed
qed

lemma patchDelta_loop_length:
  assumes "patchDelta_loop src (word_of_nat (length src)) targetSz delta remaining dst = Ok out"
    and "length src < 2 ^ 64" and "length delta < 2 ^ 64"
  shows "\<exists>w. out = dst @ w \<and> word_of_nat (length w) = remaining \<and> length w \<le> length delta * 2 ^ 24"
  using assms
proof (induction "length delta" arbitrary: delta remaining dst rule: less_induct)
  case less
  from less.prems(1) obtain d r v where
    st: "patchDelta_step src (word_of_nat (length src)) targetSz delta remaining dst = Ok (d, r, v)"
    and rest: "(if r \<le> 0 then Ok v
      else patchDelta_loop src (word_of_nat (length src)) targetSz d r v) = Ok out"
    by (subst (asm) patchDelta_loop.simps) auto
  obtain chunk where v: "v = dst @ chunk" and r: "r = remaining - word_of_nat (length chunk)"
    and chunk: "length chunk < 2 ^ 24"
    using patchDelta_step_chunk [OF st less.prems(2,3)] by auto
  have d: "length d < length delta" using st by (rule patchDelta_step_shrinks)
  show ?case
  proof (cases "r = 0")
    case True
    with rest v have "out = dst @ chunk" by simp
    moreover have "word_of_nat (length chunk) = remaining" using r True by simp
    moreover have "length chunk \<le> length delta * 2 ^ 24"
      using chunk d by (cases "length delta") simp_all
    ultimately show ?thesis by blast
  next
    case False
    with rest have "patchDelta_loop src (word_of_nat (length src)) targetSz d r v = Ok out"
      by simp
    then obtain w where w: "out = v @ w" "word_of_nat (length w) = r" "length w \<le> length d * 2 ^ 24"
      using less.hyps [OF d] less.prems(2,3) d by fastforce
    have "Suc (length d) * 2 ^ 24 \<le> length delta * 2 ^ 24"
      using d by (intro mult_le_mono1) simp
    then have "length (chunk @ w) \<le> length delta * 2 ^ 24"
      using w(3) chunk by simp
    moreover have "word_of_nat (length (chunk @ w)) = remaining"
      using w(2) r by simp
    ultimately show ?thesis using w(1) v by (intro exI [of _ "chunk @ w"]) simp
  qed
qed


text \<open>
  C5. No delta, well formed or hostile, makes \<^verbatim>\<open>patchDelta\<close> read or write out of bounds: it returns
  a value or an error.
\<close>

theorem patchDelta_safe:
  assumes "length src < 2 ^ 63" and "length delta < 2 ^ 63"
  shows "patchDelta dst src delta \<noteq> Panic"
proof -
  have "length d2 < 2 ^ 64"
    if "decodeLEB128 delta = (s, d1)" and "decodeLEB128 d1 = (t, d2)" for s d1 t d2
    using decodeLEB128_shrinks [OF that(1)] decodeLEB128_shrinks [OF that(2)] assms(2) by simp
  moreover have "length src < 2 ^ 64" using assms(1) by simp
  ultimately show ?thesis
    by (auto simp: patchDelta_def Let_def patchDelta_loop_no_panic split: prod.split)
qed

theorem patchDelta_safe_witness:
  "length [1, 2, 3 :: byte] < 2 ^ 63 \<and> length [3, 2, 145, 2, 9, 0 :: byte] < 2 ^ 63 \<and>
   patchDelta [] [1, 2, 3] [3, 2, 145, 2, 9, 0] \<noteq> Panic"
proof -
  have "length [1, 2, 3 :: byte] < 2 ^ 63" "length [3, 2, 145, 2, 9, 0 :: byte] < 2 ^ 63" by simp_all
  then show ?thesis using patchDelta_safe by blast
qed

text \<open>
  When \<^verbatim>\<open>patchDelta\<close> succeeds, what it appends to the destination has exactly the target size
  that the delta announces, although the individual size checks are against the whole target size
  and the running count wraps around. The delta is shorter than a terabyte.
\<close>

theorem patchDelta_target_size:
  assumes "patchDelta dst src delta = Ok out" and "length src < 2 ^ 63" and "length delta < 2 ^ 40"
  shows "\<exists>w. out = dst @ w \<and> length w = unat (fst (decodeLEB128 (snd (decodeLEB128 delta))))"
proof -
  obtain srcSz d1 where l1: "decodeLEB128 delta = (srcSz, d1)" by fastforce
  obtain targetSz d2 where l2: "decodeLEB128 d1 = (targetSz, d2)" by fastforce
  have d2: "length d2 < 2 ^ 40"
    using decodeLEB128_shrinks [OF l1] decodeLEB128_shrinks [OF l2] assms(3) by simp
  have loop: "patchDelta_loop src (word_of_nat (length src)) targetSz d2 targetSz dst = Ok out"
    using assms(1) l1 l2 by (auto simp: patchDelta_def split: if_splits)
  have "length src < 2 ^ 64" "length d2 < 2 ^ 64" using assms(2) d2 by simp_all
  from patchDelta_loop_length [OF loop this] obtain w where
    w: "out = dst @ w" "word_of_nat (length w) = targetSz" "length w \<le> length d2 * 2 ^ 24" by blast
  have "length d2 * 2 ^ 24 < 2 ^ 40 * 2 ^ 24" using d2 by simp
  then have "length w < 2 ^ 64" using w(3) by simp
  then have "unat targetSz = length w" using w(2) by (auto simp: unat_u64_of_nat)
  then show ?thesis using w(1) l1 l2 by simp
qed

theorem patchDelta_target_size_witness:
  "patchDelta [] [1, 2, 3] [3, 3, 145, 1, 2, 1, 9] = Ok [2, 3, 9] \<and>
   (\<exists>w. [2, 3, 9 :: byte] = [] @ w \<and>
     length w = unat (fst (decodeLEB128 (snd (decodeLEB128 [3, 3, 145, 1, 2, 1, 9])))))"
proof -
  have ok: "patchDelta [] [1, 2, 3] [3, 3, 145, 1, 2, 1, 9] = Ok [2, 3, 9]" by code_simp
  have "length [1, 2, 3 :: byte] < 2 ^ 63" "length [3, 3, 145, 1, 2, 1, 9 :: byte] < 2 ^ 40" by simp_all
  from ok patchDelta_target_size [OF ok this] show ?thesis by (rule conjI)
qed

end
