(* ===== verification/DeltaIndex.thy ===== *)
theory DeltaIndex
  imports PatchDelta
begin

text \<open>
  The index of source blocks that the delta encoder looks matches up in:
  \<^verbatim>\<open>plumbing/format/packfile/delta_index.go\<close>. Go's slices of \<open>int\<close> are lists of \<open>nat\<close> with the
  bounds checks of \<open>idx\<close> and \<open>upd\<close>; the block hash is computed in 32-bit words.
\<close>

definition blksz :: nat where "blksz = 16"
definition maxChainLength :: nat where "maxChainLength = 64"

section \<open>Block hash\<close>

text \<open>The hash table of the rolling polynomial, \<^verbatim>\<open>T\<close> in the sources.\<close>

definition hashT :: "u32 list" where
  "hashT =
     [0x00000000, 0xd4c6b32d, 0x7d4bd577, 0xa98d665a, 0x2e5119c3, 0xfa97aaee, 0x531accb4,
      0x87dc7f99, 0x5ca23386, 0x886480ab, 0x21e9e6f1, 0xf52f55dc, 0x72f32a45, 0xa6359968,
      0x0fb8ff32, 0xdb7e4c1f, 0x6d82d421, 0xb944670c, 0x10c90156, 0xc40fb27b, 0x43d3cde2,
      0x97157ecf, 0x3e981895, 0xea5eabb8, 0x3120e7a7, 0xe5e6548a, 0x4c6b32d0, 0x98ad81fd,
      0x1f71fe64, 0xcbb74d49, 0x623a2b13, 0xb6fc983e, 0x0fc31b6f, 0xdb05a842, 0x7288ce18,
      0xa64e7d35, 0x219202ac, 0xf554b181, 0x5cd9d7db, 0x881f64f6, 0x536128e9, 0x87a79bc4,
      0x2e2afd9e, 0xfaec4eb3, 0x7d30312a, 0xa9f68207, 0x007be45d, 0xd4bd5770, 0x6241cf4e,
      0xb6877c63, 0x1f0a1a39, 0xcbcca914, 0x4c10d68d, 0x98d665a0, 0x315b03fa, 0xe59db0d7,
      0x3ee3fcc8, 0xea254fe5, 0x43a829bf, 0x976e9a92, 0x10b2e50b, 0xc4745626, 0x6df9307c,
      0xb93f8351, 0x1f8636de, 0xcb4085f3, 0x62cde3a9, 0xb60b5084, 0x31d72f1d, 0xe5119c30,
      0x4c9cfa6a, 0x985a4947, 0x43240558, 0x97e2b675, 0x3e6fd02f, 0xeaa96302, 0x6d751c9b,
      0xb9b3afb6, 0x103ec9ec, 0xc4f87ac1, 0x7204e2ff, 0xa6c251d2, 0x0f4f3788, 0xdb8984a5,
      0x5c55fb3c, 0x88934811, 0x211e2e4b, 0xf5d89d66, 0x2ea6d179, 0xfa606254, 0x53ed040e,
      0x872bb723, 0x00f7c8ba, 0xd4317b97, 0x7dbc1dcd, 0xa97aaee0, 0x10452db1, 0xc4839e9c,
      0x6d0ef8c6, 0xb9c84beb, 0x3e143472, 0xead2875f, 0x435fe105, 0x97995228, 0x4ce71e37,
      0x9821ad1a, 0x31accb40, 0xe56a786d, 0x62b607f4, 0xb670b4d9, 0x1ffdd283, 0xcb3b61ae,
      0x7dc7f990, 0xa9014abd, 0x008c2ce7, 0xd44a9fca, 0x5396e053, 0x8750537e, 0x2edd3524,
      0xfa1b8609, 0x2165ca16, 0xf5a3793b, 0x5c2e1f61, 0x88e8ac4c, 0x0f34d3d5, 0xdbf260f8,
      0x727f06a2, 0xa6b9b58f, 0x3f0c6dbc, 0xebcade91, 0x4247b8cb, 0x96810be6, 0x115d747f,
      0xc59bc752, 0x6c16a108, 0xb8d01225, 0x63ae5e3a, 0xb768ed17, 0x1ee58b4d, 0xca233860,
      0x4dff47f9, 0x9939f4d4, 0x30b4928e, 0xe47221a3, 0x528eb99d, 0x86480ab0, 0x2fc56cea,
      0xfb03dfc7, 0x7cdfa05e, 0xa8191373, 0x01947529, 0xd552c604, 0x0e2c8a1b, 0xdaea3936,
      0x73675f6c, 0xa7a1ec41, 0x207d93d8, 0xf4bb20f5, 0x5d3646af, 0x89f0f582, 0x30cf76d3,
      0xe409c5fe, 0x4d84a3a4, 0x99421089, 0x1e9e6f10, 0xca58dc3d, 0x63d5ba67, 0xb713094a,
      0x6c6d4555, 0xb8abf678, 0x11269022, 0xc5e0230f, 0x423c5c96, 0x96faefbb, 0x3f7789e1,
      0xebb13acc, 0x5d4da2f2, 0x898b11df, 0x20067785, 0xf4c0c4a8, 0x731cbb31, 0xa7da081c,
      0x0e576e46, 0xda91dd6b, 0x01ef9174, 0xd5292259, 0x7ca44403, 0xa862f72e, 0x2fbe88b7,
      0xfb783b9a, 0x52f55dc0, 0x8633eeed, 0x208a5b62, 0xf44ce84f, 0x5dc18e15, 0x89073d38,
      0x0edb42a1, 0xda1df18c, 0x739097d6, 0xa75624fb, 0x7c2868e4, 0xa8eedbc9, 0x0163bd93,
      0xd5a50ebe, 0x52797127, 0x86bfc20a, 0x2f32a450, 0xfbf4177d, 0x4d088f43, 0x99ce3c6e,
      0x30435a34, 0xe485e919, 0x63599680, 0xb79f25ad, 0x1e1243f7, 0xcad4f0da, 0x11aabcc5,
      0xc56c0fe8, 0x6ce169b2, 0xb827da9f, 0x3ffba506, 0xeb3d162b, 0x42b07071, 0x9676c35c,
      0x2f49400d, 0xfb8ff320, 0x5202957a, 0x86c42657, 0x011859ce, 0xd5deeae3, 0x7c538cb9,
      0xa8953f94, 0x73eb738b, 0xa72dc0a6, 0x0ea0a6fc, 0xda6615d1, 0x5dba6a48, 0x897cd965,
      0x20f1bf3f, 0xf4370c12, 0x42cb942c, 0x960d2701, 0x3f80415b, 0xeb46f276, 0x6c9a8def,
      0xb85c3ec2, 0x11d15898, 0xc517ebb5, 0x1e69a7aa, 0xcaaf1487, 0x632272dd, 0xb7e4c1f0,
      0x3038be69, 0xe4fe0d44, 0x4d736b1e, 0x99b5d833]"

definition hashStep :: "u32 \<Rightarrow> byte \<Rightarrow> u32 result" where
  "hashStep hash b =
     rbind (idx hashT (unat (drop_bit 23 hash))) (\<lambda>t.
       Ok ((push_bit 8 hash OR (ucast b AND 0xff)) XOR t))"

primrec hashSteps :: "u32 \<Rightarrow> bytes \<Rightarrow> u32 result" where
  "hashSteps hash [] = Ok hash"
| "hashSteps hash (b # bs) = rbind (hashStep hash b) (\<lambda>hash'. hashSteps hash' bs)"

definition hashBlock :: "bytes \<Rightarrow> nat \<Rightarrow> nat result" where
  "hashBlock raw ptr =
     rbind (slice raw ptr (ptr + 16)) (\<lambda>blk.
       let hash = push_bit 24 (ucast (blk ! 0) AND 0xff) OR push_bit 16 (ucast (blk ! 1) AND 0xff) OR
                  push_bit 8 (ucast (blk ! 2) AND 0xff) OR (ucast (blk ! 3) AND 0xff)
       in rbind (idx hashT (unat (drop_bit 31 hash))) (\<lambda>t.
          rbind (hashSteps (hash XOR t) (drop 4 blk)) (\<lambda>h. Ok (unat h))))"

section \<open>Size of the hash table\<close>

definition len8tab :: "nat list" where
  "len8tab =
     [0, 1, 2, 2, 3, 3, 3, 3, 4, 4, 4, 4, 4, 4, 4, 4, 5, 5, 5, 5, 5, 5, 5, 5, 5, 5, 5, 5, 5, 5, 5, 5,
      6, 6, 6, 6, 6, 6, 6, 6, 6, 6, 6, 6, 6, 6, 6, 6, 6, 6, 6, 6, 6, 6, 6, 6, 6, 6, 6, 6, 6, 6, 6, 6,
      7, 7, 7, 7, 7, 7, 7, 7, 7, 7, 7, 7, 7, 7, 7, 7, 7, 7, 7, 7, 7, 7, 7, 7, 7, 7, 7, 7, 7, 7, 7, 7,
      7, 7, 7, 7, 7, 7, 7, 7, 7, 7, 7, 7, 7, 7, 7, 7, 7, 7, 7, 7, 7, 7, 7, 7, 7, 7, 7, 7, 7, 7, 7, 7,
      8, 8, 8, 8, 8, 8, 8, 8, 8, 8, 8, 8, 8, 8, 8, 8, 8, 8, 8, 8, 8, 8, 8, 8, 8, 8, 8, 8, 8, 8, 8, 8,
      8, 8, 8, 8, 8, 8, 8, 8, 8, 8, 8, 8, 8, 8, 8, 8, 8, 8, 8, 8, 8, 8, 8, 8, 8, 8, 8, 8, 8, 8, 8, 8,
      8, 8, 8, 8, 8, 8, 8, 8, 8, 8, 8, 8, 8, 8, 8, 8, 8, 8, 8, 8, 8, 8, 8, 8, 8, 8, 8, 8, 8, 8, 8, 8,
      8, 8, 8, 8, 8, 8, 8, 8, 8, 8, 8, 8, 8, 8, 8, 8, 8, 8, 8, 8, 8, 8, 8, 8, 8, 8, 8, 8, 8, 8, 8, 8]"

definition leadingZeros :: "u32 \<Rightarrow> nat result" where
  "leadingZeros x =
     (let (x1, n1) = (if x \<ge> 65536 then (drop_bit 16 x, 16) else (x, 0));
          (x2, n2) = (if x1 \<ge> 256 then (drop_bit 8 x1, n1 + 8) else (x1, n1))
      in rbind (idx len8tab (unat x2)) (\<lambda>l. Ok (32 - (n2 + l))))"

text \<open>\<^verbatim>\<open>1 << uint(shift-1)\<close> is zero when the shift is negative, that is, huge.\<close>

definition tableSize :: "nat \<Rightarrow> nat result" where
  "tableSize worstCaseBlockCnt =
     rbind (leadingZeros (word_of_nat worstCaseBlockCnt)) (\<lambda>lz.
       let shift = 32 - lz;
           sz = (if shift = 0 then 0 else push_bit (shift - 1) 1)
       in Ok (if sz < worstCaseBlockCnt then push_bit 1 sz else sz))"

section \<open>Scanning the source\<close>

record deltaIndexScanner =
  sc_table :: "nat list"
  sc_entries :: "nat list"
  sc_next :: "nat list"
  sc_mask :: nat
  sc_count :: nat

definition emptyScanner :: deltaIndexScanner where
  "emptyScanner = \<lparr>sc_table = [], sc_entries = [], sc_next = [], sc_mask = 0, sc_count = 0\<rparr>"

definition scan_step :: "bytes \<Rightarrow> nat \<Rightarrow> nat \<Rightarrow> deltaIndexScanner \<Rightarrow> (nat \<times> deltaIndexScanner) result" where
  "scan_step buf lastHash ptr s =
     rbind (hashBlock buf ptr) (\<lambda>key.
     let tIdx = key AND sc_mask s
     in rbind (idx (sc_table s) tIdx) (\<lambda>head.
        if head \<noteq> 0 \<and> lastHash = key
        then rbind (upd (sc_entries s) head ptr) (\<lambda>es. Ok (key, s\<lparr>sc_entries := es\<rparr>))
        else let eIdx = sc_count s + 1
             in rbind (upd (sc_entries s) eIdx ptr) (\<lambda>es.
                rbind (upd (sc_next s) eIdx head) (\<lambda>nx.
                rbind (upd (sc_table s) tIdx eIdx) (\<lambda>tb.
                  Ok (key, s\<lparr>sc_count := eIdx, sc_entries := es, sc_next := nx, sc_table := tb\<rparr>))))))"

function scan_loop :: "bytes \<Rightarrow> nat \<Rightarrow> nat \<Rightarrow> deltaIndexScanner \<Rightarrow> deltaIndexScanner result" where
  "scan_loop buf lastHash ptr s =
     rbind (scan_step buf lastHash ptr s) (\<lambda>(key, s').
       if ptr < blksz then Ok s' else scan_loop buf key (ptr - blksz) s')"
  by pat_completeness auto
termination
  by (relation "measure (\<lambda>(buf, lastHash, ptr, s). ptr)") (auto simp: blksz_def)

declare scan_loop.simps [simp del]

definition scan :: "bytes \<Rightarrow> nat \<Rightarrow> deltaIndexScanner \<Rightarrow> deltaIndexScanner result" where
  "scan buf endp s = (if endp < blksz then Panic else scan_loop buf 0 (endp - blksz) s)"

definition newDeltaIndexScanner :: "bytes \<Rightarrow> nat \<Rightarrow> deltaIndexScanner result" where
  "newDeltaIndexScanner buf sz =
     (let sz' = sz - sz mod blksz;
          worstCaseBlockCnt = sz' div blksz
      in if worstCaseBlockCnt < 1 then Ok emptyScanner
         else rbind (tableSize worstCaseBlockCnt) (\<lambda>tableSize.
              scan buf sz'
                \<lparr>sc_table = replicate tableSize 0,
                 sc_entries = replicate (worstCaseBlockCnt + 1) 0,
                 sc_next = replicate (worstCaseBlockCnt + 1) 0,
                 sc_mask = tableSize - 1, sc_count = 0\<rparr>))"

section \<open>Building the index\<close>

text \<open>
  The inner loop of \<^verbatim>\<open>countEntries\<close> walks one hash chain and cuts it after \<open>maxChainLength\<close>
  entries; the outer loop adds up the lengths. The counter starts at 0 and grows by one, so that
  reaching the bound (\<^verbatim>\<open>size == maxChainLength\<close>) is written \<open>\<ge>\<close>.
\<close>

function countChain :: "nat list \<Rightarrow> nat \<Rightarrow> nat \<Rightarrow> (nat \<times> nat list) result" where
  "countChain nx h n =
     (let n1 = n + 1
      in if n1 \<ge> maxChainLength
         then rbind (upd nx h 0) (\<lambda>nx'. Ok (n1, nx'))
         else rbind (idx nx h) (\<lambda>h'. if h' = 0 then Ok (n1, nx) else countChain nx h' n1))"
  by pat_completeness auto
termination
  by (relation "measure (\<lambda>(nx, h, n). maxChainLength - n)") (auto simp: maxChainLength_def)

declare countChain.simps [simp del]

fun countEntries_loop :: "nat list \<Rightarrow> nat list \<Rightarrow> nat \<Rightarrow> (nat \<times> nat list) result" where
  "countEntries_loop nx [] cnt = Ok (cnt, nx)"
| "countEntries_loop nx (h # hs) cnt =
     (if h = 0 then countEntries_loop nx hs cnt
      else rbind (countChain nx h 0) (\<lambda>(size, nx'). countEntries_loop nx' hs (cnt + size)))"

definition countEntries :: "deltaIndexScanner \<Rightarrow> (nat \<times> deltaIndexScanner) result" where
  "countEntries sc =
     rbind (countEntries_loop (sc_next sc) (sc_table sc) 0) (\<lambda>(cnt, nx).
       Ok (cnt, sc\<lparr>sc_next := nx\<rparr>))"

record deltaIndex =
  di_table :: "nat list"
  di_entries :: "nat list"
  di_mask :: nat

definition newDeltaIndex :: deltaIndex where
  "newDeltaIndex = \<lparr>di_table = [], di_entries = [], di_mask = 0\<rparr>"

text \<open>Copying a chain ends at its last entry, or panics at the end of the index's entries.\<close>

function copyChain :: "deltaIndexScanner \<Rightarrow> nat \<Rightarrow> nat list \<Rightarrow> nat \<Rightarrow> (nat list \<times> nat) result" where
  "copyChain scanner h es nxt =
     rbind (idx (sc_entries scanner) h) (\<lambda>v.
       if nxt < length es
       then rbind (idx (sc_next scanner) h) (\<lambda>h'.
              if h' = 0 then Ok (es[nxt := v], nxt + 1)
              else copyChain scanner h' (es[nxt := v]) (nxt + 1))
       else Panic)"
  by pat_completeness auto
termination
  by (relation "measure (\<lambda>(scanner, h, es, nxt). length es - nxt)") auto

declare copyChain.simps [simp del]

fun copyEntries_loop ::
    "deltaIndexScanner \<Rightarrow> nat list \<Rightarrow> nat list \<Rightarrow> nat \<Rightarrow> (nat list \<times> nat list) result" where
  "copyEntries_loop scanner [] es nxt = Ok ([], es)"
| "copyEntries_loop scanner (h # hs) es nxt =
     (if h = 0
      then rbind (copyEntries_loop scanner hs es nxt) (\<lambda>(tb, es'). Ok (0 # tb, es'))
      else rbind (copyChain scanner h es nxt) (\<lambda>(es', nxt').
           rbind (copyEntries_loop scanner hs es' nxt') (\<lambda>(tb, es''). Ok (nxt # tb, es''))))"

definition copyEntries :: "deltaIndex \<Rightarrow> deltaIndexScanner \<Rightarrow> deltaIndex result" where
  "copyEntries index scanner =
     rbind (copyEntries_loop scanner (di_table index) (di_entries index) 1) (\<lambda>(tb, es).
       Ok (index\<lparr>di_table := tb, di_entries := es\<rparr>))"

definition deltaIndex_init :: "deltaIndex \<Rightarrow> bytes \<Rightarrow> deltaIndex result" where
  "deltaIndex_init index buf =
     rbind (newDeltaIndexScanner buf (length buf)) (\<lambda>scanner.
     rbind (countEntries scanner) (\<lambda>(cnt, scanner').
       copyEntries
         (index\<lparr>di_mask := sc_mask scanner', di_table := sc_table scanner',
                di_entries := replicate (cnt + 1) 0\<rparr>) scanner'))"

section \<open>Looking a match up\<close>

fun matchLength_lists :: "bytes \<Rightarrow> bytes \<Rightarrow> nat" where
  "matchLength_lists (x # xs) (y # ys) = (if x = y then Suc (matchLength_lists xs ys) else 0)"
| "matchLength_lists _ _ = 0"

definition matchLength :: "bytes \<Rightarrow> bytes \<Rightarrow> nat \<Rightarrow> nat \<Rightarrow> nat" where
  "matchLength src tgt otgt osrc = matchLength_lists (drop osrc src) (drop otgt tgt)"

definition findMatch :: "deltaIndex \<Rightarrow> bytes \<Rightarrow> bytes \<Rightarrow> nat \<Rightarrow> (nat \<times> int) result" where
  "findMatch index src tgt tgtOffset =
     (if length tgt < tgtOffset + 16 then Ok (0, int (length tgt) - int tgtOffset)
      else if length src < blksz then Ok (0, -1)
      else rbind (hashBlock tgt tgtOffset) (\<lambda>h.
           let tIdx = h AND di_mask index
           in rbind (idx (di_table index) tIdx) (\<lambda>eIdx.
              if eIdx = 0 then Ok (0, 0)
              else rbind (idx (di_entries index) eIdx) (\<lambda>srcOffset.
                   Ok (srcOffset, int (matchLength src tgt tgtOffset srcOffset))))))"

section \<open>The hash stays inside its table\<close>

lemma length_hashT [simp]: "length hashT = 256"
  by (simp add: hashT_def)

fun top_bits_alternate :: "bool \<Rightarrow> u32 list \<Rightarrow> bool" where
  "top_bits_alternate b [] = True"
| "top_bits_alternate b (t # ts) = ((b = (2147483648 \<le> t)) \<and> top_bits_alternate (\<not> b) ts)"

lemma hashT_alternates: "top_bits_alternate False hashT"
  by (simp add: hashT_def)

lemma u32_bit31: "\<not> bit (h :: u32) 31 \<Longrightarrow> unat h < 2 ^ 31"
proof -
  assume nb: "\<not> bit h 31"
  have "take_bit 31 h = h"
  proof (rule bit_word_eqI)
    fix n assume "n < LENGTH(32)"
    with nb show "bit (take_bit 31 h) n = bit h n"
      by (cases "n = 31") (auto simp: bit_take_bit_iff)
  qed
  then have "unat h = take_bit 31 (unat h)" by (metis unsigned_take_bit_eq)
  then show ?thesis by (metis take_bit_nat_less_exp)
qed

lemma u32_bit31_iff: "bit (h :: u32) 31 \<longleftrightarrow> 2147483648 \<le> h"
proof
  assume "bit h 31"
  then have "bit (unat h) 31" by (simp add: bit_unsigned_iff)
  then have "unat h div 2 ^ 31 \<noteq> 0" by (metis bit_iff_odd even_zero)
  then have "2 ^ 31 \<le> unat h" by (simp add: div_eq_0_iff)
  then show "2147483648 \<le> h" by (simp add: word_le_nat_alt)
next
  assume "2147483648 \<le> h"
  then have "\<not> unat h < 2 ^ 31" by (simp add: word_le_nat_alt)
  then show "bit h 31" using u32_bit31 by blast
qed

lemma top_bits_alternate_nth:
  "top_bits_alternate b ts \<Longrightarrow> k < length ts \<Longrightarrow> bit (ts ! k) 31 \<longleftrightarrow> (b = even k)"
proof (induction b ts arbitrary: k rule: top_bits_alternate.induct)
  case (2 b t ts)
  then show ?case by (cases k) (auto simp: u32_bit31_iff)
qed simp

lemma hashT_top_bit: "k < 256 \<Longrightarrow> bit (hashT ! k) 31 \<longleftrightarrow> odd k"
  using top_bits_alternate_nth [OF hashT_alternates] by simp

lemma drop_bit_23_less: "\<not> bit (h :: u32) 31 \<Longrightarrow> unat (drop_bit 23 h) < 256"
proof -
  assume "\<not> bit h 31"
  then have "unat h < 2 ^ 31" by (rule u32_bit31)
  then have "unat h div 2 ^ 23 < 256" by (simp add: less_mult_imp_div_less)
  then have "drop_bit 23 (unat h) < 256" by (simp add: drop_bit_eq_div)
  then show ?thesis by (simp only: unat_drop_bit_eq)
qed

lemma odd_drop_bit_23: "odd (unat (drop_bit 23 (h::u32))) \<longleftrightarrow> bit h 23"
proof -
  have "odd (drop_bit 23 (unat h)) \<longleftrightarrow> bit (unat h) 23" by (simp only: bit_iff_odd_drop_bit)
  then show ?thesis by (simp only: unat_drop_bit_eq) (simp add: bit_unsigned_iff)
qed

lemma top_bit_step:
  "\<not> bit ((push_bit 8 (h::u32) OR (ucast (b::byte) AND 0xff)) XOR t) 31 \<longleftrightarrow> (bit t 31 \<longleftrightarrow> bit h 23)"
  by (auto simp: bit_xor_iff bit_or_iff bit_and_iff bit_push_bit_iff bit_ucast_iff
      dest: bit_imp_le_length)

lemma hashStep_Ok:
  assumes "\<not> bit h 31"
  shows "\<exists>h'. hashStep h b = Ok h' \<and> \<not> bit h' 31"
proof -
  let ?k = "unat (drop_bit 23 h)"
  have k: "?k < 256" using assms by (rule drop_bit_23_less)
  have "bit (hashT ! ?k) 31 \<longleftrightarrow> bit h 23"
    using hashT_top_bit [OF k] by (simp only: odd_drop_bit_23)
  then have "\<not> bit ((push_bit 8 h OR (ucast b AND 0xff)) XOR hashT ! ?k) 31"
    by (simp only: top_bit_step)
  then show ?thesis using k by (simp add: hashStep_def)
qed

lemma hashSteps_Ok: "\<not> bit h 31 \<Longrightarrow> \<exists>h'. hashSteps h bs = Ok h'"
proof (induction bs arbitrary: h)
  case (Cons b bs)
  then obtain h' where "hashStep h b = Ok h'" "\<not> bit h' 31" using hashStep_Ok by blast
  with Cons.IH show ?case by auto
qed simp

lemma drop_bit_31: "drop_bit 31 (h::u32) = of_bool (bit h 31)"
proof (rule bit_word_eqI)
  fix n
  show "bit (drop_bit 31 h) n = bit (of_bool (bit h 31) :: u32) n"
    by (cases "n = 0") (auto simp: bit_drop_bit_eq bit_1_iff dest: bit_imp_le_length)
qed

lemma hash_first_bit: "\<not> bit (h XOR hashT ! (unat (drop_bit 31 h))) 31"
proof -
  have "unat (drop_bit 31 h) = of_bool (bit h 31)" unfolding drop_bit_31 by simp
  then have "unat (drop_bit 31 h) < 256" "odd (unat (drop_bit 31 h)) \<longleftrightarrow> bit h 31" by simp_all
  then show ?thesis using hashT_top_bit by (simp add: bit_xor_iff)
qed

lemma hashBlock_Ok: "ptr + 16 \<le> length raw \<Longrightarrow> \<exists>h. hashBlock raw ptr = Ok h"
proof -
  assume len: "ptr + 16 \<le> length raw"
  define blk where "blk = take 16 (drop ptr raw)"
  define hash :: u32 where "hash = push_bit 24 (ucast (blk ! 0) AND 0xff) OR
    push_bit 16 (ucast (blk ! 1) AND 0xff) OR push_bit 8 (ucast (blk ! 2) AND 0xff) OR
    (ucast (blk ! 3) AND 0xff)"
  have small: "unat (drop_bit 31 hash) < 256" unfolding drop_bit_31 by simp
  obtain h where h: "hashSteps (hash XOR hashT ! (unat (drop_bit 31 hash))) (drop 4 blk) = Ok h"
    using hashSteps_Ok [OF hash_first_bit] by blast
  have "slice raw ptr (ptr + 16) = Ok blk" using len by (simp add: blk_def)
  moreover have "idx hashT (unat (drop_bit 31 hash)) = Ok (hashT ! (unat (drop_bit 31 hash)))"
    using small by (simp only: idx_Ok length_hashT)
  ultimately have "hashBlock raw ptr = Ok (unat h)"
    using h unfolding hashBlock_def by (simp only: rbind.simps Let_def hash_def)
  then show ?thesis ..
qed

section \<open>The hash table has a slot for every mask\<close>

lemma length_len8tab [simp]: "length len8tab = 256"
  by (simp add: len8tab_def)

lemma len8tab_pos: "0 < k \<Longrightarrow> k < 256 \<Longrightarrow> 0 < len8tab ! k"
proof -
  have "list_all (\<lambda>l. 0 < l) (tl len8tab)" by (simp add: len8tab_def)
  then show "0 < k \<Longrightarrow> k < 256 \<Longrightarrow> 0 < len8tab ! k"
    by (cases k) (auto simp: list_all_length nth_tl)
qed

lemma unat_drop_bit_less: "unat x < 2 ^ (n + m) \<Longrightarrow> unat (drop_bit n (x::u32)) < 2 ^ m"
  by (simp only: unat_drop_bit_eq) (simp add: drop_bit_eq_div less_mult_imp_div_less power_add mult.commute)

lemma unat_drop_bit_pos: "2 ^ n \<le> unat x \<Longrightarrow> 0 < unat (drop_bit n (x::u32))"
  by (simp only: unat_drop_bit_eq) (simp add: drop_bit_eq_div div_greater_zero_iff)

lemma leadingZeros_Ok:
  assumes "0 < x"
  shows "\<exists>lz. leadingZeros x = Ok lz \<and> lz < 32"
proof -
  have x: "unat x < 2 ^ 32" using unsigned_less [where 'a = nat, of x] by simp
  obtain x1 n1 where s1: "(if x \<ge> 65536 then (drop_bit 16 x, 16) else (x, 0 :: nat)) = (x1, n1)"
    by fastforce
  obtain x2 n2 where s2: "(if x1 \<ge> 256 then (drop_bit 8 x1, n1 + 8) else (x1, n1)) = (x2, n2)"
    by fastforce
  have x1: "unat x1 < 2 ^ 16" "0 < unat x1"
    using s1 x assms unat_drop_bit_less [of x 16 16] unat_drop_bit_pos [of 16 x]
    by (auto simp: word_le_nat_alt word_less_nat_alt split: if_splits)
  then have x2: "unat x2 < 2 ^ 8" "0 < unat x2"
    using s2 unat_drop_bit_less [of x1 8 8] unat_drop_bit_pos [of 8 x1]
    by (auto simp: word_le_nat_alt split: if_splits)
  then have "0 < len8tab ! (unat x2)" by (intro len8tab_pos) simp_all
  moreover have "leadingZeros x = Ok (32 - (n2 + len8tab ! (unat x2)))"
    using s1 s2 x2 by (simp add: leadingZeros_def)
  ultimately show ?thesis by simp
qed

lemma tableSize_Ok:
  assumes "1 \<le> cnt" and "cnt < 2 ^ 32"
  shows "\<exists>sz. tableSize cnt = Ok sz \<and> 0 < sz"
proof -
  have "0 < (word_of_nat cnt :: u32)"
    using assms by (simp add: word_less_nat_alt unat_u32_of_nat)
  then obtain lz where "leadingZeros (word_of_nat cnt) = Ok lz" "lz < 32"
    using leadingZeros_Ok by blast
  then show ?thesis by (simp add: tableSize_def Let_def push_bit_eq_mult)
qed

lemma nat_and_le: "(k::nat) AND m \<le> m"
proof -
  have "int (k AND m) \<le> int m" by (simp add: of_nat_and_eq)
  then show ?thesis by simp
qed

lemma and_mask_less: "0 < n \<Longrightarrow> (k::nat) AND (n - 1) < n"
  using nat_and_le [of k "n - 1"] by linarith


section \<open>Hash chains\<close>

text \<open>
  The chains of a scanner: entry \<open>e\<close> links to a smaller entry of the same bucket \<open>b e\<close>, and the
  slot \<open>i\<close> of the table heads the chain of bucket \<open>i\<close>. So chains are finite and disjoint.
\<close>

definition chains_ok :: "(nat \<Rightarrow> nat) \<Rightarrow> nat \<Rightarrow> nat list \<Rightarrow> nat list \<Rightarrow> bool" where
  "chains_ok b n nx tb \<longleftrightarrow>
     n < length nx \<and>
     (\<forall>e. 1 \<le> e \<and> e \<le> n \<longrightarrow> nx ! e < e \<and> (nx ! e \<noteq> 0 \<longrightarrow> b (nx ! e) = b e)) \<and>
     (\<forall>i < length tb. tb ! i \<le> n \<and> (tb ! i \<noteq> 0 \<longrightarrow> b (tb ! i) = i))"

definition scan_inv :: "nat \<Rightarrow> nat \<Rightarrow> deltaIndexScanner \<Rightarrow> bool" where
  "scan_inv n k s \<longleftrightarrow>
     length (sc_entries s) = n + 1 \<and> length (sc_next s) = n + 1 \<and>
     0 < length (sc_table s) \<and> sc_mask s = length (sc_table s) - 1 \<and>
     sc_count s \<le> k \<and> (\<exists>b. chains_ok b (sc_count s) (sc_next s) (sc_table s))"

lemma chains_ok_cons:
  assumes "chains_ok b n nx tb" and "Suc n < length nx" and "t < length tb"
  shows "chains_ok (b(Suc n := t)) (Suc n) (nx[Suc n := tb ! t]) (tb[t := Suc n])"
proof -
  have link: "nx ! e < e" "nx ! e \<noteq> 0 \<Longrightarrow> b (nx ! e) = b e" if "1 \<le> e" "e \<le> n" for e
    using assms(1) that by (auto simp: chains_ok_def)
  have head: "tb ! i \<le> n" "tb ! i \<noteq> 0 \<Longrightarrow> b (tb ! i) = i" if "i < length tb" for i
    using assms(1) that by (auto simp: chains_ok_def)
  show ?thesis unfolding chains_ok_def
  proof (intro conjI allI impI)
    show "Suc n < length (nx[Suc n := tb ! t])" using assms(2) by simp
  next
    fix e assume e: "1 \<le> e \<and> e \<le> Suc n"
    show "nx[Suc n := tb ! t] ! e < e"
      using e link(1) [of e] head(1) [OF assms(3)] assms(2) by (cases "e = Suc n") auto
    assume nz: "nx[Suc n := tb ! t] ! e \<noteq> 0"
    show "(b(Suc n := t)) (nx[Suc n := tb ! t] ! e) = (b(Suc n := t)) e"
    proof (cases "e = Suc n")
      case True
      with nz head [OF assms(3)] assms(2) show ?thesis by auto
    next
      case False
      then have "e \<le> n" using e by simp
      with nz False link [of e] e show ?thesis by auto
    qed
  next
    fix i assume i: "i < length (tb[t := Suc n])"
    show "tb[t := Suc n] ! i \<le> Suc n" using i head(1) [of i] by (cases "i = t") auto
    assume nz: "tb[t := Suc n] ! i \<noteq> 0"
    show "(b(Suc n := t)) (tb[t := Suc n] ! i) = i"
      using i nz head [of i] by (cases "i = t") auto
  qed
qed

lemma scan_step_inv:
  assumes inv: "scan_inv n k s" and "k < n" and "ptr + 16 \<le> length buf"
  shows "\<exists>key s'. scan_step buf lastHash ptr s = Ok (key, s') \<and> scan_inv n (Suc k) s'"
proof -
  obtain key where key: "hashBlock buf ptr = Ok key" using hashBlock_Ok [OF assms(3)] by blast
  let ?t = "key AND sc_mask s"
  have t: "?t < length (sc_table s)" using inv and_mask_less [of "length (sc_table s)" key] by (auto simp: scan_inv_def)
  let ?head = "sc_table s ! ?t"
  obtain b where b: "chains_ok b (sc_count s) (sc_next s) (sc_table s)"
    using inv by (auto simp: scan_inv_def)
  have head: "?head < length (sc_entries s)"
    using b t inv \<open>k < n\<close> by (force simp: chains_ok_def scan_inv_def)
  have count: "Suc (sc_count s) < length (sc_next s)" "Suc (sc_count s) < length (sc_entries s)"
    using inv \<open>k < n\<close> by (auto simp: scan_inv_def)
  show ?thesis
  proof (cases "?head \<noteq> 0 \<and> lastHash = key")
    case True
    then show ?thesis using key t head inv
      by (auto simp: scan_step_def Let_def scan_inv_def)
  next
    case False
    have "chains_ok (b(Suc (sc_count s) := ?t)) (Suc (sc_count s))
        ((sc_next s)[Suc (sc_count s) := ?head]) ((sc_table s)[?t := Suc (sc_count s)])"
      using b count(1) t by (rule chains_ok_cons)
    with False show ?thesis using key t count inv
      by (auto simp: scan_step_def Let_def scan_inv_def simp del: neq0_conv)
  qed
qed

lemma scan_loop_inv:
  assumes "scan_inv n k s" and "ptr + 16 \<le> length buf" and "ptr div blksz + k < n"
  shows "\<exists>s'. scan_loop buf lastHash ptr s = Ok s' \<and> scan_inv n n s'"
  using assms
proof (induction buf lastHash ptr s arbitrary: k rule: scan_loop.induct)
  case (1 buf lastHash ptr s)
  have "k < n" using "1.prems"(3) by simp
  then obtain key s' where step: "scan_step buf lastHash ptr s = Ok (key, s')"
    and inv: "scan_inv n (Suc k) s'"
    using scan_step_inv "1.prems"(1,2) by blast
  show ?case
  proof (cases "ptr < blksz")
    case True
    have "scan_inv n n s'" using inv \<open>k < n\<close> by (auto simp: scan_inv_def)
    with True step show ?thesis by (simp add: scan_loop.simps [of buf lastHash ptr s])
  next
    case False
    then have "(ptr - blksz) div blksz + Suc k < n"
      using "1.prems"(3) by (simp add: blksz_def le_div_geq)
    with "1.IH" [OF step refl False inv] "1.prems"(2) False step show ?thesis
      by (simp add: scan_loop.simps [of buf lastHash ptr s])
  qed
qed

lemma newDeltaIndexScanner_Ok:
  assumes "length buf < 2 ^ 36"
  shows "\<exists>s. newDeltaIndexScanner buf (length buf) = Ok s \<and>
    (length buf < blksz \<and> s = emptyScanner \<or>
     blksz \<le> length buf \<and> scan_inv (length buf div blksz) (length buf div blksz) s)"
proof -
  let ?n = "length buf div blksz"
  have sz: "(length buf - length buf mod blksz) div blksz = ?n"
    "length buf - length buf mod blksz = ?n * blksz"
    by (simp_all add: minus_mod_eq_mult_div blksz_def)
  show ?thesis
  proof (cases "?n < 1")
    case True
    then have "length buf < blksz" by (simp add: blksz_def div_eq_0_iff)
    with True sz show ?thesis by (simp add: newDeltaIndexScanner_def Let_def)
  next
    case False
    have "?n < 2 ^ 32" using assms by (simp add: blksz_def less_mult_imp_div_less)
    then obtain ts where ts: "tableSize ?n = Ok ts" "0 < ts" using tableSize_Ok [of ?n] False by auto
    let ?s = "\<lparr>sc_table = replicate ts 0, sc_entries = replicate (?n + 1) 0,
      sc_next = replicate (?n + 1) 0, sc_mask = ts - 1, sc_count = 0\<rparr>"
    have inv: "scan_inv ?n 0 ?s" using ts(2) by (auto simp: scan_inv_def chains_ok_def)
    have "?n * blksz - blksz + 16 \<le> length buf"
      using False by (simp add: blksz_def)
    moreover have "(?n * blksz - blksz) div blksz + 0 < ?n"
    proof -
      have "?n * blksz - blksz = (?n - 1) * blksz" by (simp add: algebra_simps)
      then show ?thesis using False by (simp add: blksz_def)
    qed
    ultimately obtain s' where "scan_loop buf 0 (?n * blksz - blksz) ?s = Ok s'" "scan_inv ?n ?n s'"
      using scan_loop_inv [OF inv] by blast
    moreover have "blksz \<le> length buf" using False by (simp add: blksz_def)
    moreover have "\<not> ?n * blksz < blksz" "0 < blksz" using False by (simp_all add: blksz_def)
    ultimately show ?thesis using False ts(1)
      by (simp add: newDeltaIndexScanner_def Let_def sz scan_def)
  qed
qed


section \<open>Counting and copying the chains\<close>

function chain :: "nat list \<Rightarrow> nat \<Rightarrow> nat list" where
  "chain nx h = (if h = 0 then [] else h # (if nx ! h < h then chain nx (nx ! h) else []))"
  by pat_completeness auto
termination
  by (relation "measure snd") auto

declare chain.simps [simp del]

lemma chain_0 [simp]: "chain nx 0 = []"
  by (simp add: chain.simps)

lemma chain_step: "0 < h \<Longrightarrow> nx ! h < h \<Longrightarrow> chain nx h = h # chain nx (nx ! h)"
  by (simp add: chain.simps [of nx h])

definition links_ok :: "(nat \<Rightarrow> nat) \<Rightarrow> nat \<Rightarrow> nat list \<Rightarrow> bool" where
  "links_ok b n nx \<longleftrightarrow>
     n < length nx \<and>
     (\<forall>e. 1 \<le> e \<and> e \<le> n \<longrightarrow> nx ! e < e \<and> (nx ! e \<noteq> 0 \<longrightarrow> b (nx ! e) = b e))"

lemma links_okD:
  assumes "links_ok b n nx" and "0 < e" and "e \<le> n"
  shows "e < length nx" "nx ! e < e" "nx ! e \<le> n" "nx ! e \<noteq> 0 \<Longrightarrow> b (nx ! e) = b e"
  using assms by (auto simp: links_ok_def Suc_le_eq intro: less_imp_le order_less_le_trans)

lemma links_ok_cut: "links_ok b n nx \<Longrightarrow> links_ok b n (nx[e := 0])"
  by (cases "e < length nx") (auto simp: links_ok_def nth_list_update list_update_beyond)

lemma chain_bucket:
  assumes "links_ok b n nx" and "h \<le> n" and "e \<in> set (chain nx h)"
  shows "b e = b h \<and> 0 < e \<and> e \<le> h"
  using assms
proof (induction h rule: less_induct)
  case (less h)
  then have h: "0 < h" by (cases "h = 0") simp_all
  note l = links_okD [OF less.prems(1) h less.prems(2)]
  from less.prems(3) have "e = h \<or> e \<in> set (chain nx (nx ! h))"
    using chain_step [OF h l(2)] by simp
  then show ?case
  proof
    assume e: "e \<in> set (chain nx (nx ! h))"
    then have "nx ! h \<noteq> 0" by (cases "nx ! h = 0") simp_all
    with less.IH [OF l(2) less.prems(1) l(3) e] l show ?thesis by auto
  qed (use h in simp)
qed

lemma chain_cut_other:
  assumes "links_ok b n nx" and "h \<le> n" and "e \<notin> set (chain nx h)"
  shows "chain (nx[e := 0]) h = chain nx h"
  using assms
proof (induction h rule: less_induct)
  case (less h)
  show ?case
  proof (cases "h = 0")
    case False
    then have h: "0 < h" by simp
    note l = links_okD [OF less.prems(1) h less.prems(2)]
    have e: "e \<noteq> h" "e \<notin> set (chain nx (nx ! h))"
      using less.prems(3) chain_step [OF h l(2)] by auto
    then have nth: "nx[e := 0] ! h = nx ! h" by simp
    have "chain (nx[e := 0]) h = h # chain (nx[e := 0]) (nx ! h)"
      using chain_step [OF h, of "nx[e := 0]"] l(2) nth by simp
    then show ?thesis
      using less.IH [OF l(2) less.prems(1) l(3) e(2)] chain_step [OF h l(2)] by simp
  qed simp
qed

text \<open>
  Counting one chain from \<open>size\<close> on: it answers the length of the chain, at most
  \<open>maxChainLength\<close>, and leaves the chain cut to that length and the others as they were.
\<close>

lemma countChain_Ok:
  assumes "links_ok b n nx" and "0 < h" and "h \<le> n" and "k < maxChainLength"
  shows "\<exists>k' nx'. countChain nx h k = Ok (k', nx') \<and> links_ok b n nx' \<and>
    k' = k + length (chain nx' h) \<and> length nx' = length nx \<and> (\<forall>e > h. nx' ! e = nx ! e) \<and>
    (\<forall>h' \<le> n. b h' \<noteq> b h \<longrightarrow> chain nx' h' = chain nx h')"
  using assms(2-)
proof (induction h arbitrary: k rule: less_induct)
  case (less h)
  note l = links_okD [OF assms(1) less.prems(1,2)]
  show ?case
  proof (cases "k + 1 \<ge> maxChainLength")
    case True
    have cut: "chain (nx[h := 0]) h = [h]"
      using less.prems(1) l(1) by (simp add: chain.simps [of "nx[h := 0]" h])
    have "chain (nx[h := 0]) h' = chain nx h'" if "h' \<le> n" "b h' \<noteq> b h" for h'
      using assms(1) that(1) by (rule chain_cut_other) (use chain_bucket [OF assms(1) that(1)] that(2) in auto)
    with True l(1) cut links_ok_cut [OF assms(1)] show ?thesis
      by (simp add: countChain.simps [of nx h k])
  next
    case False
    show ?thesis
    proof (cases "nx ! h = 0")
      case True
      then have "chain nx h = [h]" using chain_step [OF less.prems(1) l(2)] by simp
      with True False l(1) assms(1) show ?thesis by (simp add: countChain.simps [of nx h k])
    next
      case nz: False
      have "k + 1 < maxChainLength" using False by simp
      then obtain k' nx' where IH: "countChain nx (nx ! h) (k + 1) = Ok (k', nx')" "links_ok b n nx'"
        "k' = k + 1 + length (chain nx' (nx ! h))" "length nx' = length nx"
        "\<forall>e > nx ! h. nx' ! e = nx ! e"
        "\<forall>h' \<le> n. b h' \<noteq> b (nx ! h) \<longrightarrow> chain nx' h' = chain nx h'"
        using less.IH [OF l(2) _ l(3)] nz by blast
      have same: "nx' ! h = nx ! h" using IH(5) l(2) by simp
      then have "chain nx' h = h # chain nx' (nx ! h)"
        using chain_step [OF less.prems(1), of nx'] l(2) by simp
      moreover have "b (nx ! h) = b h" using l(4) nz .
      ultimately show ?thesis
        using IH l(1,2) False nz by (simp add: countChain.simps [of nx h k])
    qed
  qed
qed


abbreviation heads :: "nat list \<Rightarrow> nat list" where
  "heads hs \<equiv> filter (\<lambda>h. h \<noteq> 0) hs"

lemma countEntries_loop_Ok:
  assumes "links_ok b n nx" and "\<forall>h \<in> set hs. h \<le> n" and "distinct (map b (heads hs))"
  shows "\<exists>cnt' nx'. countEntries_loop nx hs cnt = Ok (cnt', nx') \<and> links_ok b n nx' \<and>
    cnt' = cnt + (\<Sum>h\<leftarrow>hs. length (chain nx' h)) \<and> length nx' = length nx \<and>
    (\<forall>h' \<le> n. b h' \<notin> b ` set (heads hs) \<longrightarrow> chain nx' h' = chain nx h')"
  using assms
proof (induction hs arbitrary: nx cnt)
  case Nil
  then show ?case by simp
next
  case (Cons h hs)
  show ?case
  proof (cases "h = 0")
    case True
    with Cons show ?thesis by simp
  next
    case False
    then have h: "0 < h" "h \<le> n" using Cons.prems(2) by simp_all
    obtain k nx1 where one: "countChain nx h 0 = Ok (k, nx1)" "links_ok b n nx1"
      "k = length (chain nx1 h)" "length nx1 = length nx"
      "\<forall>h' \<le> n. b h' \<noteq> b h \<longrightarrow> chain nx1 h' = chain nx h'"
      using countChain_Ok [OF Cons.prems(1) h, of 0] by (auto simp: maxChainLength_def)
    obtain cnt' nx' where rest: "countEntries_loop nx1 hs (cnt + k) = Ok (cnt', nx')"
      "links_ok b n nx'" "cnt' = cnt + k + (\<Sum>h\<leftarrow>hs. length (chain nx' h))" "length nx' = length nx1"
      "\<forall>h' \<le> n. b h' \<notin> b ` set (heads hs) \<longrightarrow> chain nx' h' = chain nx1 h'"
      using Cons.IH [OF one(2), of "cnt + k"] Cons.prems(2,3) by (auto split: if_splits)
    have "b h \<notin> b ` set (heads hs)" using Cons.prems(3) False by auto
    then have "chain nx' h = chain nx1 h" using rest(5) h(2) by blast
    with False one rest show ?thesis by (auto split: if_splits)
  qed
qed

lemma copyChain_Ok:
  assumes "links_ok b n (sc_next sc)" and "n < length (sc_entries sc)" and "0 < h" and "h \<le> n"
    and "nxt + length (chain (sc_next sc) h) \<le> length es"
  shows "\<exists>es'. copyChain sc h es nxt = Ok (es', nxt + length (chain (sc_next sc) h)) \<and>
    length es' = length es"
  using assms(3-)
proof (induction h arbitrary: es nxt rule: less_induct)
  case (less h)
  note l = links_okD [OF assms(1) less.prems(1,2)]
  have step: "chain (sc_next sc) h = h # chain (sc_next sc) (sc_next sc ! h)"
    using chain_step [OF less.prems(1) l(2)] .
  have "h < length (sc_entries sc)" using less.prems(2) assms(2) by simp
  moreover have "nxt < length es" using less.prems(3) step by simp
  moreover have "\<exists>es'. copyChain sc (sc_next sc ! h) (es[nxt := sc_entries sc ! h]) (nxt + 1) =
      Ok (es', nxt + 1 + length (chain (sc_next sc) (sc_next sc ! h))) \<and> length es' = length es"
    if "sc_next sc ! h \<noteq> 0"
    using less.IH [OF l(2) _ l(3), of "nxt + 1" "es[nxt := sc_entries sc ! h]"] that less.prems(3) step
    by simp
  ultimately show ?case
    using l(1) step by (auto simp: copyChain.simps [of sc h es nxt])
qed

lemma copyEntries_loop_Ok:
  assumes "links_ok b n (sc_next sc)" and "n < length (sc_entries sc)" and "\<forall>h \<in> set hs. h \<le> n"
    and "nxt + (\<Sum>h\<leftarrow>hs. length (chain (sc_next sc) h)) \<le> length es"
  shows "\<exists>tb es'. copyEntries_loop sc hs es nxt = Ok (tb, es') \<and> length es' = length es \<and>
    length tb = length hs \<and> (\<forall>t \<in> set tb. t < length es \<or> t = 0)"
  using assms(3-)
proof (induction hs arbitrary: es nxt)
  case Nil
  then show ?case by simp
next
  case (Cons h hs)
  show ?case
  proof (cases "h = 0")
    case True
    with Cons show ?thesis by fastforce
  next
    case False
    then have h: "0 < h" "h \<le> n" using Cons.prems(1) by simp_all
    have ne: "chain (sc_next sc) h \<noteq> []" using h by (simp add: chain.simps)
    obtain es1 where "copyChain sc h es nxt = Ok (es1, nxt + length (chain (sc_next sc) h))"
      "length es1 = length es"
      using copyChain_Ok [OF assms(1,2) h, of nxt es] Cons.prems(2) by auto
    moreover obtain tb es' where
      "copyEntries_loop sc hs es1 (nxt + length (chain (sc_next sc) h)) = Ok (tb, es')"
      "length es' = length es1" "length tb = length hs" "\<forall>t \<in> set tb. t < length es1 \<or> t = 0"
      using Cons.IH [of "nxt + length (chain (sc_next sc) h)" es1] Cons.prems calculation(2)
      by (auto simp: add.assoc)
    moreover have "nxt < length es" using Cons.prems(2) ne by (cases "chain (sc_next sc) h") auto
    ultimately show ?thesis using False by auto
  qed
qed

text \<open>What the index promises: every slot of its table names an entry it has.\<close>

definition index_ok :: "bytes \<Rightarrow> deltaIndex \<Rightarrow> bool" where
  "index_ok src index \<longleftrightarrow>
     di_entries index \<noteq> [] \<and>
     (blksz \<le> length src \<longrightarrow>
        0 < length (di_table index) \<and> di_mask index = length (di_table index) - 1 \<and>
        (\<forall>t \<in> set (di_table index). t < length (di_entries index)))"

lemma chains_ok_links: "chains_ok b n nx tb \<Longrightarrow> links_ok b n nx"
  by (simp add: chains_ok_def links_ok_def)

lemma distinct_heads:
  "\<forall>i < length tb. tb ! i \<noteq> 0 \<longrightarrow> b (tb ! i) = i \<Longrightarrow>
     distinct (map b (heads tb)) \<and> (\<forall>v \<in> set (map b (heads tb)). v < length tb)"
proof (induction tb rule: rev_induct)
  case Nil
  then show ?case by simp
next
  case (snoc h tb)
  have "b (tb ! i) = i" if "i < length tb" "tb ! i \<noteq> 0" for i
    using snoc.prems [rule_format, of i] that by (simp add: nth_append)
  then have IH: "distinct (map b (heads tb))" "\<forall>v \<in> set (map b (heads tb)). v < length tb"
    using snoc.IH by blast+
  have "h \<noteq> 0 \<Longrightarrow> b h = length tb" using snoc.prems [rule_format, of "length tb"] by simp
  with IH show ?case by (cases "h = 0") (fastforce simp: less_Suc_eq)+
qed

lemma chains_ok_heads:
  assumes "chains_ok b n nx tb"
  shows "distinct (map b (heads tb))" and "\<forall>h \<in> set tb. h \<le> n"
proof -
  show "distinct (map b (heads tb))"
    using assms distinct_heads [of tb b] by (auto simp: chains_ok_def)
  show "\<forall>h \<in> set tb. h \<le> n"
    using assms by (auto simp: chains_ok_def in_set_conv_nth)
qed

lemma deltaIndex_init_Ok:
  assumes "length buf < 2 ^ 36"
  shows "\<exists>index'. deltaIndex_init index buf = Ok index' \<and> index_ok buf index'"
proof -
  obtain s where s: "newDeltaIndexScanner buf (length buf) = Ok s"
    and cases: "length buf < blksz \<and> s = emptyScanner \<or>
      blksz \<le> length buf \<and> scan_inv (length buf div blksz) (length buf div blksz) s"
    using newDeltaIndexScanner_Ok [OF assms] by blast
  from cases show ?thesis
  proof
    assume "length buf < blksz \<and> s = emptyScanner"
    then show ?thesis using s
      by (simp add: deltaIndex_init_def countEntries_def copyEntries_def emptyScanner_def index_ok_def)
  next
    let ?n = "length buf div blksz"
    assume a: "blksz \<le> length buf \<and> scan_inv ?n ?n s"
    then obtain b where b: "chains_ok b (sc_count s) (sc_next s) (sc_table s)"
      by (auto simp: scan_inv_def)
    note heads = chains_ok_heads [OF b]
    obtain cnt nx where c: "countEntries_loop (sc_next s) (sc_table s) 0 = Ok (cnt, nx)"
      "links_ok b (sc_count s) nx" "cnt = (\<Sum>h\<leftarrow>sc_table s. length (chain nx h))"
      using countEntries_loop_Ok [OF chains_ok_links [OF b] heads(2,1), of 0] by auto
    let ?sc = "s\<lparr>sc_next := nx\<rparr>"
    have "links_ok b (sc_count s) (sc_next ?sc)" "sc_count s < length (sc_entries ?sc)"
      "1 + (\<Sum>h\<leftarrow>sc_table s. length (chain (sc_next ?sc) h)) \<le> length (replicate (cnt + 1) 0)"
      using a c by (simp_all add: scan_inv_def)
    from copyEntries_loop_Ok [OF this(1,2) heads(2) this(3)] obtain tb es where
      "copyEntries_loop ?sc (sc_table s) (replicate (cnt + 1) 0) 1 = Ok (tb, es)"
      "length es = cnt + 1" "length tb = length (sc_table s)" "\<forall>t \<in> set tb. t < cnt + 1 \<or> t = 0"
      by (auto simp del: replicate.simps)
    with s c(1) a show ?thesis
      by (auto simp: deltaIndex_init_def countEntries_def copyEntries_def index_ok_def scan_inv_def
          simp del: replicate.simps)
  qed
qed

section \<open>Matches are sound\<close>

lemma matchLength_lists_le: "matchLength_lists xs ys \<le> length xs \<and> matchLength_lists xs ys \<le> length ys"
  by (induction xs ys rule: matchLength_lists.induct) auto

lemma matchLength_lists_take:
  "take (matchLength_lists xs ys) xs = take (matchLength_lists xs ys) ys"
  by (induction xs ys rule: matchLength_lists.induct) auto

lemma matchLength_sound:
  assumes "matchLength src tgt otgt osrc = l"
  shows "take l (drop osrc src) = take l (drop otgt tgt)"
    and "l \<le> length src - osrc" and "l \<le> length tgt - otgt"
  using assms matchLength_lists_take [of "drop osrc src" "drop otgt tgt"]
    matchLength_lists_le [of "drop osrc src" "drop otgt tgt"]
  by (auto simp: matchLength_def)


text \<open>
  A match at a target position is no match (0), no index (negative), or a length inside the
  target; a match of a block or more repeats the source at the offset it names.
\<close>

definition match_ok :: "bytes \<Rightarrow> bytes \<Rightarrow> nat \<Rightarrow> nat \<Rightarrow> int \<Rightarrow> bool" where
  "match_ok src tgt i off l \<longleftrightarrow>
     l \<le> 0 \<or>
     i + nat l \<le> length tgt \<and>
     (16 \<le> l \<longrightarrow> off + nat l \<le> length src \<and> take (nat l) (drop off src) = take (nat l) (drop i tgt))"

text \<open>The interface the delta encoder relies on: a finder for the sources it covers.\<close>

locale match_finder =
  fixes find :: "bytes \<Rightarrow> bytes \<Rightarrow> nat \<Rightarrow> (nat \<times> int) result"
    and covers :: "bytes \<Rightarrow> bool"
  assumes find_ok: "covers src \<Longrightarrow> i < length tgt \<Longrightarrow>
    \<exists>off l. find src tgt i = Ok (off, l) \<and> match_ok src tgt i off l"

lemma findMatch_ok:
  assumes "index_ok src index" and "i < length tgt"
  shows "\<exists>off l. findMatch index src tgt i = Ok (off, l) \<and> match_ok src tgt i off l"
proof -
  consider (rest) "length tgt < i + 16"
    | (small) "\<not> length tgt < i + 16" "length src < blksz"
    | (block) "\<not> length tgt < i + 16" "blksz \<le> length src" by linarith
  then show ?thesis
  proof cases
    case rest
    with assms(2) show ?thesis by (simp add: findMatch_def match_ok_def)
  next
    case small
    then show ?thesis by (simp add: findMatch_def match_ok_def)
  next
    case block
    then obtain h where h: "hashBlock tgt i = Ok h" using hashBlock_Ok [of i tgt] by auto
    let ?t = "h AND di_mask index"
    have t: "?t < length (di_table index)"
      using assms(1) block(2) and_mask_less [of "length (di_table index)" h] by (auto simp: index_ok_def)
    then have e: "di_table index ! ?t < length (di_entries index)"
      using assms(1) block(2) by (simp add: index_ok_def)
    let ?off = "di_entries index ! (di_table index ! ?t)"
    let ?l = "matchLength src tgt i ?off"
    have "match_ok src tgt i ?off (int ?l)"
      using matchLength_sound [OF refl, of src tgt i ?off] assms(2) by (auto simp: match_ok_def)
    moreover have "match_ok src tgt i 0 0" by (simp add: match_ok_def)
    ultimately show ?thesis using h t e block
      by (auto simp: findMatch_def Let_def)
  qed
qed

interpretation block_index: match_finder "findMatch index" "\<lambda>src. index_ok src index" for index
  by unfold_locales (rule findMatch_ok)

text \<open>
  C4. Building the index of any source below 64 GB stays inside its tables and ends, and every
  later look-up in it succeeds with a sound answer: a match of a block or more is a run of bytes
  that the source has at the offset found.
\<close>

theorem deltaIndex_sound:
  assumes "length src < 2 ^ 36"
  shows "\<exists>index. deltaIndex_init newDeltaIndex src = Ok index \<and>
    (\<forall>tgt. \<forall>i < length tgt. \<exists>off l.
       findMatch index src tgt i = Ok (off, l) \<and> match_ok src tgt i off l)"
proof -
  obtain index where "deltaIndex_init newDeltaIndex src = Ok index" and ok: "index_ok src index"
    using deltaIndex_init_Ok [OF assms] by blast
  moreover have "\<exists>off l. findMatch index src tgt i = Ok (off, l) \<and> match_ok src tgt i off l"
    if "i < length tgt" for tgt i
    using ok that by (rule block_index.find_ok)
  ultimately show ?thesis by blast
qed

theorem deltaIndex_sound_witness:
  "length (replicate 16 (7 :: byte)) < 2 ^ 36 \<and>
   (\<exists>index. deltaIndex_init newDeltaIndex (replicate 16 7) = Ok index \<and>
     (\<exists>off l. findMatch index (replicate 16 7) (9 # replicate 16 7) 1 = Ok (off, l) \<and>
        match_ok (replicate 16 7) (9 # replicate 16 7) 1 off l))"
proof -
  have len: "length (replicate 16 (7 :: byte)) < 2 ^ 36" by simp
  obtain index where "deltaIndex_init newDeltaIndex (replicate 16 7) = Ok index"
    and "\<And>tgt i. i < length tgt \<Longrightarrow> \<exists>off l. findMatch index (replicate 16 7) tgt i = Ok (off, l) \<and>
      match_ok (replicate 16 7) tgt i off l"
    using deltaIndex_sound [OF len] by blast
  moreover have "1 < length (9 # replicate 16 (7 :: byte))" by simp
  ultimately show ?thesis using len by blast
qed

end
