(* ===== verification/StreamDelta.thy ===== *)
theory StreamDelta
  imports PatchDelta
begin

text \<open>
  The streaming variants of \<^verbatim>\<open>plumbing/format/packfile/patch_delta.go\<close>: \<open>patchDeltaWriter\<close>,
  which writes to an \<^verbatim>\<open>io.Writer\<close> and hashes on the way, and \<open>ReaderFromDelta\<close>, whose goroutine
  feeds a pipe. Each is a loop over the delta's commands; what was written before the loop ended
  is part of the result.
\<close>

section \<open>patchDeltaWriter\<close>

text \<open>
  One command: \<open>Inl\<close> is a return from the function, \<open>Inr\<close> the delta that is left, the size that
  is left and the bytes copied to the writer and the hasher. The section reader serves the first
  \<open>srcSz\<close> bytes of the base; a copy that meets the end of its reader stops there without error,
  as \<^verbatim>\<open>io.CopyBuffer\<close> does. The checks that fail return the error variable of their scope, which
  is nil at that point.
\<close>

fun patchDeltaWriter_step ::
    "u64 \<Rightarrow> u64 \<Rightarrow> bytes \<Rightarrow> reader \<Rightarrow> u64 \<Rightarrow> (u64 \<times> ObjectID) result + (reader \<times> u64 \<times> bytes)" where
  "patchDeltaWriter_step srcSz targetSz base [] remaining = Inl (Error ErrInvalidDelta)"
| "patchDeltaWriter_step srcSz targetSz base (cmd # delta) remaining =
     (if isCopyFromSrc cmd then
        (case decodeOffsetByteReader cmd delta of
           Ok (offset, delta) \<Rightarrow>
             (case decodeSizeByteReader cmd delta of
                Ok (sz, delta) \<Rightarrow>
                  if invalidSize sz targetSz \<or> invalidOffsetSize offset sz srcSz
                  then Inl (Ok (0, ZeroHash))
                  else Inr (delta, remaining - sz,
                            take (unat sz) (drop (unat offset) (take (unat srcSz) base)))
              | Error e \<Rightarrow> Inl (Error e)
              | Panic \<Rightarrow> Inl Panic)
         | Error e \<Rightarrow> Inl (Error e)
         | Panic \<Rightarrow> Inl Panic)
      else if isCopyFromDelta cmd then
        (let sz = ucast cmd
         in if invalidSize sz targetSz then Inl (Error ErrInvalidDelta)
            else Inr (drop (unat sz) delta, remaining - sz, take (unat sz) delta))
      else Inl (Ok (0, ZeroHash)))"

lemma decodeOffsetByteReader_shrinks [shrinks]:
  "decodeOffsetByteReader cmd delta = Ok (v, delta') \<Longrightarrow> length delta' \<le> length delta"
  by (auto simp: decodeOffsetByteReader_def dest: decodeMasked_shrinks)

lemma decodeSizeByteReader_shrinks [shrinks]:
  "decodeSizeByteReader cmd delta = Ok (v, delta') \<Longrightarrow> length delta' \<le> length delta"
  by (auto simp: decodeSizeByteReader_def dest: decodeMasked_shrinks)

lemma patchDeltaWriter_step_shrinks [shrinks]:
  "patchDeltaWriter_step srcSz targetSz base delta remaining = Inr (delta', remaining', chunk) \<Longrightarrow>
     length delta' < length delta"
  by (cases delta)
    (auto simp: Let_def split: if_splits result.splits
      dest!: decodeOffsetByteReader_shrinks decodeSizeByteReader_shrinks)

function patchDeltaWriter_loop ::
    "digest \<Rightarrow> u64 \<Rightarrow> u64 \<Rightarrow> bytes \<Rightarrow> reader \<Rightarrow> u64 \<Rightarrow> bytes \<Rightarrow> Hasher \<Rightarrow> bytes \<times> (u64 \<times> ObjectID) result" where
  "patchDeltaWriter_loop sha srcSz targetSz base delta remaining dst hasher =
     (case patchDeltaWriter_step srcSz targetSz base delta remaining of
        Inl r \<Rightarrow> (dst, r)
      | Inr (delta', remaining', chunk) \<Rightarrow>
          (let dst' = dst @ chunk; hasher' = Hasher_Write hasher chunk
           in if remaining' \<le> 0 then (dst', Ok (targetSz, Hasher_Sum sha hasher'))
              else patchDeltaWriter_loop sha srcSz targetSz base delta' remaining' dst' hasher'))"
  by pat_completeness auto
termination
  by (relation "measure (\<lambda>(sha, srcSz, targetSz, base, delta, remaining, dst, hasher). length delta)")
    (auto dest: patchDeltaWriter_step_shrinks)

declare patchDeltaWriter_loop.simps [simp del]

definition eofToInvalidDelta :: "error \<Rightarrow> error" where
  "eofToInvalidDelta e = (if e = EOF then ErrInvalidDelta else e)"

text \<open>
  The whole function: \<open>bytesReader\<close> says whether the base is a \<^verbatim>\<open>*bytes.Reader\<close> (whose size is
  checked), \<open>bufferDst\<close> whether the destination is a \<^verbatim>\<open>*bytes.Buffer\<close> (which is grown, and panics
  on a negative count), \<open>writeHeader\<close> is the caller's optional header writer, which answers the
  bytes it wrote or an error.
\<close>

definition patchDeltaWriter ::
    "digest \<Rightarrow> bool \<Rightarrow> bool \<Rightarrow> bytes \<Rightarrow> bytes \<Rightarrow> reader \<Rightarrow> ObjectType \<Rightarrow>
     (ObjectType \<Rightarrow> int \<Rightarrow> bytes result) option \<Rightarrow> bytes \<times> (u64 \<times> ObjectID) result" where
  "patchDeltaWriter sha bytesReader bufferDst dst base delta typ writeHeader =
     (case decodeLEB128ByteReader delta of
        Error e \<Rightarrow> (dst, Error (eofToInvalidDelta e))
      | Panic \<Rightarrow> (dst, Panic)
      | Ok (srcSz, delta) \<Rightarrow>
          if bytesReader \<and> srcSz \<noteq> word_of_nat (length base) then (dst, Error ErrInvalidDelta)
          else case decodeLEB128ByteReader delta of
                 Error e \<Rightarrow> (dst, Error (eofToInvalidDelta e))
               | Panic \<Rightarrow> (dst, Panic)
               | Ok (targetSz, delta) \<Rightarrow>
                   if bufferDst \<and> sint targetSz < 0 then (dst, Panic)
                   else case (case writeHeader of None \<Rightarrow> Ok [] | Some wh \<Rightarrow> wh typ (sint targetSz)) of
                          Error e \<Rightarrow> (dst, Error (Wrapped ''could not lazy write header'' e))
                        | Panic \<Rightarrow> (dst, Panic)
                        | Ok hdr \<Rightarrow>
                            patchDeltaWriter_loop sha srcSz targetSz base delta targetSz (dst @ hdr)
                              (NewHasher SHA1 typ (sint targetSz)))"

section \<open>ReaderFromDelta\<close>

text \<open>
  The goroutine's state: the delta that is left, the base reader (its bytes that are left), the
  position the goroutine believes that reader to be at, the size left and the bytes piped so far.
  The pipe ends with \<open>None\<close> for a plain close and with the error given to \<^verbatim>\<open>CloseWithError\<close>.
\<close>

record rfd_state =
  rfd_delta :: reader
  rfd_base :: reader
  rfd_pos :: u64
  rfd_remaining :: u64
  rfd_out :: bytes

text \<open>
  Discarding from the buffered base reader, in steps of at most \<^verbatim>\<open>math.MaxInt32\<close>; the first step
  that meets the end of the reader ends the goroutine with the reader's error.
\<close>

definition MaxInt32 :: u64 where
  "MaxInt32 = 2147483647"

definition discardBase :: "u64 \<Rightarrow> reader \<Rightarrow> reader option" where
  "discardBase n r = (if unat n \<le> length r then Some (drop (unat n) r) else None)"

function discardBase_loop :: "u64 \<Rightarrow> u64 \<Rightarrow> reader \<Rightarrow> (u64 \<times> reader) option" where
  "discardBase_loop discard pos r =
     (if discard > MaxInt32
      then (case discardBase MaxInt32 r of
              None \<Rightarrow> None
            | Some r' \<Rightarrow> discardBase_loop (discard - MaxInt32) (pos + MaxInt32) r')
      else if discard > 0
      then (case discardBase discard r of
              None \<Rightarrow> None
            | Some r' \<Rightarrow> Some (pos + discard, r'))
      else Some (pos, r))"
  by pat_completeness auto
termination
proof (relation "measure (\<lambda>(discard, pos, r). unat discard)")
  fix discard pos :: u64 and r r'
  assume "MaxInt32 < discard"
  then have "unat (discard - MaxInt32) < unat discard"
    by (simp add: unat_sub word_less_nat_alt MaxInt32_def less_imp_le)
  then show "((discard - MaxInt32, pos + MaxInt32, r'), discard, pos, r)
      \<in> measure (\<lambda>(discard, pos, r). unat discard)" by simp
qed simp

declare discardBase_loop.simps [simp del]

fun readerFromDelta_step ::
    "bytes \<Rightarrow> u64 \<Rightarrow> u64 \<Rightarrow> rfd_state \<Rightarrow> (error option) + rfd_state" where
  "readerFromDelta_step base srcSz targetSz st =
     (case rfd_delta st of
        [] \<Rightarrow> Inl (Some ErrInvalidDelta)
      | cmd # delta \<Rightarrow>
          if isCopyFromSrc cmd then
            (case decodeOffsetByteReader cmd delta of
               Ok (offset, delta) \<Rightarrow>
                 (case decodeSizeByteReader cmd delta of
                    Ok (sz, delta) \<Rightarrow>
                      if invalidSize sz targetSz \<or> invalidOffsetSize offset sz srcSz then Inl None
                      else
                        let reopen = rfd_pos st > offset;
                            baseBuf = (if reopen then base else rfd_base st);
                            discard = (if reopen then offset else offset - rfd_pos st)
                        in (case discardBase_loop discard (rfd_pos st) baseBuf of
                              None \<Rightarrow> Inl (Some EOF)
                            | Some (pos, baseBuf) \<Rightarrow>
                                Inr (st\<lparr>rfd_delta := delta,
                                        rfd_base := drop (unat sz) baseBuf,
                                        rfd_pos := pos + sz,
                                        rfd_remaining := rfd_remaining st - sz,
                                        rfd_out := rfd_out st @ take (unat sz) baseBuf\<rparr>))
                  | Error e \<Rightarrow> Inl (Some e)
                  | Panic \<Rightarrow> Inl None)
             | Error e \<Rightarrow> Inl (Some e)
             | Panic \<Rightarrow> Inl None)
          else if isCopyFromDelta cmd then
            (let sz = ucast cmd
             in if invalidSize sz targetSz then Inl (Some ErrInvalidDelta)
                else Inr (st\<lparr>rfd_delta := drop (unat sz) delta,
                             rfd_remaining := rfd_remaining st - sz,
                             rfd_out := rfd_out st @ take (unat sz) delta\<rparr>))
          else Inl (Some ErrDeltaCmd))"

lemma readerFromDelta_step_shrinks [shrinks]:
  "readerFromDelta_step base srcSz targetSz st = Inr st' \<Longrightarrow>
     length (rfd_delta st') < length (rfd_delta st)"
  by (auto simp: Let_def split: if_splits result.splits list.splits option.splits
      dest!: decodeOffsetByteReader_shrinks decodeSizeByteReader_shrinks)

declare readerFromDelta_step.simps [simp del]

function readerFromDelta_loop :: "bytes \<Rightarrow> u64 \<Rightarrow> u64 \<Rightarrow> rfd_state \<Rightarrow> bytes \<times> error option" where
  "readerFromDelta_loop base srcSz targetSz st =
     (case readerFromDelta_step base srcSz targetSz st of
        Inl e \<Rightarrow> (rfd_out st, e)
      | Inr st' \<Rightarrow>
          if rfd_remaining st' \<le> 0 then (rfd_out st', None)
          else readerFromDelta_loop base srcSz targetSz st')"
  by pat_completeness auto
termination
  by (relation "measure (\<lambda>(base, srcSz, targetSz, st). length (rfd_delta st))")
    (auto dest: readerFromDelta_step_shrinks)

declare readerFromDelta_loop.simps [simp del]

text \<open>The bytes the returned reader yields and how it ends, or the error of the call itself.\<close>

definition ReaderFromDelta :: "MemoryObject \<Rightarrow> reader \<Rightarrow> (bytes \<times> error option) result" where
  "ReaderFromDelta base deltaRC =
     (case decodeLEB128ByteReader deltaRC of
        Error e \<Rightarrow> Error (eofToInvalidDelta e)
      | Panic \<Rightarrow> Panic
      | Ok (srcSz, delta) \<Rightarrow>
          if srcSz \<noteq> word_of_int (mo_sz base) then Error ErrInvalidDelta
          else case decodeLEB128ByteReader delta of
                 Error e \<Rightarrow> Error (eofToInvalidDelta e)
               | Panic \<Rightarrow> Panic
               | Ok (targetSz, delta) \<Rightarrow>
                   Ok (readerFromDelta_loop (MemoryObject_Reader base) srcSz targetSz
                         \<lparr>rfd_delta = delta, rfd_base = MemoryObject_Reader base, rfd_pos = 0,
                          rfd_remaining = targetSz, rfd_out = []\<rparr>))"

section \<open>Divergences of the streaming routines\<close>

text \<open>
  \<^verbatim>\<open>patchDeltaWriter\<close> reports success where the slice routine reports a corrupt delta: on an
  insert whose bytes are missing it writes a short object under the announced size, and on the
  reserved command 0 and on a copy outside the source it returns a nil error with a zero hash.
\<close>

theorem patchDeltaWriter_accepts_corrupt:
  "PatchDelta [1, 2, 3] [3, 2, 2, 9] = Error ErrInvalidDelta \<and>
   patchDeltaWriter toy_sha True False [] [1, 2, 3] [3, 2, 2, 9] BlobObject None =
     ([9], Ok (2, Hasher_Sum toy_sha (Hasher_Write (NewHasher SHA1 BlobObject 2) [9]))) \<and>
   PatchDelta [1, 2, 3] [3, 2, 0, 9] = Error ErrDeltaCmd \<and>
   patchDeltaWriter toy_sha True False [] [1, 2, 3] [3, 2, 0, 9] BlobObject None =
     ([], Ok (0, ZeroHash)) \<and>
   patchDeltaWriter toy_sha True False [] [1, 2, 3] [3, 2, 145, 2, 2] BlobObject None =
     ([], Ok (0, ZeroHash))"
  by code_simp

end
