(* ===== verification/DiffDelta.thy ===== *)
theory DiffDelta
  imports DeltaIndex StreamDelta
begin

text \<open>
  Encoding a delta: \<^verbatim>\<open>plumbing/format/packfile/diff_delta.go\<close>, with \<open>GetDelta\<close> and \<open>ApplyDelta\<close>
  over objects in memory. Lengths and positions are \<open>nat\<close> (Go's non-negative \<open>int\<close>).
\<close>

section \<open>Encoding numbers and commands\<close>

fun deltaEncodeSize_loop :: "nat \<Rightarrow> nat \<Rightarrow> bytes" where
  "deltaEncodeSize_loop c sz =
     (if sz = 0 then [word_of_nat c]
      else word_of_nat (c OR 0x80) # deltaEncodeSize_loop (sz AND 0x7f) (drop_bit 7 sz))"

declare deltaEncodeSize_loop.simps [simp del]

definition deltaEncodeSize :: "nat \<Rightarrow> bytes" where
  "deltaEncodeSize sz = deltaEncodeSize_loop (sz AND 0x7f) (drop_bit 7 sz)"

text \<open>
  The two loops of \<^verbatim>\<open>encodeCopyOperation\<close>: for each byte of the value that is not zero, its mask
  in the command and the byte among the operands.
\<close>

fun encodeCopy_loop :: "nat list \<Rightarrow> nat \<Rightarrow> nat \<Rightarrow> nat \<Rightarrow> bytes \<Rightarrow> nat \<times> bytes" where
  "encodeCopy_loop [] m v code opcodes = (code, opcodes)"
| "encodeCopy_loop (i # is) m v code opcodes =
     (let f = push_bit (i * 8) 0xff
      in if v AND f \<noteq> 0
         then encodeCopy_loop is m v (code OR push_bit i m)
                (opcodes @ [word_of_nat (drop_bit (i * 8) (v AND f))])
         else encodeCopy_loop is m v code opcodes)"

definition encodeCopyOperation :: "nat \<Rightarrow> nat \<Rightarrow> bytes" where
  "encodeCopyOperation offset len =
     (let (code1, opcodes1) = encodeCopy_loop [0, 1, 2, 3] 0x01 offset 0x80 [];
          (code2, opcodes2) = encodeCopy_loop [0, 1, 2] 0x10 len code1 opcodes1
      in word_of_nat code2 # opcodes2)"

function encodeInsert_loop :: "bytes \<Rightarrow> nat \<Rightarrow> nat \<Rightarrow> bytes \<Rightarrow> bytes" where
  "encodeInsert_loop b s off buf =
     (if s \<le> 127 then buf @ [word_of_nat s] @ take s (drop off b)
      else encodeInsert_loop b (s - 127) (off + 127) (buf @ [127] @ take 127 (drop off b)))"
  by pat_completeness auto
termination
  by (relation "measure (\<lambda>(b, s, off, buf). s)") auto

declare encodeInsert_loop.simps [simp del]

text \<open>The buffer with the pending bytes flushed into it; the caller resets the pending ones.\<close>

definition encodeInsertOperation :: "bytes \<Rightarrow> bytes \<Rightarrow> bytes" where
  "encodeInsertOperation ibuf buf =
     (if length ibuf = 0 then buf else encodeInsert_loop ibuf (length ibuf) 0 buf)"

function encodeCopies :: "nat \<Rightarrow> nat \<Rightarrow> bytes \<Rightarrow> bytes" where
  "encodeCopies rl aOffset buf =
     (if rl > 0
      then if rl < maxCopySize then buf @ encodeCopyOperation aOffset rl
           else encodeCopies (rl - maxCopySize) (aOffset + maxCopySize)
                  (buf @ encodeCopyOperation aOffset maxCopySize)
      else buf)"
  by pat_completeness auto
termination
  by (relation "measure (\<lambda>(rl, aOffset, buf). rl)") (auto simp: maxCopySize_def)

declare encodeCopies.simps [simp del]

section \<open>The encoder\<close>

text \<open>
  The loop over the target: the position, the pending bytes \<open>ibuf\<close> and the output \<open>buf\<close>. \<open>fm\<close>
  is the method \<^verbatim>\<open>findMatch\<close> of the index.
\<close>

function diffDelta_loop ::
    "(bytes \<Rightarrow> bytes \<Rightarrow> nat \<Rightarrow> (nat \<times> int) result) \<Rightarrow> bytes \<Rightarrow> bytes \<Rightarrow> nat \<Rightarrow> bytes \<Rightarrow> bytes \<Rightarrow> bytes result" where
  "diffDelta_loop fm src tgt i ibuf buf =
     (if i < length tgt
      then rbind (fm src tgt i) (\<lambda>(offset, l).
             if l = 0 then diffDelta_loop fm src tgt (i + 1) (ibuf @ [tgt ! i]) buf
             else if l < 0 then diffDelta_loop fm src tgt (length tgt + 1) (ibuf @ drop i tgt) buf
             else if l < 16
             then rbind (slice tgt i (i + nat l)) (\<lambda>bs.
                    diffDelta_loop fm src tgt (i + (nat l - 1) + 1) (ibuf @ bs) buf)
             else diffDelta_loop fm src tgt (i + (nat l - 1) + 1) []
                    (encodeCopies (nat l) offset (encodeInsertOperation ibuf buf)))
      else Ok (encodeInsertOperation ibuf buf))"
  by pat_completeness auto
termination
  by (relation "measure (\<lambda>(fm, src, tgt, i, ibuf, buf). length tgt - i)") auto

declare diffDelta_loop.simps [simp del]

definition diffDelta :: "deltaIndex \<Rightarrow> bytes \<Rightarrow> bytes \<Rightarrow> (bytes \<times> deltaIndex) result" where
  "diffDelta index src tgt =
     (let buf = deltaEncodeSize (length src) @ deltaEncodeSize (length tgt)
      in rbind (if length (di_entries index) = 0 then deltaIndex_init index src else Ok index) (\<lambda>index'.
         rbind (diffDelta_loop (findMatch index') src tgt 0 [] buf) (\<lambda>out. Ok (out, index'))))"

definition DiffDelta :: "bytes \<Rightarrow> bytes \<Rightarrow> bytes result" where
  "DiffDelta src tgt = rbind (diffDelta newDeltaIndex src tgt) (\<lambda>(out, index). Ok out)"

section \<open>Deltas between objects\<close>

definition getDelta :: "deltaIndex \<Rightarrow> MemoryObject \<Rightarrow> MemoryObject \<Rightarrow> (MemoryObject \<times> deltaIndex) result" where
  "getDelta index base target =
     rbind (diffDelta index (MemoryObject_Reader base) (MemoryObject_Reader target)) (\<lambda>(db, index').
       let delta = MemoryObject_Write newMemoryObject db;
           delta = MemoryObject_SetSize delta (int (length db));
           delta = MemoryObject_SetType delta OFSDeltaObject
       in Ok (delta, index'))"

definition GetDelta :: "MemoryObject \<Rightarrow> MemoryObject \<Rightarrow> MemoryObject result" where
  "GetDelta base target = rbind (getDelta newDeltaIndex base target) (\<lambda>(delta, index). Ok delta)"

definition ApplyDelta :: "MemoryObject \<Rightarrow> MemoryObject \<Rightarrow> bytes \<Rightarrow> MemoryObject result" where
  "ApplyDelta target base delta =
     rbind (patchDelta [] (MemoryObject_Reader base) delta) (\<lambda>dst.
       let target = MemoryObject_SetSize target (int (length dst))
       in Ok (if dst = [] then target else MemoryObject_Write target dst))"


section \<open>The numbers of a delta\<close>

lemma byte_ge_128: "m < 128 \<Longrightarrow> (word_of_nat (m OR 128) :: byte) = 128 + word_of_nat m"
  using or_continue [of m] by (simp add: of_nat_or_eq or.commute)

lemma deltaEncodeSize_loop_decode:
  assumes "c < 128" and "a < 2 ^ (7 * sz)" and "a + (c + 128 * n) * 2 ^ (7 * sz) < 2 ^ 64"
  shows "decodeLEB128_loop (word_of_nat a) sz (deltaEncodeSize_loop c n @ rest) =
           (word_of_nat (a + (c + 128 * n) * 2 ^ (7 * sz)), rest) \<and>
         decodeLEB128ByteReader_loop (word_of_nat a) sz (deltaEncodeSize_loop c n @ rest) =
           Ok (word_of_nat (a + (c + 128 * n) * 2 ^ (7 * sz)), rest)"
  using assms
proof (induction c n arbitrary: a sz rule: deltaEncodeSize_loop.induct)
  case (1 c n)
  have a: "a < 2 ^ LENGTH(64)" using 1(4) by simp
  have num: "(word_of_nat a OR push_bit (sz * 7) (word_of_nat c) :: u64) = word_of_nat (a + c * 2 ^ (7 * sz))"
    using or_push_bit_of_nat [of a "7 * sz" c, where 'a = 64] 1(3) a by (simp add: mult.commute)
  show ?case
  proof (cases "n = 0")
    case True
    then show ?thesis using 1(2) num
      by (simp add: deltaEncodeSize_loop.simps [of c 0] ucast_and_0x7f byte_and_maskContinue unat_byte_of_nat)
  next
    case False
    have "a + c * 2 ^ (7 * sz) < 2 ^ (7 * Suc sz)"
    proof -
      have "a + c * 2 ^ (7 * sz) < (c + 1) * 2 ^ (7 * sz)" using 1(3) by simp
      also have "\<dots> \<le> 128 * 2 ^ (7 * sz)" using 1(2) by (intro mult_right_mono) simp_all
      finally show ?thesis by (simp add: power_add)
    qed
    moreover have eq: "a + c * 2 ^ (7 * sz) + ((n AND 127) + 128 * drop_bit 7 n) * 2 ^ (7 * Suc sz) =
        a + (c + 128 * n) * 2 ^ (7 * sz)"
      by (simp add: power_add algebra_simps)
    moreover have "n AND 127 < 128" by simp
    ultimately have "decodeLEB128_loop (word_of_nat (a + c * 2 ^ (7 * sz))) (Suc sz)
          (deltaEncodeSize_loop (n AND 127) (drop_bit 7 n) @ rest) =
          (word_of_nat (a + (c + 128 * n) * 2 ^ (7 * sz)), rest) \<and>
        decodeLEB128ByteReader_loop (word_of_nat (a + c * 2 ^ (7 * sz))) (Suc sz)
          (deltaEncodeSize_loop (n AND 127) (drop_bit 7 n) @ rest) =
          Ok (word_of_nat (a + (c + 128 * n) * 2 ^ (7 * sz)), rest)"
      using 1(1) [OF False, of "a + c * 2 ^ (7 * sz)" "Suc sz", unfolded eq] 1(4) by blast
    moreover have "deltaEncodeSize_loop (n mod 128) (n div 128) \<noteq> []"
      by (subst deltaEncodeSize_loop.simps) simp
    moreover have "unat (128 + word_of_nat c :: byte) = 128 + c"
      using 1(2) unat_byte_of_nat [of "128 + c"] by simp
    ultimately show ?thesis using False 1(2) num
      by (simp add: deltaEncodeSize_loop.simps [of c n] byte_ge_128 ucast_and_0x7f byte_and_maskContinue' del: of_nat_add)
  qed
qed

lemma deltaEncodeSize_nonempty [simp]: "deltaEncodeSize n \<noteq> []"
  unfolding deltaEncodeSize_def by (subst deltaEncodeSize_loop.simps) simp

lemma decodeLEB128_deltaEncodeSize:
  assumes "n < 2 ^ 64"
  shows "decodeLEB128 (deltaEncodeSize n @ rest) = (word_of_nat n, rest)"
    and "decodeLEB128ByteReader (deltaEncodeSize n @ rest) = Ok (word_of_nat n, rest)"
  using deltaEncodeSize_loop_decode [of "n mod 128" 0 0 "n div 128" rest] assms deltaEncodeSize_nonempty [of n]
  by (simp_all add: decodeLEB128_def decodeLEB128ByteReader_def deltaEncodeSize_def)

section \<open>The operands of a copy command\<close>

definition byteAt :: "nat \<Rightarrow> nat \<Rightarrow> nat" where
  "byteAt v i = v div 2 ^ (8 * i) mod 256"

lemma and_byte_field: "v AND push_bit (i * 8) 255 = push_bit (i * 8) (byteAt v i)" for v :: nat
proof -
  have "byteAt v i = take_bit 8 (drop_bit (8 * i) v)"
    by (simp add: byteAt_def take_bit_eq_mod drop_bit_eq_div)
  moreover have "v AND push_bit (i * 8) (mask 8) = push_bit (i * 8) (take_bit 8 (drop_bit (8 * i) v))"
    by (rule bit_eqI)
      (auto simp: bit_and_iff bit_push_bit_iff bit_mask_iff bit_take_bit_iff bit_drop_bit_eq mult.commute)
  moreover have "(255::nat) = mask 8" by (simp add: mask_eq_exp_minus_1)
  ultimately show ?thesis by (simp only:)
qed

lemma drop_push_nat: "drop_bit k (push_bit k n) = n" for n :: nat
  by (simp add: drop_bit_eq_div push_bit_eq_mult)

lemma bit_and_exp: "bit w n \<longleftrightarrow> w AND 2 ^ n \<noteq> 0" for w :: byte
  by (simp add: bit_iff_and_push_bit_not_eq_0)

lemma encodeCopy_loop_eq:
  "encodeCopy_loop is m v code opcodes =
     (fold (\<lambda>i c. if byteAt v i \<noteq> 0 then c OR push_bit i m else c) is code,
      opcodes @ map (\<lambda>i. word_of_nat (byteAt v i)) (filter (\<lambda>i. byteAt v i \<noteq> 0) is))"
  by (induction "is" arbitrary: code opcodes)
    (simp_all add: Let_def and_byte_field drop_push_nat push_bit_eq_0_iff possible_bit_def)

lemma bit_fold_code:
  "bit (fold (\<lambda>i c. if P i then c OR push_bit i m else c) is code) j \<longleftrightarrow>
     bit code j \<or> (\<exists>i \<in> set is. P i \<and> bit (push_bit i m) j)" for m code :: nat
  by (induction "is" arbitrary: code) (auto simp: bit_or_iff)

lemma bit_push_1: "bit (push_bit i (1::nat)) j \<longleftrightarrow> j = i"
  by (auto simp: bit_exp_iff)

lemma bit_push_16: "bit (push_bit i (16::nat)) j \<longleftrightarrow> j = i + 4"
proof -
  have "push_bit i (16::nat) = push_bit (i + 4) 1" by (simp add: push_bit_eq_mult power_add)
  then show ?thesis by (simp only: bit_push_1)
qed

lemma bit_0x80: "bit (128::nat) j \<longleftrightarrow> j = 7"
  using bit_push_1 [of 7 j] by simp

definition copyCode :: "nat \<Rightarrow> nat \<Rightarrow> nat" where
  "copyCode offset len =
     fold (\<lambda>i c. if byteAt len i \<noteq> 0 then c OR push_bit i 16 else c) [0..<3]
       (fold (\<lambda>i c. if byteAt offset i \<noteq> 0 then c OR push_bit i 1 else c) [0..<4] 128)"

definition copyOperands :: "nat \<Rightarrow> nat \<Rightarrow> bytes" where
  "copyOperands v n = map (\<lambda>i. word_of_nat (byteAt v i)) (filter (\<lambda>i. byteAt v i \<noteq> 0) [0..<n])"

lemma encodeCopyOperation_eq:
  "encodeCopyOperation offset len =
     word_of_nat (copyCode offset len) # copyOperands offset 4 @ copyOperands len 3"
proof -
  have "[0, 1, 2, 3] = [0..<4]" "[0, 1, 2] = [0..<3]" by (simp_all add: upt_rec)
  then show ?thesis
    by (simp only: encodeCopyOperation_def encodeCopy_loop_eq Let_def prod.case append_Nil
        copyCode_def copyOperands_def)
qed

lemma bit_copyCode:
  "bit (copyCode offset len) j \<longleftrightarrow>
     j = 7 \<or> j < 4 \<and> byteAt offset j \<noteq> 0 \<or> 4 \<le> j \<and> j < 7 \<and> byteAt len (j - 4) \<noteq> 0"
proof -
  have "bit (copyCode offset len) j \<longleftrightarrow> j = 7 \<or> (\<exists>i<4. byteAt offset i \<noteq> 0 \<and> j = i) \<or>
      (\<exists>i<3. byteAt len i \<noteq> 0 \<and> j = i + 4)"
    by (auto simp only: copyCode_def bit_fold_code bit_push_1 bit_push_16 bit_0x80 set_upt atLeastLessThan_iff)
  also have "(\<exists>i<3. byteAt len i \<noteq> 0 \<and> j = i + 4) \<longleftrightarrow> 4 \<le> j \<and> j < 7 \<and> byteAt len (j - 4) \<noteq> 0"
    by (auto intro!: exI [of _ "j - 4"])
  finally show ?thesis by auto
qed

lemma bit_copyCode_byte:
  "j < 8 \<Longrightarrow> bit (word_of_nat (copyCode offset len) :: byte) j \<longleftrightarrow> bit (copyCode offset len) j"
  by (simp add: bit_byte_of_nat)

lemma ucast_byteAt: "(ucast (word_of_nat (byteAt v i) :: byte) :: u64) = word_of_nat (byteAt v i)"
proof -
  have "byteAt v i < 256" by (simp add: byteAt_def)
  then have "unat (word_of_nat (byteAt v i) :: byte) = byteAt v i" by (simp add: unat_byte_of_nat)
  then show ?thesis by (metis of_nat_unat)
qed

lemma decodeMasked_operands:
  assumes "\<forall>i \<in> set is. bit cmd (i + k) \<longleftrightarrow> byteAt v i \<noteq> 0"
  shows "decodeMasked e (map (\<lambda>i. (2 ^ (i + k), 8 * i)) is) cmd acc
      (map (\<lambda>i. word_of_nat (byteAt v i)) (filter (\<lambda>i. byteAt v i \<noteq> 0) is) @ rest) =
    Ok (fold (\<lambda>i a. a OR push_bit (8 * i) (word_of_nat (byteAt v i))) is acc, rest)"
  using assms
  by (induction "is" arbitrary: acc)
    (auto simp: ucast_byteAt simp flip: bit_and_exp)

lemma fold_operands:
  assumes "8 * n \<le> 64"
  shows "fold (\<lambda>i a. a OR push_bit (8 * i) (word_of_nat (byteAt v i))) [0..<n] (0::u64) =
    word_of_nat (v mod 2 ^ (8 * n))"
  using assms
proof (induction n)
  case (Suc n)
  have "v mod 2 ^ (8 * n) < 2 ^ (8 * n)" by simp
  moreover have "(2::nat) ^ (8 * n) \<le> 2 ^ 64" using Suc.prems by (intro power_increasing) simp_all
  ultimately have "v mod 2 ^ (8 * n) < 2 ^ (8 * n)" "v mod 2 ^ (8 * n) < 2 ^ LENGTH(64)"
    by (simp, simp, linarith)
  note or = or_push_bit_of_nat [OF this, of "byteAt v n"]
  have "v mod 2 ^ (8 * n) + byteAt v n * 2 ^ (8 * n) = v mod (2 ^ (8 * n) * 256)"
    by (simp add: byteAt_def mod_mult2_eq)
  also have "2 ^ (8 * n) * 256 = (2::nat) ^ (8 * Suc n)" by (simp add: power_add)
  finally show ?case using Suc or by simp
qed simp


section \<open>Delta instructions\<close>

text \<open>The commands the encoder writes, what each contributes to the target, and when one is valid.\<close>

datatype instr = Copy nat nat | Insert bytes

fun encode_instr :: "instr \<Rightarrow> bytes" where
  "encode_instr (Copy off len) = encodeCopyOperation off len"
| "encode_instr (Insert bs) = word_of_nat (length bs) # bs"

fun denote :: "bytes \<Rightarrow> instr \<Rightarrow> bytes" where
  "denote src (Copy off len) = take len (drop off src)"
| "denote src (Insert bs) = bs"

fun wf_instr :: "bytes \<Rightarrow> instr \<Rightarrow> bool" where
  "wf_instr src (Copy off len) \<longleftrightarrow> 0 < len \<and> len \<le> maxCopySize \<and> off + len \<le> length src"
| "wf_instr src (Insert bs) \<longleftrightarrow> 0 < length bs \<and> length bs \<le> 127"

lemma decodeOperands:
  assumes "length src < 2 ^ 32" and "wf_instr src (Copy off len)"
  defines "cmd \<equiv> word_of_nat (copyCode off len) :: byte"
  shows "decodeMasked e offsets cmd 0 (copyOperands off 4 @ rest) = Ok (word_of_nat off, rest)"
    and "decodeMasked e sizes cmd 0 (copyOperands len 3 @ rest) = Ok (word_of_nat len, rest)"
proof -
  have tables: "offsets = map (\<lambda>i. (2 ^ (i + 0), 8 * i)) [0..<4]" "sizes = map (\<lambda>i. (2 ^ (i + 4), 8 * i)) [0..<3]"
    by (simp_all add: offsets_def sizes_def upt_rec)
  have bits: "\<forall>i \<in> set [0..<4]. bit cmd (i + 0) \<longleftrightarrow> byteAt off i \<noteq> 0"
    "\<forall>i \<in> set [0..<3]. bit cmd (i + 4) \<longleftrightarrow> byteAt len i \<noteq> 0"
    by (auto simp: cmd_def bit_copyCode_byte bit_copyCode)
  have small: "off mod 2 ^ (8 * 4) = off" "len mod 2 ^ (8 * 3) = len"
    using assms(1,2) by (auto simp: maxCopySize_def)
  show "decodeMasked e offsets cmd 0 (copyOperands off 4 @ rest) = Ok (word_of_nat off, rest)"
    using decodeMasked_operands [OF bits(1), of e 0 rest] fold_operands [of 4 off]
    by (simp only: tables copyOperands_def small)
  show "decodeMasked e sizes cmd 0 (copyOperands len 3 @ rest) = Ok (word_of_nat len, rest)"
    using decodeMasked_operands [OF bits(2), of e 0 rest] fold_operands [of 3 len]
    by (simp only: tables copyOperands_def small)
qed

lemma decodeOffset_copy:
  assumes "length src < 2 ^ 32" and "wf_instr src (Copy off len)"
  defines "cmd \<equiv> word_of_nat (copyCode off len) :: byte"
  shows "decodeOffset cmd (copyOperands off 4 @ rest) = Ok (word_of_nat off, rest)"
    and "decodeOffsetByteReader cmd (copyOperands off 4 @ rest) = Ok (word_of_nat off, rest)"
    and "decodeSize cmd (copyOperands len 3 @ rest) = Ok (word_of_nat len, rest)"
    and "decodeSizeByteReader cmd (copyOperands len 3 @ rest) = Ok (word_of_nat len, rest)"
proof -
  have "(word_of_nat len :: u64) \<noteq> 0"
    using assms(2) unat_u64_of_nat [of len] by (auto simp: maxCopySize_def)
  then show "decodeOffset cmd (copyOperands off 4 @ rest) = Ok (word_of_nat off, rest)"
    and "decodeOffsetByteReader cmd (copyOperands off 4 @ rest) = Ok (word_of_nat off, rest)"
    and "decodeSize cmd (copyOperands len 3 @ rest) = Ok (word_of_nat len, rest)"
    and "decodeSizeByteReader cmd (copyOperands len 3 @ rest) = Ok (word_of_nat len, rest)"
    using decodeOperands [OF assms(1,2)]
    by (simp_all add: cmd_def decodeOffset_def decodeOffsetByteReader_def decodeSize_def decodeSizeByteReader_def)
qed

lemma isCopyFromSrc_copyCode: "isCopyFromSrc (word_of_nat (copyCode off len))"
proof -
  have "bit (word_of_nat (copyCode off len) :: byte) 7" by (simp add: bit_copyCode_byte bit_copyCode)
  then show ?thesis by (simp add: isCopyFromSrc_def bit_and_exp)
qed

lemma not_invalidSize:
  "n \<le> m \<Longrightarrow> m < 2 ^ 64 \<Longrightarrow> \<not> invalidSize (word_of_nat n) (word_of_nat m)"
  by (simp add: invalidSize_def word_less_nat_alt unat_u64_of_nat)

lemma not_invalidOffsetSize:
  assumes "off + len \<le> n" and "n < 2 ^ 64"
  shows "\<not> invalidOffsetSize (word_of_nat off) (word_of_nat len) (word_of_nat n)"
proof -
  have "(word_of_nat off + word_of_nat len :: u64) = word_of_nat (off + len)" by simp
  then show ?thesis using assms
    by (simp add: invalidOffsetSize_def sumOverflows_def word_less_nat_alt unat_u64_of_nat del: of_nat_add)
qed

lemma insert_cmd:
  assumes "0 < n" and "n \<le> 127"
  shows "\<not> isCopyFromSrc (word_of_nat n)" and "isCopyFromDelta (word_of_nat n)"
    and "(ucast (word_of_nat n :: byte) :: u64) = word_of_nat n"
proof -
  have u: "unat (word_of_nat n :: byte) = n" using assms by (simp add: unat_byte_of_nat)
  then have "(word_of_nat n :: byte) \<noteq> 0" using assms by auto
  then show "\<not> isCopyFromSrc (word_of_nat n)" and "isCopyFromDelta (word_of_nat n)"
    using assms by (simp_all add: isCopyFromSrc_def isCopyFromDelta_def byte_and_maskContinue)
  show "(ucast (word_of_nat n :: byte) :: u64) = word_of_nat n"
    by (metis u of_nat_unat)
qed

lemma patchDelta_step_instr:
  assumes wf: "wf_instr src x" and src: "length src < 2 ^ 32"
    and rest: "length rest < 2 ^ 62" and le: "length (denote src x) \<le> m" "m < 2 ^ 64"
  shows "patchDelta_step src (word_of_nat (length src)) (word_of_nat m) (encode_instr x @ rest) remaining dst =
    Ok (rest, remaining - word_of_nat (length (denote src x)), dst @ denote src x)"
proof (cases x)
  case (Copy off len)
  have in_src: "off + len \<le> length src" and len: "length (denote src x) = len"
    using wf Copy by auto
  have "unat (word_of_nat off + word_of_nat len :: u64) = off + len"
    using in_src src unat_u64_of_nat [of "off + len"] by simp
  moreover have "unat (word_of_nat off :: u64) = off" "unat (word_of_nat len :: u64) = len"
    using in_src src unat_u64_of_nat [of off] unat_u64_of_nat [of len] by simp_all
  ultimately show ?thesis
    using Copy wf in_src src le len decodeOffset_copy [of src off len]
      not_invalidSize [of len m] not_invalidOffsetSize [of off len "length src"]
    by (simp add: encodeCopyOperation_eq isCopyFromSrc_copyCode)
next
  case (Insert bs)
  have "unat (word_of_nat (length bs) :: u64) = length bs" 
    using wf Insert by (simp add: unat_u64_of_nat)
  moreover have "\<not> (word_of_nat (length (bs @ rest)) :: u64) < word_of_nat (length bs)"
    using wf Insert rest by (simp add: word_less_nat_alt unat_u64_of_nat del: of_nat_add)
  ultimately show ?thesis
    using Insert wf insert_cmd [of "length bs"] not_invalidSize [of "length bs" m] le
    by (simp add: Let_def)
qed

lemma patchDeltaWriter_step_instr:
  assumes wf: "wf_instr src x" and src: "length src < 2 ^ 32"
    and le: "length (denote src x) \<le> m" "m < 2 ^ 64"
  shows "patchDeltaWriter_step (word_of_nat (length src)) (word_of_nat m) src (encode_instr x @ rest) remaining =
    Inr (rest, remaining - word_of_nat (length (denote src x)), denote src x)"
proof (cases x)
  case (Copy off len)
  have in_src: "off + len \<le> length src" and len: "length (denote src x) = len"
    using wf Copy by auto
  have "unat (word_of_nat off :: u64) = off" "unat (word_of_nat len :: u64) = len"
    "unat (word_of_nat (length src) :: u64) = length src"
    using in_src src unat_u64_of_nat [of off] unat_u64_of_nat [of len] unat_u64_of_nat [of "length src"]
    by simp_all
  then show ?thesis
    using Copy wf in_src src le len decodeOffset_copy [of src off len]
      not_invalidSize [of len m] not_invalidOffsetSize [of off len "length src"]
    by (simp add: encodeCopyOperation_eq isCopyFromSrc_copyCode)
next
  case (Insert bs)
  have "unat (word_of_nat (length bs) :: u64) = length bs" 
    using wf Insert by (simp add: unat_u64_of_nat)
  then show ?thesis
    using Insert wf insert_cmd [of "length bs"] not_invalidSize [of "length bs" m] le
    by (simp add: Let_def)
qed


definition encode_instrs :: "instr list \<Rightarrow> bytes" where
  "encode_instrs is = concat (map encode_instr is)"

definition denote_instrs :: "bytes \<Rightarrow> instr list \<Rightarrow> bytes" where
  "denote_instrs src is = concat (map (denote src) is)"

lemma instrs_simps [simp]:
  "encode_instrs [] = []" "encode_instrs (x # is) = encode_instr x @ encode_instrs is"
  "encode_instrs (is @ js) = encode_instrs is @ encode_instrs js"
  "denote_instrs src [] = []" "denote_instrs src (x # is) = denote src x @ denote_instrs src is"
  "denote_instrs src (is @ js) = denote_instrs src is @ denote_instrs src js"
  by (simp_all add: encode_instrs_def denote_instrs_def)

lemma denote_nonempty: "wf_instr src x \<Longrightarrow> 0 < length (denote src x)"
  by (cases x) auto

lemma denote_instrs_nonempty:
  "list_all (wf_instr src) is \<Longrightarrow> is \<noteq> [] \<Longrightarrow> 0 < length (denote_instrs src is)"
  by (cases "is") (use denote_nonempty in auto)

lemma remaining_after:
  assumes "a + b < 2 ^ 64"
  shows "(word_of_nat (a + b) - word_of_nat a :: u64) = word_of_nat b"
    and "(word_of_nat b :: u64) \<le> 0 \<longleftrightarrow> b = 0"
  using assms by (simp_all add: word_le_nat_alt unat_u64_of_nat)

text \<open>Both appliers execute a valid instruction list up to its last instruction.\<close>

lemma patchDelta_loop_instrs:
  assumes "list_all (wf_instr src) is" and "is \<noteq> []" and "length src < 2 ^ 32"
    and "length (encode_instrs is) < 2 ^ 62" and "length (denote_instrs src is) \<le> m" and "m < 2 ^ 64"
  shows "patchDelta_loop src (word_of_nat (length src)) (word_of_nat m) (encode_instrs is)
      (word_of_nat (length (denote_instrs src is))) dst = Ok (dst @ denote_instrs src is)"
  using assms
proof (induction "is" arbitrary: dst)
  case (Cons x "is")
  let ?a = "length (denote src x)" and ?b = "length (denote_instrs src is)"
  have rem: "(word_of_nat (?a + ?b) - word_of_nat ?a :: u64) = word_of_nat ?b"
    "(word_of_nat ?b :: u64) \<le> 0 \<longleftrightarrow> ?b = 0"
    using remaining_after [of ?a ?b] Cons.prems by simp_all
  have step: "patchDelta_step src (word_of_nat (length src)) (word_of_nat m) (encode_instr x @ encode_instrs is)
      (word_of_nat (?a + ?b)) dst = Ok (encode_instrs is, word_of_nat ?b, dst @ denote src x)"
    using patchDelta_step_instr [of src x "encode_instrs is" m "word_of_nat (?a + ?b)" dst] Cons.prems rem(1)
    by (simp del: of_nat_add)
  show ?case
  proof (cases "is = []")
    case True
    with step show ?thesis by (subst patchDelta_loop.simps) simp
  next
    case False
    then have "?b \<noteq> 0" using denote_instrs_nonempty [of src "is"] Cons.prems by auto
    with step rem(2) Cons False show ?thesis
      by (subst patchDelta_loop.simps) (simp del: of_nat_add)
  qed
qed simp

lemma patchDeltaWriter_loop_instrs:
  assumes "list_all (wf_instr src) is" and "is \<noteq> []" and "length src < 2 ^ 32"
    and "length (denote_instrs src is) \<le> m" and "m < 2 ^ 64"
  shows "patchDeltaWriter_loop sha (word_of_nat (length src)) (word_of_nat m) src (encode_instrs is)
      (word_of_nat (length (denote_instrs src is))) dst hasher =
    (dst @ denote_instrs src is, Ok (word_of_nat m, Hasher_Sum sha (Hasher_Write hasher (denote_instrs src is))))"
  using assms
proof (induction "is" arbitrary: dst hasher)
  case (Cons x "is")
  let ?a = "length (denote src x)" and ?b = "length (denote_instrs src is)"
  have rem: "(word_of_nat (?a + ?b) - word_of_nat ?a :: u64) = word_of_nat ?b"
    "(word_of_nat ?b :: u64) \<le> 0 \<longleftrightarrow> ?b = 0"
    using remaining_after [of ?a ?b] Cons.prems by simp_all
  have step: "patchDeltaWriter_step (word_of_nat (length src)) (word_of_nat m) src (encode_instr x @ encode_instrs is)
      (word_of_nat (?a + ?b)) = Inr (encode_instrs is, word_of_nat ?b, denote src x)"
    using patchDeltaWriter_step_instr [of src x m "encode_instrs is" "word_of_nat (?a + ?b)"] Cons.prems rem(1)
    by (simp del: of_nat_add)
  show ?case
  proof (cases "is = []")
    case True
    with step show ?thesis by (subst patchDeltaWriter_loop.simps) simp
  next
    case False
    then have "?b \<noteq> 0" using denote_instrs_nonempty [of src "is"] Cons.prems by auto
    with step rem(2) Cons False show ?thesis
      by (subst patchDeltaWriter_loop.simps) (simp add: Hasher_Write_append del: of_nat_add)
  qed
qed simp

section \<open>The encoder writes valid instructions\<close>

lemma encodeInsert_loop_instrs:
  assumes "0 < s" and "off + s = length b"
  shows "\<exists>is. encodeInsert_loop b s off buf = buf @ encode_instrs is \<and> list_all (wf_instr src) is \<and>
    denote_instrs src is = drop off b"
  using assms
proof (induction b s off buf rule: encodeInsert_loop.induct)
  case (1 b s off buf)
  show ?case
  proof (cases "s \<le> 127")
    case True
    define d where "d = drop off b"
    have "length d = s" using "1.prems" by (simp add: d_def)
    with True "1.prems"(1) show ?thesis
      by (intro exI [of _ "[Insert d]"]) (simp add: encodeInsert_loop.simps [of b s off buf] flip: d_def)
  next
    case False
    then have "0 < s - 127" "off + 127 + (s - 127) = length b" using "1.prems" by simp_all
    with "1.IH" [OF False] obtain js where js: "encodeInsert_loop b (s - 127) (off + 127) (buf @ [127] @ take 127 (drop off b)) =
        (buf @ [127] @ take 127 (drop off b)) @ encode_instrs js"
      "list_all (wf_instr src) js" "denote_instrs src js = drop (off + 127) b"
      by blast
    have len: "length (take 127 (drop off b)) = 127" using False "1.prems" by simp
    have "take 127 (drop off b) @ drop (off + 127) b = drop off b"
      by (metis append_take_drop_id drop_drop add.commute)
    with js len False show ?thesis
      by (intro exI [of _ "Insert (take 127 (drop off b)) # js"])
        (simp add: encodeInsert_loop.simps [of b s off buf] del: length_take length_drop)
  qed
qed

lemma encodeInsertOperation_instrs:
  "\<exists>is. encodeInsertOperation ibuf buf = buf @ encode_instrs is \<and> list_all (wf_instr src) is \<and>
    denote_instrs src is = ibuf"
proof (cases "ibuf = []")
  case True
  then show ?thesis by (intro exI [of _ "[]"]) (simp add: encodeInsertOperation_def)
next
  case False
  then show ?thesis
    using encodeInsert_loop_instrs [of "length ibuf" 0 ibuf buf src] by (simp add: encodeInsertOperation_def)
qed

lemma encodeCopies_instrs:
  assumes "off + rl \<le> length src"
  shows "\<exists>is. encodeCopies rl off buf = buf @ encode_instrs is \<and> list_all (wf_instr src) is \<and>
    denote_instrs src is = take rl (drop off src)"
  using assms
proof (induction rl off buf rule: encodeCopies.induct)
  case (1 rl off buf)
  consider "rl = 0" | "0 < rl" "rl < maxCopySize" | "0 < rl" "maxCopySize \<le> rl" by linarith
  then show ?case
  proof cases
    case 1
    then show ?thesis by (intro exI [of _ "[]"]) (simp add: encodeCopies.simps [of 0 off buf])
  next
    case 2
    with "1.prems" show ?thesis
      by (intro exI [of _ "[Copy off rl]"]) (simp add: encodeCopies.simps [of rl off buf])
  next
    case 3
    have max: "0 < maxCopySize" by (simp add: maxCopySize_def)
    from 3 "1.prems" obtain js where js: "encodeCopies (rl - maxCopySize) (off + maxCopySize)
        (buf @ encodeCopyOperation off maxCopySize) = (buf @ encodeCopyOperation off maxCopySize) @ encode_instrs js"
      "list_all (wf_instr src) js" "denote_instrs src js = take (rl - maxCopySize) (drop (off + maxCopySize) src)"
      using "1.IH" by fastforce
    have "take rl (drop off src) = take maxCopySize (drop off src) @
        take (rl - maxCopySize) (drop (off + maxCopySize) src)"
      using 3(2) take_add [of maxCopySize "rl - maxCopySize" "drop off src"] by (simp add: add.commute)
    with js 3 max "1.prems" show ?thesis
      by (intro exI [of _ "Copy off maxCopySize # js"]) (simp add: encodeCopies.simps [of rl off buf])
  qed
qed


context match_finder
begin

lemma diffDelta_loop_instrs:
  assumes "covers src"
  shows "\<exists>out. diffDelta_loop find src tgt i ibuf buf = Ok out \<and>
    (\<exists>is. out = buf @ encode_instrs is \<and> list_all (wf_instr src) is \<and>
      denote_instrs src is = ibuf @ drop i tgt)"
  using assms
proof (induction "length tgt - i" arbitrary: i ibuf buf rule: less_induct)
  case less
  show ?case
  proof (cases "i < length tgt")
    case False
    then show ?thesis
      using encodeInsertOperation_instrs [of ibuf buf src] by (simp add: diffDelta_loop.simps [of _ src tgt i])
  next
    case True
    obtain off l where fm: "find src tgt i = Ok (off, l)" and m: "match_ok src tgt i off l"
      using find_ok [OF less.prems True] by blast
    note unfolded = diffDelta_loop.simps [of find src tgt i ibuf buf] fm True
    have tgt: "(ibuf @ take n (drop i tgt)) @ drop (i + n) tgt = ibuf @ drop i tgt" for n
      by (metis append.assoc append_take_drop_id drop_drop add.commute)
    have IH: "\<exists>out. diffDelta_loop find src tgt (i + n) ibuf' buf' = Ok out \<and>
        (\<exists>is. out = buf' @ encode_instrs is \<and> list_all (wf_instr src) is \<and>
          denote_instrs src is = ibuf' @ drop (i + n) tgt)" if "0 < n" for n ibuf' buf'
      using less.hyps [of "i + n" ibuf' buf'] less.prems True that by simp
    consider "l = 0" | "l < 0" | "0 < l" "l < 16" | "16 \<le> l" by linarith
    then show ?thesis
    proof cases
      case 1
      have "take 1 (drop i tgt) = [tgt ! i]" using True by (simp add: take_Suc_conv_app_nth)
      with IH [of 1 "ibuf @ [tgt ! i]" buf] tgt [of 1] 1 show ?thesis by (simp add: unfolded)
    next
      case 2
      with IH [of "length tgt + 1 - i" "ibuf @ drop i tgt" buf] True show ?thesis by (simp add: unfolded)
    next
      case 3
      then have "i + nat l \<le> length tgt" using m by (auto simp: match_ok_def)
      moreover have "Suc (i + (nat l - 1)) = i + nat l" using 3 by simp
      ultimately show ?thesis
        using IH [of "nat l" "ibuf @ take (nat l) (drop i tgt)" buf] tgt [of "nat l"] 3 by (simp add: unfolded)
    next
      case 4
      then have range: "off + nat l \<le> length src"
        and eq: "take (nat l) (drop off src) = take (nat l) (drop i tgt)"
        using m by (auto simp: match_ok_def)
      let ?buf1 = "encodeInsertOperation ibuf buf"
      let ?buf2 = "encodeCopies (nat l) off ?buf1"
      obtain js where js: "?buf1 = buf @ encode_instrs js" "list_all (wf_instr src) js" "denote_instrs src js = ibuf"
        using encodeInsertOperation_instrs by blast
      obtain ks where ks: "?buf2 = ?buf1 @ encode_instrs ks" "list_all (wf_instr src) ks"
        "denote_instrs src ks = take (nat l) (drop i tgt)"
        using encodeCopies_instrs [OF range] eq by metis
      obtain out "is" where "is": "diffDelta_loop find src tgt (i + nat l) [] ?buf2 = Ok out"
        "out = ?buf2 @ encode_instrs is" "list_all (wf_instr src) is" "denote_instrs src is = drop (i + nat l) tgt"
        using IH [of "nat l" "[]" ?buf2] 4 by auto
      have "Suc (i + (nat l - 1)) = i + nat l" using 4 by simp
      moreover have "\<exists>is. out = buf @ encode_instrs is \<and> list_all (wf_instr src) is \<and>
          denote_instrs src is = ibuf @ drop i tgt"
        using js ks "is" tgt [of "nat l"] by (intro exI [of _ "js @ ks @ is"]) simp
      ultimately show ?thesis using 4 "is"(1) by (simp add: unfolded)
    qed
  qed
qed

end


section \<open>The delta of two byte strings\<close>

lemma copyOperands_length: "length (copyOperands v n) \<le> n"
  using length_filter_le [of "\<lambda>i. byteAt v i \<noteq> 0" "[0..<n]"] by (simp add: copyOperands_def)

lemma encode_instr_length:
  assumes "wf_instr src x"
  shows "2 \<le> length (encode_instr x)" and "length (encode_instr x) \<le> 8 * length (denote src x)"
proof -
  have "2 \<le> length (encode_instr x) \<and> length (encode_instr x) \<le> 8 * length (denote src x)"
  proof (cases x)
    case (Copy off len)
    have len: "0 < len" "len < 2 ^ 24" using assms Copy by (auto simp: maxCopySize_def)
    have "copyOperands len 3 \<noteq> []"
    proof
      assume "copyOperands len 3 = []"
      then have "byteAt len 0 = 0" "byteAt len 1 = 0" "byteAt len 2 = 0"
        by (auto simp: copyOperands_def filter_empty_conv)
      then show False using len by (simp add: byteAt_def)
    qed
    then have "1 \<le> length (copyOperands len 3)" by (simp add: Suc_le_eq)
    moreover note copyOperands_length [of off 4] copyOperands_length [of len 3]
    moreover have "1 \<le> length (denote src x)" using denote_nonempty [OF assms] by linarith
    ultimately show ?thesis using Copy by (simp add: encodeCopyOperation_eq del: denote.simps)
  next
    case (Insert bs)
    then show ?thesis using assms by (cases bs) auto
  qed
  then show "2 \<le> length (encode_instr x)" and "length (encode_instr x) \<le> 8 * length (denote src x)"
    by simp_all
qed

lemma encode_instrs_length:
  "list_all (wf_instr src) is \<Longrightarrow> length (encode_instrs is) \<le> 8 * length (denote_instrs src is)"
  by (induction "is") (auto dest: encode_instr_length(2) [of src])

lemma diffDelta_instrs:
  assumes "length (di_entries index) = 0 \<or> index_ok src index" and "length src < 2 ^ 36"
  shows "\<exists>is index'. diffDelta index src tgt =
      Ok (deltaEncodeSize (length src) @ deltaEncodeSize (length tgt) @ encode_instrs is, index') \<and>
    index_ok src index' \<and> list_all (wf_instr src) is \<and> denote_instrs src is = tgt"
proof -
  obtain index' where i: "(if length (di_entries index) = 0 then deltaIndex_init index src else Ok index) = Ok index'"
    and ok: "index_ok src index'"
    using deltaIndex_init_Ok [OF assms(2)] assms(1) by (cases "length (di_entries index) = 0") auto
  obtain "is" where "diffDelta_loop (findMatch index') src tgt 0 []
      (deltaEncodeSize (length src) @ deltaEncodeSize (length tgt)) =
      Ok (deltaEncodeSize (length src) @ deltaEncodeSize (length tgt) @ encode_instrs is)"
    "list_all (wf_instr src) is" "denote_instrs src is = tgt"
    using block_index.diffDelta_loop_instrs [OF ok, of tgt 0 "[]"
        "deltaEncodeSize (length src) @ deltaEncodeSize (length tgt)"] by auto
  with ok show ?thesis unfolding diffDelta_def i Let_def by (intro exI [of _ "is"] exI [of _ index']) simp
qed

lemma DiffDelta_instrs:
  assumes "length src < 2 ^ 36"
  obtains "is" where "DiffDelta src tgt =
      Ok (deltaEncodeSize (length src) @ deltaEncodeSize (length tgt) @ encode_instrs is)"
    and "list_all (wf_instr src) is" and "denote_instrs src is = tgt"
  using diffDelta_instrs [of newDeltaIndex src tgt] assms
  by (auto simp: DiffDelta_def newDeltaIndex_def)

lemma patchDelta_diff:
  assumes "length src < 2 ^ 32" and "length tgt < 2 ^ 48" and "tgt \<noteq> []"
    and wf: "list_all (wf_instr src) is" "denote_instrs src is = tgt"
  defines "delta \<equiv> deltaEncodeSize (length src) @ deltaEncodeSize (length tgt) @ encode_instrs is"
  shows "minDeltaSize \<le> length delta" and "patchDelta dst src delta = Ok (dst @ tgt)"
    and "decodeLEB128ByteReader delta =
      Ok (word_of_nat (length src), deltaEncodeSize (length tgt) @ encode_instrs is)"
    and "decodeLEB128ByteReader (deltaEncodeSize (length tgt) @ encode_instrs is) =
      Ok (word_of_nat (length tgt), encode_instrs is)"
    and "is \<noteq> []"
proof -
  show "is \<noteq> []" using wf(2) assms(3) by auto
  then obtain x xs where "is": "is = x # xs" by (cases "is") auto
  then have "2 \<le> length (encode_instrs is)" using encode_instr_length(1) [of src x] wf(1) by simp
  moreover have one: "1 \<le> length (deltaEncodeSize n)" for n
    using deltaEncodeSize_nonempty [of n] by (simp add: Suc_le_eq)
  note one [of "length src"] one [of "length tgt"]
  ultimately show len: "minDeltaSize \<le> length delta" by (simp add: delta_def minDeltaSize_def)
  show d1: "decodeLEB128ByteReader delta =
      Ok (word_of_nat (length src), deltaEncodeSize (length tgt) @ encode_instrs is)"
    using assms(1) by (simp add: delta_def decodeLEB128_deltaEncodeSize)
  show d2: "decodeLEB128ByteReader (deltaEncodeSize (length tgt) @ encode_instrs is) =
      Ok (word_of_nat (length tgt), encode_instrs is)"
    using assms(2) by (simp add: decodeLEB128_deltaEncodeSize)
  have "length (encode_instrs is) < 2 ^ 62" using encode_instrs_length [OF wf(1)] wf(2) assms(2) by simp
  then show "patchDelta dst src delta = Ok (dst @ tgt)"
    using patchDelta_loop_instrs [OF wf(1) \<open>is \<noteq> []\<close> assms(1), of "length tgt" dst] wf(2) assms(1,2) len
    by (simp add: patchDelta_def delta_def decodeLEB128_deltaEncodeSize minDeltaSize_def minCopySize_def)
qed

section \<open>The streaming reader\<close>












text \<open>
  C1. For a source that is not empty and shorter than \<open>2 ^ 32\<close> bytes (what a copy command can
  address) and a target that is not empty and shorter than \<open>2 ^ 48\<close> bytes, \<^verbatim>\<open>DiffDelta\<close> succeeds
  and \<^verbatim>\<open>PatchDelta\<close> of its delta on the source yields the target, byte for byte.
\<close>

theorem DiffDelta_PatchDelta_roundtrip:
  assumes "src \<noteq> []" and "tgt \<noteq> []" and "length src < 2 ^ 32" and "length tgt < 2 ^ 48"
  shows "\<exists>delta. DiffDelta src tgt = Ok delta \<and> PatchDelta src delta = Ok tgt"
proof -
  have "length src < 2 ^ 36" using assms(3) by simp
  then obtain "is" where "DiffDelta src tgt =
      Ok (deltaEncodeSize (length src) @ deltaEncodeSize (length tgt) @ encode_instrs is)"
    and "list_all (wf_instr src) is" "denote_instrs src is = tgt"
    by (rule DiffDelta_instrs)
  with patchDelta_diff(1,2) [of src tgt "is"] assms show ?thesis
    by (simp add: PatchDelta_def)
qed

theorem DiffDelta_PatchDelta_roundtrip_witness:
  "\<exists>delta. DiffDelta (replicate 20 7) (9 # replicate 18 7) = Ok delta \<and>
     PatchDelta (replicate 20 7) delta = Ok (9 # replicate 18 7)"
  by (rule DiffDelta_PatchDelta_roundtrip) simp_all

lemma sint_u64_of_nat: "n < 2 ^ 63 \<Longrightarrow> sint (word_of_nat n :: u64) = int n"
  by (simp add: signed_of_nat signed_take_bit_int_eq_self_iff)

text \<open>
  C2. For a source shorter than \<open>2 ^ 32\<close> bytes and a target that is not empty and shorter than
  \<open>2 ^ 48\<close> bytes, the streaming applier, called without a header writer on the delta that
  \<^verbatim>\<open>DiffDelta\<close> computes, appends the target to what was already written and reports the target's
  size and its object id.
\<close>

theorem DiffDelta_patchDeltaWriter:
  assumes "tgt \<noteq> []" and "length src < 2 ^ 32" and "length tgt < 2 ^ 48"
  shows "\<exists>delta. DiffDelta src tgt = Ok delta \<and>
    patchDeltaWriter sha bytesReader bufferDst dst src delta typ None =
      (dst @ tgt, Ok (word_of_nat (length tgt), ComputeHash sha typ tgt))"
proof -
  have "length src < 2 ^ 36" using assms(2) by simp
  then obtain "is" where d: "DiffDelta src tgt =
      Ok (deltaEncodeSize (length src) @ deltaEncodeSize (length tgt) @ encode_instrs is)"
    and wf: "list_all (wf_instr src) is" "denote_instrs src is = tgt"
    by (rule DiffDelta_instrs)
  note facts = patchDelta_diff [OF assms(2,3,1) wf]
  have s: "sint (word_of_nat (length tgt) :: u64) = int (length tgt)"
    using assms(3) by (simp add: sint_u64_of_nat)
  have "ComputeHash sha typ tgt = Hasher_Sum sha (Hasher_Write (NewHasher SHA1 typ (int (length tgt))) tgt)"
    by (simp add: ComputeHash_def Hasher_Sum_id ObjectHasher_Compute_id newHasher_def)
  with d facts s patchDeltaWriter_loop_instrs [OF wf(1) facts(5) assms(2), of "length tgt" sha dst
      "NewHasher SHA1 typ (int (length tgt))"] wf(2) assms(3)
  show ?thesis by (simp add: patchDeltaWriter_def)
qed

theorem DiffDelta_patchDeltaWriter_witness:
  "\<exists>delta. DiffDelta (replicate 20 7) (9 # replicate 18 7) = Ok delta \<and>
    patchDeltaWriter toy_sha True True [1, 2] (replicate 20 7) delta BlobObject None =
      ([1, 2] @ 9 # replicate 18 7,
       Ok (word_of_nat (length (9 # replicate 18 (7 :: byte))), ComputeHash toy_sha BlobObject (9 # replicate 18 7)))"
  by (rule DiffDelta_patchDeltaWriter) simp_all

text \<open>
  An empty source or an empty target has no delta that works: the encoder still answers one,
  and applying it is refused as an invalid delta.
\<close>

theorem DiffDelta_empty_refused:
  assumes "src = [] \<or> tgt = []" and "length src < 2 ^ 32"
  shows "\<exists>delta. DiffDelta src tgt = Ok delta \<and> PatchDelta src delta = Error ErrInvalidDelta"
proof -
  have "length src < 2 ^ 36" using assms(2) by simp
  then obtain "is" where d: "DiffDelta src tgt =
      Ok (deltaEncodeSize (length src) @ deltaEncodeSize (length tgt) @ encode_instrs is)"
    and wf: "list_all (wf_instr src) is" "denote_instrs src is = tgt"
    by (rule DiffDelta_instrs)
  have "PatchDelta src (deltaEncodeSize (length src) @ deltaEncodeSize (length tgt) @ encode_instrs is) =
      Error ErrInvalidDelta"
  proof (cases "src = []")
    case True
    then show ?thesis by (simp add: PatchDelta_def)
  next
    case False
    with assms(1) wf have "tgt = []" "is = []" using denote_instrs_nonempty by fastforce+
    with assms(2) False show ?thesis
      by (simp add: PatchDelta_def patchDelta_def decodeLEB128_deltaEncodeSize [of "length src"]
          decodeLEB128_deltaEncodeSize [of 0 "[]", simplified] patchDelta_loop.simps)
  qed
  with d show ?thesis by blast
qed

theorem DiffDelta_empty_refused_witness:
  "\<exists>delta. DiffDelta [1, 2, 3] [] = Ok delta \<and> PatchDelta [1, 2, 3] delta = Error ErrInvalidDelta"
  by (rule DiffDelta_empty_refused) simp_all

text \<open>
  C3. For a base shorter than \<open>2 ^ 32\<close> bytes and a target that is not empty and shorter than
  \<open>2 ^ 48\<close> bytes, \<^verbatim>\<open>GetDelta\<close> succeeds with an offset-delta object that carries its own size, and
  applying its content to the base writes the target's content into a new object, with the target's
  size.
\<close>

theorem GetDelta_ApplyDelta:
  assumes "mo_cont target \<noteq> []" and "length (mo_cont base) < 2 ^ 32" and "length (mo_cont target) < 2 ^ 48"
  shows "\<exists>d. GetDelta base target = Ok d \<and> mo_t d = OFSDeltaObject \<and>
    mo_sz d = int (length (MemoryObject_Reader d)) \<and>
    ApplyDelta newMemoryObject base (MemoryObject_Reader d) =
      Ok (newMemoryObject\<lparr>mo_cont := mo_cont target, mo_sz := int (length (mo_cont target))\<rparr>)"
proof -
  have "length (mo_cont base) < 2 ^ 36" using assms(2) by simp
  then obtain "is" index' where
    "diffDelta newDeltaIndex (mo_cont base) (mo_cont target) = Ok (deltaEncodeSize (length (mo_cont base)) @
        deltaEncodeSize (length (mo_cont target)) @ encode_instrs is, index')"
    and wf: "list_all (wf_instr (mo_cont base)) is" "denote_instrs (mo_cont base) is = mo_cont target"
    using diffDelta_instrs [of newDeltaIndex "mo_cont base" "mo_cont target"] by (auto simp: newDeltaIndex_def)
  with patchDelta_diff(2) [OF assms(2,3,1) wf, of "[]"] show ?thesis
    by (simp add: GetDelta_def getDelta_def ApplyDelta_def MemoryObject_Reader_def MemoryObject_Write_def
        MemoryObject_SetSize_def MemoryObject_SetType_def newMemoryObject_def Let_def)
qed

theorem GetDelta_ApplyDelta_witness:
  "\<exists>d. GetDelta (newMemoryObject\<lparr>mo_cont := [1, 2, 3]\<rparr>) (newMemoryObject\<lparr>mo_cont := [4, 5]\<rparr>) = Ok d \<and>
    mo_t d = OFSDeltaObject \<and> mo_sz d = int (length (MemoryObject_Reader d)) \<and>
    ApplyDelta newMemoryObject (newMemoryObject\<lparr>mo_cont := [1, 2, 3]\<rparr>) (MemoryObject_Reader d) =
      Ok (newMemoryObject\<lparr>mo_cont := mo_cont (newMemoryObject\<lparr>mo_cont := [4, 5]\<rparr>),
        mo_sz := int (length (mo_cont (newMemoryObject\<lparr>mo_cont := [4, 5]\<rparr>)))\<rparr>)"
  by (rule GetDelta_ApplyDelta) simp_all

end
