(* ===== verification/Pktline.thy ===== *)
theory Pktline
  imports BinaryIO GoStrings
begin

text \<open>
  The pkt-line format: \<^verbatim>\<open>plumbing/format/pktline\<close> (\<open>common.go\<close>, \<open>error.go\<close>, \<open>length.go\<close>,
  \<open>pktline.go\<close>, \<open>scanner.go\<close>). A reader is the list of bytes left. The buffer that a packet is
  read into is explicit, because it is shared: \<^verbatim>\<open>ReadLine\<close> takes it from a pool and \<^verbatim>\<open>Scanner\<close>
  keeps one, so it holds the bytes of earlier packets. Tracing is not modelled.
\<close>

section \<open>Constants and errors\<close>

definition Err :: int where "Err = -1"
definition Flush :: int where "Flush = 0"
definition Delim :: int where "Delim = 1"
definition ResponseEnd :: int where "ResponseEnd = 2"

definition MaxSize :: nat where "MaxSize = 65520"
definition LenSize :: nat where "LenSize = 4"
definition MaxPayloadSize :: nat where "MaxPayloadSize = MaxSize - LenSize"
definition errPrefixSize :: nat where "errPrefixSize = LenSize"

definition flushPkt :: bytes where "flushPkt = str ''0000''"
definition delimPkt :: bytes where "delimPkt = str ''0001''"
definition responseEndPkt :: bytes where "responseEndPkt = str ''0002''"
definition emptyPkt :: bytes where "emptyPkt = str ''0004''"
definition errPrefix :: bytes where "errPrefix = str ''ERR ''"

abbreviation ErrPayloadTooLong :: error where "ErrPayloadTooLong \<equiv> Sentinel ''ErrPayloadTooLong''"
abbreviation ErrInvalidPktLen :: error where "ErrInvalidPktLen \<equiv> Sentinel ''ErrInvalidPktLen''"
abbreviation ErrInvalidErrorLine :: error where "ErrInvalidErrorLine \<equiv> Sentinel ''ErrInvalidErrorLine''"
abbreviation ErrNilWriter :: error where "ErrNilWriter \<equiv> Sentinel ''ErrNilWriter''"

section \<open>The length of a packet\<close>

definition asciiHexToByte :: "byte \<Rightarrow> byte result" where
  "asciiHexToByte b =
     (if 48 \<le> b \<and> b \<le> 57 then Ok (b - 48)
      else if 97 \<le> b \<and> b \<le> 102 then Ok (b - 97 + 10)
      else if 65 \<le> b \<and> b \<le> 70 then Ok (b - 65 + 10)
      else Error (Sentinel ''not a hexadecimal byte''))"

fun hexDecode_loop :: "nat \<Rightarrow> bytes \<Rightarrow> nat result" where
  "hexDecode_loop ret [] = Ok ret"
| "hexDecode_loop ret (b # bs) =
     (case asciiHexToByte b of
        Ok n \<Rightarrow> hexDecode_loop (16 * ret + unat n) bs
      | Error e \<Rightarrow> Error (Wrapped ''not a hexadecimal byte'' ErrInvalidPktLen)
      | Panic \<Rightarrow> Panic)"

definition hexDecodeLength :: "bytes \<Rightarrow> nat result" where
  "hexDecodeLength buf =
     (if length buf < 4 then Error (Wrapped ''small pkt-line buffer'' ErrInvalidPktLen)
      else hexDecode_loop 0 (take LenSize buf))"

text \<open>\<open>None\<close> is the nil slice.\<close>

definition ParseLength :: "bytes option \<Rightarrow> nat result" where
  "ParseLength b =
     (case b of
        None \<Rightarrow> Error (Wrapped ''missing pkt-line'' ErrInvalidPktLen)
      | Some buf \<Rightarrow>
          rbind (hexDecodeLength buf) (\<lambda>n.
            if n = 3 then Error (Wrapped ''invalid'' ErrInvalidPktLen)
            else if n > MaxSize then Error (Wrapped ''too big'' ErrInvalidPktLen)
            else Ok n))"

definition byteToASCIIHex :: "byte \<Rightarrow> byte" where
  "byteToASCIIHex n = (if n < 10 then 48 + n else 97 - 10 + n)"

definition asciiHex16 :: "nat \<Rightarrow> bytes" where
  "asciiHex16 n =
     [byteToASCIIHex (word_of_nat (drop_bit 12 (n AND 0xf000))),
      byteToASCIIHex (word_of_nat (drop_bit 8 (n AND 0x0f00))),
      byteToASCIIHex (word_of_nat (drop_bit 4 (n AND 0x00f0))),
      byteToASCIIHex (word_of_nat (n AND 0x000f))]"

section \<open>Writing packets\<close>

text \<open>A writer is what was written to it, \<open>None\<close> for the nil interface.\<close>

type_synonym writer = "bytes option"

definition pktline_Write :: "writer \<Rightarrow> bytes \<Rightarrow> (nat \<times> writer) result" where
  "pktline_Write w p =
     (case w of
        None \<Rightarrow> Error ErrNilWriter
      | Some out \<Rightarrow>
          if length p = 0 then Ok (length emptyPkt, Some (out @ emptyPkt))
          else if length p > MaxPayloadSize then Error ErrPayloadTooLong
          else let hdr = asciiHex16 (length p + LenSize)
               in Ok (length hdr + length p, Some (out @ hdr @ p)))"

definition Writeln :: "writer \<Rightarrow> string \<Rightarrow> (nat \<times> writer) result" where
  "Writeln w s = pktline_Write w (str s @ [10])"

definition WriteString :: "writer \<Rightarrow> string \<Rightarrow> (nat \<times> writer) result" where
  "WriteString w s = pktline_Write w (str s)"

definition WriteFlush :: "bytes \<Rightarrow> bytes" where
  "WriteFlush out = out @ flushPkt"

definition WriteDelim :: "bytes \<Rightarrow> bytes" where
  "WriteDelim out = out @ delimPkt"

definition WriteResponseEnd :: "bytes \<Rightarrow> bytes" where
  "WriteResponseEnd out = out @ responseEndPkt"

definition ErrorLine_Encode :: "bytes \<Rightarrow> writer \<Rightarrow> (nat \<times> writer) result" where
  "ErrorLine_Encode e w = pktline_Write w (errPrefix @ e @ [10])"

definition WriteError :: "writer \<Rightarrow> bytes \<Rightarrow> (nat \<times> writer) result" where
  "WriteError w e = pktline_Write w (errPrefix @ e @ [10])"

section \<open>Reading packets\<close>

text \<open>
  \<^verbatim>\<open>Read\<close> returns a length and an error, which are both set for an error packet; besides them the
  model hands back what is left of the reader and the buffer.
\<close>

definition pktline_Read :: "reader \<Rightarrow> bytes \<Rightarrow> (int \<times> error option \<times> reader \<times> bytes) result" where
  "pktline_Read r p =
     rbind (slice p 0 LenSize) (\<lambda>_.
       case readFull LenSize r of
         Error e \<Rightarrow>
           Ok (Err, Some (if errors_Is e ErrUnexpectedEOF then Wrapped ''short pkt-line'' ErrInvalidPktLen else e),
               [], r @ drop (length r) p)
       | Panic \<Rightarrow> Panic
       | Ok (hdr, r) \<Rightarrow>
           let p = hdr @ drop LenSize p
           in case ParseLength (Some p) of
                Error e \<Rightarrow> Ok (Err, Some e, r, p)
              | Panic \<Rightarrow> Panic
              | Ok len \<Rightarrow>
                  if int len = Flush \<or> int len = Delim \<or> int len = ResponseEnd then Ok (int len, None, r, p)
                  else if len = LenSize then Ok (int len, None, r, p)
                  else rbind (slice p LenSize len) (\<lambda>_.
                    case readFull (len - LenSize) r of
                      Error e \<Rightarrow> Ok (Err, Some e, [], take LenSize p @ r @ drop (LenSize + length r) p)
                    | Panic \<Rightarrow> Panic
                    | Ok (data, r) \<Rightarrow>
                        let p = take LenSize p @ data @ drop len p
                        in if HasPrefix (drop LenSize p) errPrefix
                           then rbind (slice p (LenSize + errPrefixSize) len) (\<lambda>t.
                                  Ok (int len, Some (ErrorLine (TrimSpace t)), r, p))
                           else Ok (int len, None, r, p)))"

text \<open>The payload is \<open>None\<close> where the sources return nil.\<close>

definition ReadLine :: "reader \<Rightarrow> bytes \<Rightarrow> (int \<times> bytes option \<times> error option \<times> reader \<times> bytes) result" where
  "ReadLine r buf =
     rbind (pktline_Read r buf) (\<lambda>(l, err, r', buf').
       if l < int LenSize then Ok (l, None, err, r', buf')
       else rbind (slice buf' LenSize (nat l)) (\<lambda>p. Ok (l, Some p, err, r', buf')))"

text \<open>
  \<^verbatim>\<open>Peek\<close> of a \<^verbatim>\<open>bufio.Reader\<close> with a buffer of \<open>sz\<close> bytes.
\<close>

definition bufio_Peek :: "nat \<Rightarrow> reader \<Rightarrow> nat \<Rightarrow> bytes result" where
  "bufio_Peek sz r n =
     (if n > sz then Error (Sentinel ''bufio.ErrBufferFull'')
      else if length r < n then Error EOF else Ok (take n r))"

definition PeekLine :: "nat \<Rightarrow> reader \<Rightarrow> (int \<times> bytes option \<times> error option) result" where
  "PeekLine sz r =
     (case bufio_Peek sz r LenSize of
        Error e \<Rightarrow> Ok (Err, None, Some e)
      | Panic \<Rightarrow> Panic
      | Ok n \<Rightarrow>
          case ParseLength (Some n) of
            Error e \<Rightarrow> Ok (Err, None, Some e)
          | Panic \<Rightarrow> Panic
          | Ok len \<Rightarrow>
              if int len = Flush \<or> int len = Delim \<or> int len = ResponseEnd then Ok (int len, None, None)
              else if len = LenSize then Ok (int len, Some [], None)
              else case bufio_Peek sz r len of
                     Error e \<Rightarrow> Ok (Err, None, Some e)
                   | Panic \<Rightarrow> Panic
                   | Ok data \<Rightarrow>
                       rbind (slice data LenSize len) (\<lambda>buf.
                         if HasPrefix buf errPrefix
                         then rbind (slice buf errPrefixSize (length buf)) (\<lambda>t.
                                Ok (int len, Some buf, Some (ErrorLine (TrimSpace t))))
                         else Ok (int len, Some buf, None)))"

text \<open>Decoding an error line; the buffer comes from the pool.\<close>

definition ErrorLine_Decode :: "reader \<Rightarrow> bytes \<Rightarrow> (bytes \<times> reader) result" where
  "ErrorLine_Decode r buf =
     rbind (ReadLine r buf) (\<lambda>(l, p, err, r', buf').
       case err of
         Some (ErrorLine t) \<Rightarrow> Ok (t, r')
       | _ \<Rightarrow> Error ErrInvalidErrorLine)"

section \<open>The scanner\<close>

record Scanner =
  sc_r :: "reader option"
  sc_err :: "error option"
  sc_buf :: bytes
  sc_n :: int

definition NewScanner :: "reader option \<Rightarrow> Scanner" where
  "NewScanner r = \<lparr>sc_r = r, sc_err = None, sc_buf = replicate MaxSize 0, sc_n = 0\<rparr>"

definition Scan :: "Scanner \<Rightarrow> (bool \<times> Scanner) result" where
  "Scan s =
     (case sc_r s of
        None \<Rightarrow> Ok (False, s)
      | Some r \<Rightarrow>
          rbind (pktline_Read r (sc_buf s)) (\<lambda>(n, err, r', buf').
            let s = s\<lparr>sc_r := Some r', sc_err := err, sc_buf := buf', sc_n := n\<rparr>
            in case err of
                 None \<Rightarrow> Ok (True, s)
               | Some e \<Rightarrow> if errors_Is e EOF then Ok (False, s\<lparr>sc_err := None\<rparr>) else Ok (False, s)))"

definition Scanner_Bytes :: "Scanner \<Rightarrow> bytes option result" where
  "Scanner_Bytes s =
     (if sc_n s \<ge> int LenSize
      then rbind (slice (sc_buf s) LenSize (nat (sc_n s))) (\<lambda>b. Ok (Some b)) else Ok None)"

definition Scanner_Len :: "Scanner \<Rightarrow> int" where
  "Scanner_Len s = sc_n s"

definition Scanner_Err :: "Scanner \<Rightarrow> error option" where
  "Scanner_Err s = sc_err s"


section \<open>Lengths are read as they are written\<close>

lemma consts_eval [simp]:
  "LenSize = 4" "MaxSize = 65520" "MaxPayloadSize = 65516" "errPrefixSize = 4"
  "length emptyPkt = 4" "length errPrefix = 4" "Flush = 0" "Delim = 1" "ResponseEnd = 2" "Err = -1"
  by (simp_all add: LenSize_def MaxSize_def MaxPayloadSize_def errPrefixSize_def emptyPkt_def errPrefix_def
      Flush_def Delim_def ResponseEnd_def Err_def)

lemma asciiHexToByte_no_panic [no_panic, simp]: "asciiHexToByte b \<noteq> Panic"
  by (simp add: asciiHexToByte_def)

lemma hexDecode_loop_no_panic [no_panic, simp]: "hexDecode_loop ret bs \<noteq> Panic"
  by (induction ret bs rule: hexDecode_loop.induct) (auto split: result.split)

lemma ParseLength_no_panic [no_panic, simp]: "ParseLength b \<noteq> Panic"
  by (auto simp: ParseLength_def hexDecodeLength_def split: option.split)

lemma asciiHexToByte_byteToASCIIHex:
  assumes "m < 16"
  shows "asciiHexToByte (byteToASCIIHex (word_of_nat m)) = Ok (word_of_nat m)"
proof -
  have "m = 0 \<or> m = 1 \<or> m = 2 \<or> m = 3 \<or> m = 4 \<or> m = 5 \<or> m = 6 \<or> m = 7 \<or>
      m = 8 \<or> m = 9 \<or> m = 10 \<or> m = 11 \<or> m = 12 \<or> m = 13 \<or> m = 14 \<or> m = 15"
    using assms by presburger
  then show ?thesis by (elim disjE) (simp_all add: asciiHexToByte_def byteToASCIIHex_def)
qed

lemma nibble:
  "drop_bit k (n AND push_bit k 15) = n div 2 ^ k mod 16" for n :: nat
proof -
  have "drop_bit k (n AND push_bit k (mask 4)) = take_bit 4 (drop_bit k n)"
    by (rule bit_eqI) (auto simp: bit_drop_bit_eq bit_and_iff bit_push_bit_iff bit_mask_iff bit_take_bit_iff)
  moreover have "(15::nat) = mask 4" by (simp add: mask_eq_exp_minus_1)
  ultimately show ?thesis by (simp only: take_bit_eq_mod drop_bit_eq_div) simp
qed

lemma asciiHex16_digits:
  "asciiHex16 n = map (\<lambda>k. byteToASCIIHex (word_of_nat (n div 16 ^ k mod 16))) [3, 2, 1, 0]"
  using nibble [of 12 n] nibble [of 8 n] nibble [of 4 n] nibble [of 0 n]
  by (simp add: asciiHex16_def)

lemma length_asciiHex16 [simp]: "length (asciiHex16 n) = 4"
  by (simp add: asciiHex16_def)

lemma unat_nibble: "m < 16 \<Longrightarrow> unat (word_of_nat m :: byte) = m"
  by (simp add: unat_byte_of_nat)

lemma digits_value:
  fixes n :: nat
  assumes "n < 65536"
  shows "16 * (16 * (16 * (n div 4096 mod 16) + n div 256 mod 16) + n div 16 mod 16) + n mod 16 = n"
proof -
  have "n div 4096 mod 16 = n div 4096" using assms by simp
  moreover have "n div 256 = n div 16 div 16" "n div 4096 = n div 16 div 16 div 16"
    by (simp_all add: div_mult2_eq [symmetric])
  ultimately show ?thesis by (simp only: mult_div_mod_eq)
qed

lemma hexDecodeLength_asciiHex16:
  "n < 65536 \<Longrightarrow> hexDecodeLength (asciiHex16 n @ rest) = Ok n"
  using digits_value [of n]
  by (simp add: hexDecodeLength_def asciiHex16_digits asciiHexToByte_byteToASCIIHex unat_nibble)

lemma ParseLength_asciiHex16:
  "n \<le> MaxSize \<Longrightarrow> n \<noteq> 3 \<Longrightarrow> ParseLength (Some (asciiHex16 n @ rest)) = Ok n"
  by (simp add: ParseLength_def hexDecodeLength_asciiHex16)

section \<open>Packets are read as they are written\<close>

definition packet :: "bytes \<Rightarrow> bytes" where
  "packet p = (if p = [] then emptyPkt else asciiHex16 (length p + LenSize) @ p)"

lemma emptyPkt_asciiHex16: "emptyPkt = asciiHex16 4"
  by (simp add: emptyPkt_def asciiHex16_digits byteToASCIIHex_def of_char_def)

lemma packet_eq: "packet p = asciiHex16 (length p + 4) @ p"
  by (simp add: packet_def emptyPkt_asciiHex16)

lemma pktline_Write_packet:
  "length p \<le> MaxPayloadSize \<Longrightarrow>
     pktline_Write (Some out) p = Ok (length p + 4, Some (out @ packet p))"
  by (auto simp: pktline_Write_def packet_def Let_def)

text \<open>The buffer after a packet was read into it, and whether it starts with the error prefix.\<close>

definition filled :: "bytes \<Rightarrow> bytes \<Rightarrow> bytes" where
  "filled p buf = packet p @ drop (length p + 4) buf"

lemma length_filled: "length p + 4 \<le> length buf \<Longrightarrow> length (filled p buf) = length buf"
  by (simp add: filled_def packet_eq)

lemma pktline_Read_packet:
  assumes "length p \<le> MaxPayloadSize" and "length buf = MaxSize"
  shows "pktline_Read (packet p @ rest) buf =
    (if p \<noteq> [] \<and> HasPrefix (drop 4 (filled p buf)) errPrefix
     then rbind (slice (filled p buf) 8 (length p + 4)) (\<lambda>t.
       Ok (int (length p + 4), Some (ErrorLine (TrimSpace t)), rest, filled p buf))
     else Ok (int (length p + 4), None, rest, filled p buf))"
proof (cases "p = []")
  case True
  then show ?thesis using assms(2) ParseLength_asciiHex16 [of 4]
    by (simp add: pktline_Read_def packet_eq filled_def)
next
  case False
  have "pktline_Read (asciiHex16 (length p + 4) @ p @ rest) buf =
    (let q = asciiHex16 (length p + 4) @ p @ drop (length p + 4) buf
     in if HasPrefix (drop 4 q) errPrefix
       then rbind (slice q 8 (length p + 4)) (\<lambda>t.
         Ok (int (length p + 4), Some (ErrorLine (TrimSpace t)), rest, q))
       else Ok (int (length p + 4), None, rest, q))"
    using assms False ParseLength_asciiHex16 [of "length p + 4" "drop 4 buf"]
    by (simp add: pktline_Read_def readFull_append add.commute Let_def)
  then show ?thesis using False by (simp add: packet_eq filled_def Let_def)
qed

lemma slice_filled:
  "length p + 4 \<le> length buf \<Longrightarrow> slice (filled p buf) 4 (length p + 4) = Ok p"
  by (simp add: filled_def packet_eq)

lemma not_error_prefix:
  "p \<noteq> [] \<Longrightarrow> \<not> HasPrefix errPrefix (take 4 p) \<Longrightarrow> \<not> HasPrefix (p @ stale) errPrefix"
proof
  assume p: "\<not> HasPrefix errPrefix (take 4 p)" and "HasPrefix (p @ stale) errPrefix"
  then have "take 4 p @ take (4 - length p) stale = errPrefix" by (simp add: HasPrefix_def)
  then have "HasPrefix errPrefix (take 4 p)" unfolding HasPrefix_iff by metis
  with p show False by contradiction
qed

lemma drop_filled: "drop 4 (filled p buf) = p @ drop (length p + 4) buf"
  by (simp add: filled_def packet_eq)

lemma ReadLine_packet:
  assumes "length p \<le> MaxPayloadSize" and "length buf = MaxSize"
    and "p = [] \<or> \<not> HasPrefix (p @ drop (length p + 4) buf) errPrefix"
  shows "ReadLine (packet p @ rest) buf = Ok (int (length p + 4), Some p, None, rest, filled p buf)"
  using assms slice_filled [of p buf]
  by (auto simp: ReadLine_def pktline_Read_packet drop_filled nat_add_distrib)

lemma ReadLine_flush:
  assumes "length buf = MaxSize"
  shows "ReadLine (flushPkt @ rest) buf = Ok (0, None, None, rest, flushPkt @ drop 4 buf)"
proof -
  have flush: "flushPkt = asciiHex16 0"
    by (simp add: flushPkt_def asciiHex16_digits byteToASCIIHex_def of_char_def)
  show ?thesis using assms ParseLength_asciiHex16 [of 0]
    by (simp add: flush ReadLine_def pktline_Read_def)
qed

lemma PeekLine_packet:
  assumes "length p \<le> MaxPayloadSize" and "4 \<le> sz" and "\<not> HasPrefix p errPrefix"
  shows "PeekLine sz (packet p @ rest) =
    (if length p + 4 \<le> sz then Ok (int (length p + 4), Some p, None)
     else Ok (Err, None, Some (Sentinel ''bufio.ErrBufferFull'')))"
proof -
  have "PeekLine sz (asciiHex16 (length p + 4) @ p @ rest) =
      (if length p + 4 \<le> sz then Ok (int (length p + 4), Some p, None)
       else Ok (Err, None, Some (Sentinel ''bufio.ErrBufferFull'')))"
    using assms ParseLength_asciiHex16 [of "length p + 4" "[]"]
    by (cases "p = []") (simp_all add: PeekLine_def bufio_Peek_def)
  then show ?thesis by (simp add: packet_eq)
qed

text \<open>
  C9. A payload of at most the maximal size is written as one packet, and reading that packet
  yields the payload, the packet's length and the reader behind it. Peeking yields the same where
  the packet fits the peeked reader's buffer of \<open>sz\<close> bytes, and the buffer-full error where it does
  not (a \<^verbatim>\<open>bufio.Reader\<close> has at least 16 bytes, and 4096 by default). The buffer that the packet is
  read into may hold anything, as long as the payload is empty or, followed by what the buffer
  holds behind it, does not start with the error prefix.
\<close>

theorem pktline_roundtrip:
  assumes "length p \<le> MaxPayloadSize" and "length buf = MaxSize" and "16 \<le> sz"
    and "p = [] \<or> \<not> HasPrefix (p @ drop (length p + LenSize) buf) errPrefix"
  shows "\<exists>out buf'. pktline_Write (Some w) p = Ok (length p + LenSize, Some (w @ out)) \<and>
    ReadLine (out @ rest) buf = Ok (int (length p + LenSize), Some p, None, rest, buf') \<and>
    length buf' = MaxSize \<and>
    PeekLine sz (out @ rest) =
      (if length p + LenSize \<le> sz then Ok (int (length p + LenSize), Some p, None)
       else Ok (Err, None, Some (Sentinel ''bufio.ErrBufferFull'')))"
proof -
  have "\<not> HasPrefix p errPrefix"
    using assms(4) by (auto simp: HasPrefix_def errPrefix_def)
  moreover have "p = [] \<or> \<not> HasPrefix (p @ drop (length p + 4) buf) errPrefix" using assms(4) by simp
  ultimately show ?thesis using assms(1-3) length_filled [of p buf]
    by (intro exI [of _ "packet p"] exI [of _ "filled p buf"])
      (simp add: pktline_Write_packet ReadLine_packet PeekLine_packet)
qed

theorem pktline_roundtrip_witness:
  "\<exists>out buf'. pktline_Write (Some [7]) [1, 2, 3] = Ok (length [1, 2, 3 :: byte] + LenSize, Some ([7] @ out)) \<and>
    ReadLine (out @ [9]) (replicate 65520 0) = Ok (int (length [1, 2, 3 :: byte] + LenSize), Some [1, 2, 3], None, [9], buf') \<and>
    length buf' = MaxSize \<and>
    PeekLine 4096 (out @ [9]) =
      (if length [1, 2, 3 :: byte] + LenSize \<le> 4096
       then Ok (int (length [1, 2, 3 :: byte] + LenSize), Some [1, 2, 3], None)
       else Ok (Err, None, Some (Sentinel ''bufio.ErrBufferFull'')))"
  by (rule pktline_roundtrip) (simp_all add: HasPrefix_def errPrefix_def of_char_def)

text \<open>
  An error line that is written is read as an error with the same text, up to the white space
  around it, whatever the buffer held before.
\<close>

theorem ErrorLine_roundtrip:
  assumes "length t + 5 \<le> MaxPayloadSize" and "length buf = MaxSize"
  shows "\<exists>out. ErrorLine_Encode t (Some w) = Ok (length t + 9, Some (w @ out)) \<and>
    ErrorLine_Decode (out @ rest) buf = Ok (TrimSpace (t @ [10]), rest)"
proof -
  let ?p = "errPrefix @ t @ [10]"
  have len: "length ?p = length t + 5" by simp
  then have size: "length ?p \<le> MaxPayloadSize" using assms(1) by simp
  have "HasPrefix (drop 4 (filled ?p buf)) errPrefix" "?p \<noteq> []"
    by (simp_all add: drop_filled)
  moreover have "slice (filled ?p buf) 8 (length ?p + 4) = Ok (t @ [10])"
    using assms by (simp add: filled_def packet_eq)
  ultimately have "ReadLine (packet ?p @ rest) buf =
      Ok (int (length ?p + 4), Some ?p, Some (ErrorLine (TrimSpace (t @ [10]))), rest, filled ?p buf)"
    using pktline_Read_packet [OF size assms(2), of rest] slice_filled [of ?p buf] assms
    by (simp add: ReadLine_def nat_add_distrib)
  then have "ErrorLine_Decode (packet ?p @ rest) buf = Ok (TrimSpace (t @ [10]), rest)"
    by (simp add: ErrorLine_Decode_def)
  then show ?thesis using pktline_Write_packet [OF size, of w]
    by (intro exI [of _ "packet ?p"]) (simp add: ErrorLine_Encode_def)
qed

theorem ErrorLine_roundtrip_witness:
  "\<exists>out. ErrorLine_Encode [65, 66] (Some []) = Ok (length [65, 66 :: byte] + 9, Some ([] @ out)) \<and>
    ErrorLine_Decode (out @ [9]) (replicate 65520 1) = Ok (TrimSpace ([65, 66] @ [10]), [9])"
  by (rule ErrorLine_roundtrip) simp_all

text \<open>
  C10. A packet of one byte panics the reader after an error line was read into the same buffer:
  the check for the error prefix looks at the whole buffer, not at the packet.
\<close>

theorem ReadLine_stale_buffer_panics:
  assumes "length t + 5 \<le> MaxPayloadSize" and "length buf = MaxSize"
  shows "\<exists>out1 out2 l p e buf'. ErrorLine_Encode t (Some []) = Ok (length t + 9, Some out1) \<and>
    pktline_Write (Some []) (str ''E'') = Ok (5, Some out2) \<and>
    ReadLine out1 buf = Ok (l, p, e, [], buf') \<and> ReadLine out2 buf' = Panic"
proof -
  let ?p = "errPrefix @ t @ [10]" and ?q = "str ''E''"
  have len: "length ?p = length t + 5" by simp
  then have size: "length ?p \<le> MaxPayloadSize" using assms(1) by simp
  have "HasPrefix (drop 4 (filled ?p buf)) errPrefix" "?p \<noteq> []" by (simp_all add: drop_filled)
  moreover have "slice (filled ?p buf) 8 (length ?p + 4) = Ok (t @ [10])"
    using assms by (simp add: filled_def packet_eq)
  ultimately have r1: "ReadLine (packet ?p) buf =
      Ok (int (length ?p + 4), Some ?p, Some (ErrorLine (TrimSpace (t @ [10]))), [], filled ?p buf)"
    using pktline_Read_packet [OF size assms(2), of "[]"] slice_filled [of ?p buf] assms
    by (simp add: ReadLine_def nat_add_distrib)
  have buf': "length (filled ?p buf) = MaxSize" using assms len length_filled [of ?p buf] by simp
  have "drop 5 (filled ?p buf) = drop 1 (?p @ drop (length ?p + 4) buf)"
    unfolding drop_filled [symmetric] by simp
  then have "HasPrefix (drop 4 (filled ?q (filled ?p buf))) errPrefix"
    unfolding drop_filled [of ?q] by (simp add: HasPrefix_def errPrefix_def)
  moreover have "slice (filled ?q (filled ?p buf)) 8 (length ?q + 4) = Panic" by (simp add: slice_def)
  ultimately have "ReadLine (packet ?q) (filled ?p buf) = Panic"
    using pktline_Read_packet [of ?q "filled ?p buf" "[]"] buf' by (simp add: ReadLine_def)
  with r1 show ?thesis using pktline_Write_packet [OF size, of "[]"] pktline_Write_packet [of ?q "[]"]
    by (simp add: ErrorLine_Encode_def)
qed

theorem ReadLine_stale_buffer_panics_witness:
  "\<exists>out1 out2 l p e buf'. ErrorLine_Encode [65] (Some []) = Ok (length [65 :: byte] + 9, Some out1) \<and>
    pktline_Write (Some []) (str ''E'') = Ok (5, Some out2) \<and>
    ReadLine out1 (replicate 65520 0) = Ok (l, p, e, [], buf') \<and> ReadLine out2 buf' = Panic"
  by (rule ReadLine_stale_buffer_panics) simp_all

section \<open>Scanning a sequence of packets\<close>

text \<open>The loop of a client: payloads are collected while \<^verbatim>\<open>Scan\<close> answers true, at most \<open>n\<close> of them.\<close>

fun scanPayloads :: "nat \<Rightarrow> Scanner \<Rightarrow> (bytes option list \<times> Scanner) result" where
  "scanPayloads 0 s = Ok ([], s)"
| "scanPayloads (Suc n) s =
     rbind (Scan s) (\<lambda>(more, s').
       if more
       then rbind (Scanner_Bytes s') (\<lambda>p.
            rbind (scanPayloads n s') (\<lambda>(ps, s''). Ok (p # ps, s'')))
       else Ok ([], s'))"

definition plain_payload :: "bytes \<Rightarrow> bool" where
  "plain_payload p \<longleftrightarrow> length p \<le> MaxPayloadSize \<and> (p = [] \<or> \<not> HasPrefix errPrefix (take 4 p))"

lemma Scan_packet:
  assumes "plain_payload p" and "sc_r s = Some (packet p @ rest)" and "length (sc_buf s) = MaxSize"
  shows "Scan s = Ok (True, s\<lparr>sc_r := Some rest, sc_err := None, sc_buf := filled p (sc_buf s),
    sc_n := int (length p + 4)\<rparr>)"
proof -
  have "p = [] \<or> \<not> HasPrefix (drop 4 (filled p (sc_buf s))) errPrefix"
    using assms(1) not_error_prefix [of p] by (auto simp: plain_payload_def drop_filled)
  then show ?thesis
    using assms pktline_Read_packet [of p "sc_buf s" rest]
    by (auto simp: Scan_def plain_payload_def)
qed

text \<open>
  Scanning the packets of a sequence of payloads yields these payloads in order and then ends
  without an error; empty payloads are reported as such, and packets of any other content do not
  interfere with each other although they share the scanner's buffer.
\<close>

theorem Scanner_sequence:
  assumes "list_all plain_payload ps" and "length ps \<le> n"
  shows "\<exists>s. scanPayloads (Suc n) (NewScanner (Some (concat (map packet ps)))) = Ok (map Some ps, s) \<and>
    Scanner_Err s = None"
proof -
  have "\<exists>s'. scanPayloads (Suc n) s = Ok (map Some ps, s') \<and> Scanner_Err s' = None"
    if "sc_r s = Some (concat (map packet ps))" "length (sc_buf s) = MaxSize" for s
    using assms that
  proof (induction ps arbitrary: n s)
    case Nil
    then show ?case
      by (simp add: Scan_def pktline_Read_def readFull_def Scanner_Err_def)
  next
    case (Cons p ps)
    then obtain m where n: "n = Suc m" by (cases n) auto
    let ?s = "s\<lparr>sc_r := Some (concat (map packet ps)), sc_err := None, sc_buf := filled p (sc_buf s),
      sc_n := int (length p + 4)\<rparr>"
    have p: "plain_payload p" "length p + 4 \<le> length (sc_buf s)" 
      using Cons.prems by (auto simp: plain_payload_def)
    have "Scan s = Ok (True, ?s)" using Cons.prems p by (intro Scan_packet) auto
    moreover have "Scanner_Bytes ?s = Ok (Some p)"
      using slice_filled [OF p(2)] by (simp add: Scanner_Bytes_def nat_add_distrib)
    moreover have "\<exists>s'. scanPayloads (Suc m) ?s = Ok (map Some ps, s') \<and> Scanner_Err s' = None"
      using Cons.IH [of m ?s] Cons.prems n length_filled [OF p(2)] by simp
    ultimately show ?case unfolding n by (auto simp del: of_nat_add)
  qed
  from this [of "NewScanner (Some (concat (map packet ps)))"] show ?thesis by (simp add: NewScanner_def)
qed

theorem Scanner_sequence_witness:
  "\<exists>s. scanPayloads (Suc 3) (NewScanner (Some (concat (map packet [[1, 2], [], str ''ok''])))) =
      Ok (map Some [[1, 2], [], str ''ok''], s) \<and> Scanner_Err s = None"
  by (rule Scanner_sequence)
    (simp_all add: plain_payload_def HasPrefix_def errPrefix_def of_char_def)

end
