(* ===== verification/Sideband.thy ===== *)
theory Sideband
  imports Pktline
begin

text \<open>
  Side bands: \<^verbatim>\<open>plumbing/protocol/packp/sideband\<close> (\<open>common.go\<close>, \<open>muxer.go\<close>, \<open>demux.go\<close>). The
  demultiplexer's state carries the buffer that \<^verbatim>\<open>pktline.ReadLine\<close> takes from its pool. The
  pending bytes of a demultiplexer are a slice of that buffer in the sources; they are read before
  the demultiplexer reads its next packet, so they are a value here.
\<close>

section \<open>Types and channels\<close>

type_synonym Type = int

definition Sideband :: Type where "Sideband = 0"
definition Sideband64k :: Type where "Sideband64k = 1"
definition MaxPackedSize :: nat where "MaxPackedSize = 1000"
definition MaxPackedSize64k :: nat where "MaxPackedSize64k = 65520"

type_synonym Channel = byte

definition PackData :: Channel where "PackData = 1"
definition ProgressMessage :: Channel where "ProgressMessage = 2"
definition ErrorMessage :: Channel where "ErrorMessage = 3"

definition WithPayload :: "Channel \<Rightarrow> bytes \<Rightarrow> bytes" where
  "WithPayload ch payload = ch # payload"

abbreviation ErrMaxPackedExceeded :: error where
  "ErrMaxPackedExceeded \<equiv> Sentinel ''ErrMaxPackedExceeded''"

section \<open>The multiplexer\<close>

definition chLen :: nat where "chLen = 1"

record Muxer =
  mx_max :: nat
  mx_w :: writer

definition NewMuxer :: "Type \<Rightarrow> writer \<Rightarrow> Muxer" where
  "NewMuxer t w =
     (let max = (if t = Sideband then MaxPackedSize else MaxPackedSize64k)
      in \<lparr>mx_max = max - chLen, mx_w = w\<rparr>)"

text \<open>
  The count and the error of a write, with the multiplexer after it. Writing a packet does not
  panic, so the last case does not occur.
\<close>

definition Muxer_doWrite :: "Muxer \<Rightarrow> Channel \<Rightarrow> bytes \<Rightarrow> nat \<times> error option \<times> Muxer" where
  "Muxer_doWrite m ch p =
     (let sz = (if length p > mx_max m then mx_max m else length p)
      in case pktline_Write (mx_w m) (WithPayload ch (take sz p)) of
           Ok (n, w) \<Rightarrow> (sz, None, m\<lparr>mx_w := w\<rparr>)
         | Error e \<Rightarrow> (sz, Some e, m)
         | Panic \<Rightarrow> (sz, None, m))"

text \<open>The loop does not end when the maximum is 0; the outer \<open>option\<close> is \<open>None\<close> for that.\<close>

partial_function (option) Muxer_WriteChannel_loop ::
    "Channel \<Rightarrow> bytes \<Rightarrow> nat \<Rightarrow> Muxer \<Rightarrow> (nat \<times> error option \<times> Muxer) option" where
  "Muxer_WriteChannel_loop ch p wrote m =
     (if wrote < length p
      then let (n, err, m') = Muxer_doWrite m ch (drop wrote p)
           in case err of
                Some e \<Rightarrow> Some (wrote + n, Some e, m')
              | None \<Rightarrow> Muxer_WriteChannel_loop ch p (wrote + n) m'
      else Some (wrote, None, m))"

definition Muxer_WriteChannel :: "Muxer \<Rightarrow> Channel \<Rightarrow> bytes \<Rightarrow> (nat \<times> error option \<times> Muxer) option" where
  "Muxer_WriteChannel m ch p = Muxer_WriteChannel_loop ch p 0 m"

definition Muxer_Write :: "Muxer \<Rightarrow> bytes \<Rightarrow> (nat \<times> error option \<times> Muxer) option" where
  "Muxer_Write m p = Muxer_WriteChannel m PackData p"

section \<open>The demultiplexer\<close>

record Demuxer =
  dm_r :: reader
  dm_max :: nat
  dm_pending :: bytes
  dm_Progress :: writer
  dm_buf :: bytes

definition NewDemuxer :: "Type \<Rightarrow> reader \<Rightarrow> writer \<Rightarrow> bytes \<Rightarrow> Demuxer" where
  "NewDemuxer t r progress buf =
     (let max = (if t = Sideband then MaxPackedSize else MaxPackedSize64k)
      in \<lparr>dm_r = r, dm_max = max, dm_pending = [], dm_Progress = progress, dm_buf = buf\<rparr>)"

definition getPending :: "Demuxer \<Rightarrow> bytes \<times> Demuxer" where
  "getPending d = (if length (dm_pending d) = 0 then ([], d) else (dm_pending d, d\<lparr>dm_pending := []\<rparr>))"

definition nextPackData :: "Demuxer \<Rightarrow> (bytes \<times> error option \<times> Demuxer) result" where
  "nextPackData d0 =
     (let (content, d) = getPending d0
      in if length content \<noteq> 0 then Ok (content, None, d)
         else rbind (ReadLine (dm_r d) (dm_buf d)) (\<lambda>(l, p, err, r', buf').
           let d = d\<lparr>dm_r := r', dm_buf := buf'\<rparr>
           in case err of
                Some e \<Rightarrow> Ok ([], Some e, d)
              | None \<Rightarrow>
                  if l = Flush then Ok ([], Some EOF, d)
                  else if l > int (dm_max d) then Ok ([], Some ErrMaxPackedExceeded, d)
                  else case p of
                         None \<Rightarrow> Ok ([], Some (Sentinel ''invalid sideband pktline''), d)
                       | Some [] \<Rightarrow> Ok ([], Some (Sentinel ''invalid sideband pktline''), d)
                       | Some (ch # rest) \<Rightarrow>
                           if ch = PackData then Ok (rest, None, d)
                           else if ch = ProgressMessage
                           then Ok ([], None, d\<lparr>dm_Progress := map_option (\<lambda>out. out @ rest) (dm_Progress d)\<rparr>)
                           else if ch = ErrorMessage
                           then Ok ([], Some (Sentinel (''unexpected error: '' @ unstr rest)), d)
                           else Ok ([], Some (Sentinel ''unknown channel''), d)))"

text \<open>The bytes copied to the caller's slice of length \<open>wanted\<close>.\<close>

definition doRead :: "Demuxer \<Rightarrow> nat \<Rightarrow> (bytes \<times> error option \<times> Demuxer) result" where
  "doRead d wanted =
     rbind (nextPackData d) (\<lambda>(content, err, d').
       let d' = (if length content > wanted then d'\<lparr>dm_pending := drop wanted content\<rparr> else d')
       in Ok (take (min wanted (length content)) content, err, d'))"

lemma pktline_Read_consumes:
  assumes "pktline_Read r buf = Ok (l, None, r', buf')"
  shows "l = 0 \<or> l = 1 \<or> l = 2 \<or> 4 \<le> l \<and> length r = nat l + length r' \<and>
    (4 < l \<longrightarrow> nat l \<le> length buf')"
  using assms
  by (auto simp: pktline_Read_def Let_def readFull_Ok_iff slice_def split: result.splits if_splits prod.splits)

lemma ReadLine_consumes:
  assumes "ReadLine r buf = Ok (l, Some (ch # rest), None, r', buf')"
  shows "length rest + length r' < length r"
proof -
  have read: "pktline_Read r buf = Ok (l, None, r', buf')" and l: "\<not> l < 4"
    and "slice buf' 4 (nat l) = Ok (ch # rest)"
    using assms by (auto simp: ReadLine_def split: if_splits)
  then have "length (ch # rest) = nat l - 4"
    by (metis result.distinct(3) result.inject(1) slice_def length_take length_drop diff_le_mono min.absorb2)
  then show ?thesis using pktline_Read_consumes [OF read] l by auto
qed

lemma doRead_shrinks [shrinks]:
  assumes "doRead d wanted = Ok (bs, None, d')" and "0 < wanted"
  shows "length (dm_r d') + length (dm_pending d') < length (dm_r d) + length (dm_pending d)"
proof -
  obtain content d1 where nx: "nextPackData d = Ok (content, None, d1)"
    and d': "d' = (if length content > wanted then d1\<lparr>dm_pending := drop wanted content\<rparr> else d1)"
    using assms(1) by (auto simp: doRead_def Let_def)
  have "dm_r d1 = dm_r d \<and> dm_pending d1 = [] \<and> content = dm_pending d \<and> content \<noteq> [] \<or>
      length (dm_r d1) + length content < length (dm_r d) \<and> dm_pending d1 = dm_pending d"
    using nx
    by (fastforce simp: nextPackData_def getPending_def Let_def dest: ReadLine_consumes
        split: option.splits if_splits list.splits)
  then show ?thesis using d' assms(2) by auto
qed

function Demuxer_Read_loop :: "nat \<Rightarrow> bytes \<Rightarrow> Demuxer \<Rightarrow> (bytes \<times> error option \<times> Demuxer) result" where
  "Demuxer_Read_loop req b d =
     (if length b < req
      then rbind (doRead d (req - length b)) (\<lambda>(bs, err, d').
             case err of
               Some e \<Rightarrow> Ok (b @ bs, Some e, d')
             | None \<Rightarrow> Demuxer_Read_loop req (b @ bs) d')
      else Ok (b, None, d))"
  by pat_completeness auto
termination
  by (relation "measure (\<lambda>(req, b, d). length (dm_r d) + length (dm_pending d))")
    (auto dest: doRead_shrinks)

declare Demuxer_Read_loop.simps [simp del]

definition Demuxer_Read :: "Demuxer \<Rightarrow> nat \<Rightarrow> (bytes \<times> error option \<times> Demuxer) result" where
  "Demuxer_Read d req = Demuxer_Read_loop req [] d"


section \<open>What the multiplexer writes\<close>

lemma band_consts [simp]:
  "MaxPackedSize = 1000" "MaxPackedSize64k = 65520" "chLen = 1" "Sideband = 0" "Sideband64k = 1"
  "PackData = 1" "ProgressMessage = 2" "ErrorMessage = 3" "WithPayload ch p = ch # p"
  by (simp_all add: MaxPackedSize_def MaxPackedSize64k_def chLen_def Sideband_def Sideband64k_def
      PackData_def ProgressMessage_def ErrorMessage_def WithPayload_def)

fun chunks :: "nat \<Rightarrow> bytes \<Rightarrow> bytes list" where
  "chunks n p = (if n = 0 \<or> p = [] then [] else take n p # chunks n (drop n p))"

declare chunks.simps [simp del]

lemma chunks_small:
  assumes "p \<noteq> []" and "length p \<le> n"
  shows "chunks n p = [p]"
proof -
  have "n \<noteq> 0" using assms by (cases p) auto
  with assms show ?thesis by (simp add: chunks.simps [of n p] chunks.simps [of n "[]"])
qed

lemma Muxer_loop_chunks:
  assumes "0 < mx_max m" and "mx_max m < 65516" and "mx_w m = Some w" and "wrote \<le> length p"
  shows "Muxer_WriteChannel_loop ch p wrote m = Some (length p, None,
    m\<lparr>mx_w := Some (w @ concat (map (\<lambda>c. packet (ch # c)) (chunks (mx_max m) (drop wrote p))))\<rparr>)"
  using assms
proof (induction "length p - wrote" arbitrary: wrote m w rule: less_induct)
  case less
  show ?case
  proof (cases "wrote < length p")
    case False
    with less.prems have "wrote = length p" "m\<lparr>mx_w := Some w\<rparr> = m" by simp_all
    then show ?thesis
      by (simp add: Muxer_WriteChannel_loop.simps [of ch p "length p"] chunks.simps [of _ "[]"])
  next
    case True
    let ?sz = "min (mx_max m) (length p - wrote)"
    let ?c = "take (mx_max m) (drop wrote p)"
    let ?m = "m\<lparr>mx_w := Some (w @ packet (ch # ?c))\<rparr>"
    have sz: "(if mx_max m < length p - wrote then mx_max m else length p - wrote) = ?sz"
      and take: "take ?sz (drop wrote p) = ?c"
      by (auto simp: min_def)
    have "length (ch # ?c) \<le> MaxPayloadSize" using less.prems(2) by simp
    from pktline_Write_packet [OF this, of w] less.prems(3)
    have "Muxer_doWrite m ch (drop wrote p) = (?sz, None, ?m)"
      unfolding Muxer_doWrite_def Let_def length_drop sz take by simp
    moreover have "Muxer_WriteChannel_loop ch p (wrote + ?sz) ?m = Some (length p, None,
        ?m\<lparr>mx_w := Some ((w @ packet (ch # ?c)) @
          concat (map (\<lambda>c. packet (ch # c)) (chunks (mx_max ?m) (drop (wrote + ?sz) p))))\<rparr>)"
      using less.prems True by (intro less.hyps) auto
    moreover have "chunks (mx_max m) (drop wrote p) = ?c # chunks (mx_max m) (drop (wrote + ?sz) p)"
      using less.prems(1) True
      by (simp add: chunks.simps [of _ "drop wrote p"] min_def add.commute chunks.simps [of _ "[]"])
    ultimately show ?thesis
      using True by (simp add: Muxer_WriteChannel_loop.simps [of ch p wrote])
  qed
qed

text \<open>
  The multiplexer of the 64k band cannot write a packet of its own maximal size: any write
  of 65516 bytes or more fails at its first packet, with nothing written.
\<close>

theorem Muxer_Write_64k_too_long:
  assumes "65516 \<le> length p"
  shows "Muxer_Write (NewMuxer Sideband64k (Some w)) p =
    Some (min 65519 (length p), Some ErrPayloadTooLong, NewMuxer Sideband64k (Some w))"
proof -
  let ?m = "NewMuxer Sideband64k (Some w)"
  have m: "mx_max ?m = 65519" "mx_w ?m = Some w" by (simp_all add: NewMuxer_def)
  have sz: "(if length p > 65519 then 65519 else length p) = min 65519 (length p)" by simp
  have "\<not> length (1 # take (min 65519 (length p)) p) \<le> 65516" using assms by simp
  then have "Muxer_doWrite ?m 1 p = (min 65519 (length p), Some ErrPayloadTooLong, ?m)"
    unfolding Muxer_doWrite_def m Let_def sz by (simp add: pktline_Write_def)
  moreover have "0 < length p" using assms by linarith
  ultimately show ?thesis
    by (simp add: Muxer_Write_def Muxer_WriteChannel_def Muxer_WriteChannel_loop.simps [of 1 p 0])
qed

theorem Muxer_Write_64k_too_long_witness:
  "Muxer_Write (NewMuxer Sideband64k (Some [])) (replicate 65516 0) =
    Some (min 65519 (length (replicate 65516 (0 :: byte))), Some ErrPayloadTooLong, NewMuxer Sideband64k (Some []))"
  by (rule Muxer_Write_64k_too_long) simp


section \<open>What the demultiplexer reads\<close>

lemma nextPackData_pending:
  "dm_pending d \<noteq> [] \<Longrightarrow> nextPackData d = Ok (dm_pending d, None, d\<lparr>dm_pending := []\<rparr>)"
  by (simp add: nextPackData_def getPending_def)

lemma nextPackData_packet:
  assumes "dm_pending d = []" and "dm_r d = packet (ch # p) @ rest" and "length (dm_buf d) = MaxSize"
    and "length p < 65516" and "ch = 1 \<or> ch = 2"
  defines "d' \<equiv> d\<lparr>dm_r := rest, dm_buf := filled (ch # p) (dm_buf d)\<rparr>"
  shows "nextPackData d =
    (if int (length p + 5) > int (dm_max d) then Ok ([], Some ErrMaxPackedExceeded, d')
     else if ch = 1 then Ok (p, None, d')
     else Ok ([], None, d'\<lparr>dm_Progress := map_option (\<lambda>out. out @ p) (dm_Progress d)\<rparr>))"
proof -
  have "\<not> HasPrefix ((ch # p) @ drop (length (ch # p) + 4) (dm_buf d)) errPrefix"
    using assms(5) by (auto simp: HasPrefix_def errPrefix_def of_char_def)
  then have "ReadLine (dm_r d) (dm_buf d) =
      Ok (int (length p + 5), Some (ch # p), None, rest, filled (ch # p) (dm_buf d))"
    using ReadLine_packet [of "ch # p" "dm_buf d" rest] assms(2-4) by simp
  then show ?thesis using assms(1,5) by (auto simp: nextPackData_def getPending_def d'_def)
qed

lemma nextPackData_flush:
  assumes "dm_pending d = []" and "dm_r d = flushPkt @ rest" and "length (dm_buf d) = MaxSize"
  shows "nextPackData d = Ok ([], Some EOF, d\<lparr>dm_r := rest, dm_buf := flushPkt @ drop 4 (dm_buf d)\<rparr>)"
  using ReadLine_flush [OF assms(3), of rest] assms(1,2) by (simp add: nextPackData_def getPending_def)

text \<open>
  C11. The multiplexer of the 1000-byte band writes packets that its demultiplexer refuses: a write
  of 996 bytes or more succeeds, and reading it back fails at the first packet.
\<close>

theorem Muxer_Demuxer_oversize:
  assumes "996 \<le> length p" and "length buf = MaxSize" and "0 < req"
  shows "\<exists>m out d. Muxer_Write (NewMuxer Sideband (Some [])) p = Some (length p, None, m) \<and>
    mx_w m = Some out \<and>
    Demuxer_Read (NewDemuxer Sideband out progress buf) req = Ok ([], Some ErrMaxPackedExceeded, d)"
proof -
  let ?c = "take 999 p"
  have p: "p \<noteq> []" using assms(1) by auto
  obtain out rest where wr: "Muxer_Write (NewMuxer Sideband (Some [])) p =
      Some (length p, None, \<lparr>mx_max = 999, mx_w = Some out\<rparr>)"
    and out: "out = packet (1 # ?c) @ rest"
    using Muxer_loop_chunks [of "\<lparr>mx_max = 999, mx_w = Some []\<rparr>" "[]" 0 p 1] p
    by (simp add: Muxer_Write_def Muxer_WriteChannel_def NewMuxer_def chunks.simps [of 999 p])
  let ?d = "NewDemuxer Sideband out progress buf"
  have "nextPackData ?d = Ok ([], Some ErrMaxPackedExceeded,
      ?d\<lparr>dm_r := rest, dm_buf := filled (1 # ?c) buf\<rparr>)"
    using nextPackData_packet [of ?d 1 ?c rest] assms(1,2) by (simp add: NewDemuxer_def out min_def)
  then show ?thesis using wr assms(3)
    by (simp add: Demuxer_Read_def Demuxer_Read_loop.simps [of req "[]"] doRead_def)
qed

theorem Muxer_Demuxer_oversize_witness:
  "\<exists>m out d. Muxer_Write (NewMuxer Sideband (Some [])) (replicate 996 0) = Some (length (replicate 996 (0 :: byte)), None, m) \<and>
    mx_w m = Some out \<and>
    Demuxer_Read (NewDemuxer Sideband out (Some []) (replicate 65520 0)) 10 = Ok ([], Some ErrMaxPackedExceeded, d)"
  by (rule Muxer_Demuxer_oversize) simp_all

lemma nextPackData_no_pending:
  assumes "nextPackData d = Ok (c, e, d')"
  shows "dm_pending d' = []"
proof (cases "dm_pending d")
  case Nil
  then show ?thesis using assms
    unfolding nextPackData_def getPending_def Let_def
    by (cases "ReadLine (dm_r d) (dm_buf d)")
      (simp_all split: option.splits if_splits list.splits prod.splits, auto)
next
  case (Cons a list)
  then show ?thesis using assms by (auto simp: nextPackData_def getPending_def)
qed

lemma Demuxer_Read_loop_split:
  "Demuxer_Read_loop req b d = Ok (x, None, d1) \<Longrightarrow> length b \<le> req \<Longrightarrow>
     Demuxer_Read_loop (req + k) b d = Demuxer_Read_loop (req + k) x d1"
proof (induction req b d rule: Demuxer_Read_loop.induct)
  case (1 req b d)
  show ?case
  proof (cases "length b < req")
    case False
    with 1(2) show ?thesis by (simp add: Demuxer_Read_loop.simps [of req b d])
  next
    case True
    let ?n = "req - length b"
    obtain bs d2 where rd: "doRead d ?n = Ok (bs, None, d2)"
      and rest: "Demuxer_Read_loop req (b @ bs) d2 = Ok (x, None, d1)"
      using 1(2) True by (auto simp: Demuxer_Read_loop.simps [of req b d] split: option.splits)
    then obtain content d3 where nx: "nextPackData d = Ok (content, None, d3)"
      and bs: "bs = take (min ?n (length content)) content"
      and d2: "d2 = (if length content > ?n then d3\<lparr>dm_pending := drop ?n content\<rparr> else d3)"
      by (auto simp: doRead_def Let_def)
    show ?thesis
    proof (cases "length content > ?n \<and> 0 < k")
      case False
      then have "doRead d (req + k - length b) = Ok (bs, None, d2)"
        using nx bs d2 True by (auto simp: doRead_def Let_def min_def)
      moreover have "length (b @ bs) \<le> req" using True by (simp add: bs)
      ultimately show ?thesis
        using 1(1) [OF True rd refl refl refl rest] True
        by (simp add: Demuxer_Read_loop.simps [of "req + k" b d])
    next
      case long: True
      then have "length (b @ bs) = req" using True bs by simp
      then have x: "x = b @ bs" "d1 = d2"
        using rest by (simp_all add: Demuxer_Read_loop.simps [of req "b @ bs"])
      have "dm_pending d3 = []" using nx by (rule nextPackData_no_pending)
      then have "nextPackData d2 = Ok (drop ?n content, None, d3)"
        using d2 long nextPackData_pending [of d2] by simp
      then have "doRead d2 k = Ok (take (min k (length content - ?n)) (drop ?n content), None,
          if length content > ?n + k then d3\<lparr>dm_pending := drop (?n + k) content\<rparr> else d3)"
        using long by (auto simp: doRead_def Let_def add.commute)
      moreover have "doRead d (?n + k) = Ok (bs @ take (min k (length content - ?n)) (drop ?n content), None,
          if length content > ?n + k then d3\<lparr>dm_pending := drop (?n + k) content\<rparr> else d3)"
        using nx long by (auto simp: doRead_def Let_def bs min_def take_add)
      moreover have "length (b @ bs) < req + k" "length b < req + k" "req + k - length b = ?n + k"
        "req + k - length (b @ bs) = k"
        using \<open>length (b @ bs) = req\<close> True long by auto
      ultimately show ?thesis
        by (simp only: x Demuxer_Read_loop.simps [of "req + k" b d] Demuxer_Read_loop.simps [of "req + k" "b @ bs" d2]
            if_True rbind.simps prod.case option.case append_assoc)
    qed
  qed
qed

lemma Demuxer_Read_loop_length:
  "Demuxer_Read_loop req b d = Ok (x, None, d1) \<Longrightarrow> length b \<le> req \<Longrightarrow> length x = req"
proof (induction req b d rule: Demuxer_Read_loop.induct)
  case (1 req b d)
  show ?case
  proof (cases "length b < req")
    case False
    with 1(2,3) show ?thesis by (simp add: Demuxer_Read_loop.simps [of req b d])
  next
    case True
    then obtain bs d2 where rd: "doRead d (req - length b) = Ok (bs, None, d2)"
      and rest: "Demuxer_Read_loop req (b @ bs) d2 = Ok (x, None, d1)"
      using 1(2) by (auto simp: Demuxer_Read_loop.simps [of req b d] split: option.splits)
    have "length (b @ bs) \<le> req" using rd True by (auto simp: doRead_def Let_def)
    with 1(1) [OF True rd refl refl refl rest] show ?thesis by simp
  qed
qed

lemma Demuxer_Read_loop_prefix:
  "Demuxer_Read_loop req b d = Ok (y, e, d1) \<Longrightarrow>
     Demuxer_Read_loop (length p + req) (p @ b) d = Ok (p @ y, e, d1)"
proof (induction req b d rule: Demuxer_Read_loop.induct)
  case (1 req b d)
  show ?case
  proof (cases "length b < req")
    case False
    then have "Demuxer_Read_loop (length p + req) (p @ b) d = Ok (p @ b, None, d)"
      by (simp add: Demuxer_Read_loop.simps [of "length p + req" "p @ b" d])
    with 1(2) False show ?thesis by (auto simp: Demuxer_Read_loop.simps [of req b d])
  next
    case True
    then obtain bs err d2 where rd: "doRead d (req - length b) = Ok (bs, err, d2)"
      using 1(2) by (auto simp: Demuxer_Read_loop.simps [of req b d])
    have n: "length p + req - length (p @ b) = req - length b" "length (p @ b) < length p + req"
      using True by simp_all
    show ?thesis
    proof (cases err)
      case None
      have "Demuxer_Read_loop req (b @ bs) d2 = Ok (y, e, d1)"
        using 1(2) True rd None by (simp add: Demuxer_Read_loop.simps [of req b d])
      from 1(1) [OF True rd refl refl None this] show ?thesis using rd n None
        by (simp add: Demuxer_Read_loop.simps [of "length p + req" "p @ b" d])
    next
      case (Some a)
      with rd n have "Demuxer_Read_loop (length p + req) (p @ b) d = Ok (p @ b @ bs, Some a, d2)"
        by (simp add: Demuxer_Read_loop.simps [of "length p + req" "p @ b" d])
      with 1(2) True rd Some show ?thesis by (auto simp: Demuxer_Read_loop.simps [of req b d])
    qed
  qed
qed

text \<open>
  Reading is insensitive to how it is cut: reading some bytes and then more is the same as
  reading all of them at once, with the same data, error and state.
\<close>

theorem Demuxer_Read_split:
  assumes "Demuxer_Read d a = Ok (x, None, d1)" and "Demuxer_Read d1 c = Ok (y, e, d2)"
  shows "Demuxer_Read d (a + c) = Ok (x @ y, e, d2)"
proof -
  have x: "length x = a" using Demuxer_Read_loop_length [of a "[]" d x d1] assms(1) by (simp add: Demuxer_Read_def)
  have "Demuxer_Read_loop (a + c) [] d = Demuxer_Read_loop (a + c) x d1"
    using assms(1) by (intro Demuxer_Read_loop_split) (simp_all add: Demuxer_Read_def)
  also have "\<dots> = Ok (x @ y, e, d2)"
    using Demuxer_Read_loop_prefix [of c "[]" d1 y e d2 x] assms(2) x by (simp add: Demuxer_Read_def add.commute)
  finally show ?thesis by (simp add: Demuxer_Read_def)
qed

theorem Demuxer_Read_split_witness:
  "\<exists>d1 d2. Demuxer_Read (NewDemuxer Sideband (packet [1, 7, 8, 9]) None (replicate 65520 0)) 1 = Ok ([7], None, d1) \<and>
    Demuxer_Read d1 2 = Ok ([8, 9], None, d2) \<and>
    Demuxer_Read (NewDemuxer Sideband (packet [1, 7, 8, 9]) None (replicate 65520 0)) (1 + 2) = Ok ([7] @ [8, 9], None, d2)"
proof -
  let ?d = "NewDemuxer Sideband (packet [1, 7, 8, 9]) None (replicate 65520 0)"
  have n: "nextPackData ?d = Ok ([7, 8, 9], None, ?d\<lparr>dm_r := [], dm_buf := filled [1, 7, 8, 9] (replicate 65520 0)\<rparr>)"
    using nextPackData_packet [of ?d 1 "[7, 8, 9]" "[]"] by (simp add: NewDemuxer_def)
  let ?d1 = "?d\<lparr>dm_r := [], dm_buf := filled [1, 7, 8, 9] (replicate 65520 0), dm_pending := [8, 9]\<rparr>"
  have 1: "Demuxer_Read ?d 1 = Ok ([7], None, ?d1)"
    using n by (simp add: Demuxer_Read_def Demuxer_Read_loop.simps [of "Suc 0" "[]"] Demuxer_Read_loop.simps [of "Suc 0" "[7]"] doRead_def)
  have 2: "Demuxer_Read ?d1 2 = Ok ([8, 9], None, ?d1\<lparr>dm_pending := []\<rparr>)"
    using nextPackData_pending [of ?d1] by (simp add: Demuxer_Read_def Demuxer_Read_loop.simps [of 2 "[]"] Demuxer_Read_loop.simps [of 2 "[8, 9]"] doRead_def)
  from 1 2 Demuxer_Read_split [OF 1 2] show ?thesis by blast
qed


section \<open>From the multiplexer to the demultiplexer\<close>

text \<open>Messages as a client writes them, one after the other, on their channels.\<close>

fun mux_all :: "Muxer \<Rightarrow> (Channel \<times> bytes) list \<Rightarrow> Muxer option" where
  "mux_all m [] = Some m"
| "mux_all m ((ch, p) # ms) =
     (case Muxer_WriteChannel m ch p of
        Some (n, None, m') \<Rightarrow> mux_all m' ms
      | _ \<Rightarrow> None)"

definition sent :: "Channel \<Rightarrow> (Channel \<times> bytes) list \<Rightarrow> bytes" where
  "sent ch ms = concat (map snd (filter (\<lambda>m. fst m = ch) ms))"

text \<open>The largest message that fits one packet of the band: 4 bytes of length, 1 of channel.\<close>

definition band_limit :: "Type \<Rightarrow> nat" where
  "band_limit t = (if t = Sideband then MaxPackedSize else MaxPackedSize64k) - (LenSize + chLen)"

definition message_ok :: "Type \<Rightarrow> Channel \<times> bytes \<Rightarrow> bool" where
  "message_ok t m \<longleftrightarrow> (fst m = PackData \<or> fst m = ProgressMessage) \<and> length (snd m) \<le> band_limit t"

definition band_packets :: "(Channel \<times> bytes) list \<Rightarrow> bytes" where
  "band_packets ms = concat (map (\<lambda>(ch, p). if p = [] then [] else packet (ch # p)) ms)"

lemma sent_simps [simp]:
  "sent ch [] = []" "sent ch (m # ms) = (if fst m = ch then snd m @ sent ch ms else sent ch ms)"
  by (simp_all add: sent_def)

lemma band_packets_simps [simp]:
  "band_packets [] = []"
  "band_packets ((ch, p) # ms) = (if p = [] then [] else packet (ch # p)) @ band_packets ms"
  by (simp_all add: band_packets_def)

lemma Muxer_small:
  assumes "length p \<le> mx_max m" and "length p < 65516" and "mx_w m = Some w"
  shows "Muxer_WriteChannel m ch p =
    Some (length p, None, m\<lparr>mx_w := Some (w @ (if p = [] then [] else packet (ch # p)))\<rparr>)"
proof (cases "p = []")
  case True
  have "m\<lparr>mx_w := Some w\<rparr> = m" using assms(3) by simp
  with True show ?thesis
    by (simp add: Muxer_WriteChannel_def Muxer_WriteChannel_loop.simps [of ch "[]"])
next
  case False
  have sz: "(if length p > mx_max m then mx_max m else length p) = length p" using assms(1) by simp
  have "length (ch # p) \<le> MaxPayloadSize" using assms(2) by simp
  from pktline_Write_packet [OF this, of w]
  have "Muxer_doWrite m ch p = (length p, None, m\<lparr>mx_w := Some (w @ packet (ch # p))\<rparr>)"
    unfolding Muxer_doWrite_def Let_def sz using assms(3) by simp
  with False show ?thesis
    by (simp add: Muxer_WriteChannel_def Muxer_WriteChannel_loop.simps [of ch p 0]
        Muxer_WriteChannel_loop.simps [of ch p "length p"])
qed

lemma mux_all_packets:
  assumes "list_all (message_ok t) ms" and "m = NewMuxer t (Some w)"
  shows "mux_all m ms = Some (NewMuxer t (Some (w @ band_packets ms)))"
  using assms
proof (induction ms arbitrary: m w)
  case (Cons x ms)
  obtain ch p where x: "x = (ch, p)" by fastforce
  have "length p \<le> mx_max m" "length p < 65516" "mx_w m = Some w"
    using Cons.prems x by (auto simp: message_ok_def band_limit_def NewMuxer_def split: if_splits)
  from Muxer_small [OF this, of ch] Cons.IH [of "NewMuxer t (Some (w @ (if p = [] then [] else packet (ch # p))))"]
    Cons.prems x
  show ?case by (auto simp: NewMuxer_def)
qed simp

lemma Demuxer_Read_loop_stream:
  assumes "list_all (message_ok t) ms" and "dm_pending d = []" and "dm_r d = band_packets ms @ flushPkt @ rest"
    and "length (dm_buf d) = MaxSize" and "dm_Progress d = Some log"
    and "dm_max d = (if t = Sideband then MaxPackedSize else MaxPackedSize64k)"
    and "length b + length (sent PackData ms) < req"
  shows "\<exists>d'. Demuxer_Read_loop req b d = Ok (b @ sent PackData ms, Some EOF, d') \<and>
    dm_Progress d' = Some (log @ sent ProgressMessage ms) \<and> dm_r d' = rest"
  using assms
proof (induction ms arbitrary: b d log)
  case Nil
  then show ?case
    using nextPackData_flush [of d rest] by (simp add: Demuxer_Read_loop.simps [of req b d] doRead_def)
next
  case (Cons x ms)
  obtain ch p where x: "x = (ch, p)" by fastforce
  show ?case
  proof (cases "p = []")
    case True
    then show ?thesis using Cons.IH [of d log b] Cons.prems x by (auto split: if_splits)
  next
    case False
    have ch: "ch = 1 \<or> ch = 2" and len: "length p + 5 \<le> dm_max d" "length p < 65516"
      using Cons.prems(1,6) x by (auto simp: message_ok_def band_limit_def split: if_splits)
    define d1 where "d1 = d\<lparr>dm_r := band_packets ms @ flushPkt @ rest, dm_buf := filled (ch # p) (dm_buf d)\<rparr>"
    define d2 where "d2 = (if ch = 1 then d1 else d1\<lparr>dm_Progress := Some (log @ p)\<rparr>)"
    have nx: "nextPackData d = Ok (if ch = 1 then p else [], None, d2)"
      using nextPackData_packet [of d ch p "band_packets ms @ flushPkt @ rest"] Cons.prems x False ch len
      by (auto simp: d1_def d2_def)
    have bound: "length (if ch = 1 then p else []) \<le> req - length b" "length b < req"
      using Cons.prems(7) x by (auto split: if_splits)
    then have "doRead d (req - length b) = Ok (if ch = 1 then p else [], None, d2)"
      using nx by (auto simp: doRead_def)
    then have "Demuxer_Read_loop req b d = Demuxer_Read_loop req (b @ (if ch = 1 then p else [])) d2"
      using bound(2) by (simp add: Demuxer_Read_loop.simps [of req b d])
    moreover have "length (filled (ch # p) (dm_buf d)) = MaxSize"
      using length_filled [of "ch # p" "dm_buf d"] len Cons.prems(4) by simp
    ultimately show ?thesis
      using Cons.IH [of d2 "if ch = 1 then log else log @ p" "b @ (if ch = 1 then p else [])"] Cons.prems x ch
      by (auto simp: d2_def d1_def)
  qed
qed

text \<open>
  C12. Data and progress messages of at most the size that fits a packet of the band, written in
  any order by the multiplexer and ended by a flush, are separated again by the demultiplexer: it
  reads exactly the data, in order, then reports the end, the progress messages have gone to the
  progress writer in order, and the stream behind the flush is untouched.
\<close>

theorem Muxer_Demuxer_roundtrip:
  assumes "list_all (message_ok t) ms" and "length (sent PackData ms) < req" and "length buf = MaxSize"
  shows "\<exists>m out d. mux_all (NewMuxer t (Some [])) ms = Some m \<and> mx_w m = Some out \<and>
    Demuxer_Read (NewDemuxer t (WriteFlush out @ rest) (Some log) buf) req = Ok (sent PackData ms, Some EOF, d) \<and>
    dm_Progress d = Some (log @ sent ProgressMessage ms) \<and> dm_r d = rest"
proof -
  let ?d = "NewDemuxer t (WriteFlush (band_packets ms) @ rest) (Some log) buf"
  have "mux_all (NewMuxer t (Some [])) ms = Some (NewMuxer t (Some (band_packets ms)))"
    using mux_all_packets [OF assms(1) refl, of "[]"] by simp
  moreover have "mx_w (NewMuxer t (Some (band_packets ms))) = Some (band_packets ms)" by (simp add: NewMuxer_def)
  moreover have "\<exists>d'. Demuxer_Read_loop req [] ?d = Ok ([] @ sent PackData ms, Some EOF, d') \<and>
      dm_Progress d' = Some (log @ sent ProgressMessage ms) \<and> dm_r d' = rest"
    using assms by (intro Demuxer_Read_loop_stream) (auto simp: NewDemuxer_def WriteFlush_def)
  ultimately show ?thesis unfolding Demuxer_Read_def by auto
qed

theorem Muxer_Demuxer_roundtrip_witness:
  "\<exists>m out d. mux_all (NewMuxer Sideband (Some [])) [(1, [7, 8]), (2, [65]), (1, [9])] = Some m \<and> mx_w m = Some out \<and>
    Demuxer_Read (NewDemuxer Sideband (WriteFlush out @ [5]) (Some []) (replicate 65520 0)) 10 =
      Ok (sent PackData [(1, [7, 8]), (2, [65]), (1, [9])], Some EOF, d) \<and>
    dm_Progress d = Some ([] @ sent ProgressMessage [(1, [7, 8]), (2, [65]), (1, [9])]) \<and> dm_r d = [5]"
  by (rule Muxer_Demuxer_roundtrip) (simp_all add: message_ok_def band_limit_def)

end
