(* ===== verification/GoScan.thy ===== *)
theory GoScan
  imports GoStrings
begin

text \<open>
  The part of Go's \<^verbatim>\<open>unicode/utf8\<close> and \<^verbatim>\<open>fmt\<close> packages behind \<^verbatim>\<open>fmt.Sscanf\<close> with \<^verbatim>\<open>%s\<close>: the input
  is read rune by rune, a token ends at a white-space rune, and the runes of a token are encoded
  again, so that a byte that is not UTF-8 comes back as the replacement character.
\<close>

section \<open>Runes\<close>

type_synonym rune = nat

definition RuneError :: rune where
  "RuneError = 0xFFFD"

text \<open>
  The first byte of an encoding of several bytes: its width, the value without payload and the
  range of the second byte, which excludes overlong encodings, surrogates and values above the
  last rune.
\<close>

definition lead :: "nat \<Rightarrow> (nat \<times> nat \<times> nat \<times> nat) option" where
  "lead b =
     (if 0xC2 \<le> b \<and> b \<le> 0xDF then Some (2, 0xC0, 0x80, 0xBF)
      else if b = 0xE0 then Some (3, 0xE0, 0xA0, 0xBF)
      else if b = 0xED then Some (3, 0xE0, 0x80, 0x9F)
      else if 0xE1 \<le> b \<and> b \<le> 0xEF then Some (3, 0xE0, 0x80, 0xBF)
      else if b = 0xF0 then Some (4, 0xF0, 0x90, 0xBF)
      else if b = 0xF4 then Some (4, 0xF0, 0x80, 0x8F)
      else if 0xF1 \<le> b \<and> b \<le> 0xF3 then Some (4, 0xF0, 0x80, 0xBF)
      else None)"

text \<open>\<^verbatim>\<open>utf8.DecodeRune\<close> of a byte string: the rune and its width.\<close>

fun DecodeRune :: "nat list \<Rightarrow> rune \<times> nat" where
  "DecodeRune [] = (RuneError, 0)"
| "DecodeRune (b0 # s) =
     (if b0 < 0x80 then (b0, 1)
      else case lead b0 of
             None \<Rightarrow> (RuneError, 1)
           | Some (n, base, lo, hi) \<Rightarrow>
               (case take (n - 1) s of
                  [] \<Rightarrow> (RuneError, 1)
                | b1 # bs \<Rightarrow>
                    if length bs = n - 2 \<and> lo \<le> b1 \<and> b1 \<le> hi \<and> list_all (\<lambda>b. 0x80 \<le> b \<and> b \<le> 0xBF) bs
                    then (foldl (\<lambda>r b. r * 64 + (b - 0x80)) (b0 - base) (b1 # bs), n)
                    else (RuneError, 1)))"

text \<open>\<^verbatim>\<open>utf8.AppendRune\<close>: a surrogate or a value above the last rune is written as the error rune.\<close>

definition scalar :: "rune \<Rightarrow> bool" where
  "scalar r \<longleftrightarrow> r < 0xD800 \<or> 0xE000 \<le> r \<and> r < 0x110000"

definition EncodeRune :: "rune \<Rightarrow> nat list" where
  "EncodeRune r =
     (let r = (if scalar r then r else RuneError)
      in if r < 0x80 then [r]
         else if r < 0x800 then [0xC0 + r div 64, 0x80 + r mod 64]
         else if r < 0x10000 then [0xE0 + r div 4096, 0x80 + r div 64 mod 64, 0x80 + r mod 64]
         else [0xF0 + r div 262144, 0x80 + r div 4096 mod 64, 0x80 + r div 64 mod 64, 0x80 + r mod 64])"

text \<open>The runes of a string, and the string of a list of runes.\<close>

function decode_runes :: "nat list \<Rightarrow> rune list" where
  "decode_runes [] = []"
| "decode_runes (b # s) = (let (r, n) = DecodeRune (b # s) in r # decode_runes (drop (n - 1) s))"
  by pat_completeness auto
termination
  by (relation "measure length") auto

definition runes :: "string \<Rightarrow> rune list" where
  "runes s = decode_runes (map of_char s)"

definition string_of_runes :: "rune list \<Rightarrow> string" where
  "string_of_runes rs = map char_of (concat (map EncodeRune rs))"

section \<open>Scanning\<close>

text \<open>The white space of \<^verbatim>\<open>fmt\<close>.\<close>

definition space :: "(rune \<times> rune) list" where
  "space = [(0x0009, 0x000d), (0x0020, 0x0020), (0x0085, 0x0085), (0x00a0, 0x00a0), (0x1680, 0x1680),
     (0x2000, 0x200a), (0x2028, 0x2029), (0x202f, 0x202f), (0x205f, 0x205f), (0x3000, 0x3000)]"

definition isSpace :: "rune \<Rightarrow> bool" where
  "isSpace r \<longleftrightarrow> list_ex (\<lambda>(lo, hi). lo \<le> r \<and> r \<le> hi) space"

text \<open>\<^verbatim>\<open>SkipSpace\<close>: blanks are skipped, a line end is an error.\<close>

fun skipSpace :: "rune list \<Rightarrow> rune list option" where
  "skipSpace [] = Some []"
| "skipSpace (r # s) =
     (if r = 10 then None
      else if r = 13 \<and> HasPrefix s [10] then None
      else if isSpace r then skipSpace s
      else Some (r # s))"

text \<open>One \<^verbatim>\<open>%s\<close>: a run of runes that are not white space, which must not be empty.\<close>

definition scan_token :: "rune list \<Rightarrow> (string \<times> rune list) option" where
  "scan_token s =
     (case skipSpace s of
        None \<Rightarrow> None
      | Some t \<Rightarrow>
          let token = takeWhile (\<lambda>r. \<not> isSpace r) t
          in if token = [] then None else Some (string_of_runes token, drop (length token) t))"

text \<open>A space of the format: at least one blank, unless the input is at its end.\<close>

definition scan_space :: "rune list \<Rightarrow> rune list option" where
  "scan_space s =
     (case s of
        [] \<Rightarrow> Some []
      | r # t \<Rightarrow>
          if \<not> isSpace r \<or> r = 10 then None
          else Some (dropWhile (\<lambda>r. isSpace r \<and> r \<noteq> 10) s))"

text \<open>\<^verbatim>\<open>fmt.Sscanf\<close> with the format \<^verbatim>\<open>%s %s %s\<close>.\<close>

definition Sscanf3 :: "string \<Rightarrow> (string \<times> string \<times> string) option" where
  "Sscanf3 s =
     Option.bind (scan_token (runes s)) (\<lambda>(a, s).
     Option.bind (scan_space s) (\<lambda>s.
     Option.bind (scan_token s) (\<lambda>(b, s).
     Option.bind (scan_space s) (\<lambda>s.
     Option.bind (scan_token s) (\<lambda>(c, s). Some (a, b, c))))))"

section \<open>Runes of encoded text\<close>

lemma DecodeRune_EncodeRune:
  assumes "scalar r"
  shows "DecodeRune (EncodeRune r @ t) = (r, length (EncodeRune r))"
proof -
  define a b c d where "a = r div 262144" and "b = r div 4096 mod 64" and "c = r div 64 mod 64" and "d = r mod 64"
  have less: "b < 64" "c < 64" "d < 64" by (simp_all add: b_def c_def d_def)
  have "r div 4096 div 64 = a" "r div 64 div 64 = r div 4096" by (simp_all add: a_def flip: div_mult2_eq)
  then have ab: "r div 4096 = a * 64 + b" and bc: "r div 64 = (a * 64 + b) * 64 + c"
    using div_mult_mod_eq [of "r div 4096" 64] div_mult_mod_eq [of "r div 64" 64] by (simp_all add: b_def c_def)
  then have r: "r = a * 262144 + b * 4096 + c * 64 + d" using div_mult_mod_eq [of r 64] by (simp add: d_def)
  consider "r < 0x80" | "0x80 \<le> r" "r < 0x800" | "0x800 \<le> r" "r < 0x10000" | "0x10000 \<le> r" "r < 0x110000"
    using assms unfolding scalar_def by linarith
  then show ?thesis
  proof cases
    case 1
    then show ?thesis using assms by (simp add: EncodeRune_def)
  next
    case 2
    then have z: "a = 0" "b = 0" using r by simp_all
    with 2 r less have "2 \<le> c" "c < 32" by linarith+
    moreover have "EncodeRune r = [0xC0 + c, 0x80 + d]" using 2 assms bc z by (simp add: EncodeRune_def d_def)
    ultimately show ?thesis using r less z by (simp add: lead_def)
  next
    case 3
    then have z: "a = 0" using r by simp
    with 3 r less have "b < 16" by linarith
    moreover have "32 \<le> c" if "b = 0" using 3 r less z that by linarith
    moreover have "c < 32" if "b = 13" using 3 r less z that assms unfolding scalar_def by linarith
    moreover have "EncodeRune r = [0xE0 + b, 0x80 + c, 0x80 + d]"
      using 3 assms ab z by (simp add: EncodeRune_def c_def d_def)
    ultimately show ?thesis using r less z by (auto simp: lead_def)
  next
    case 4
    have "a < 5" using 4 r less by linarith
    moreover have "16 \<le> b" if "a = 0" using 4 r less that by linarith
    moreover have "b < 16" if "a = 4" using 4 r less that by linarith
    moreover have "EncodeRune r = [0xF0 + a, 0x80 + b, 0x80 + c, 0x80 + d]"
      using 4 assms by (simp add: EncodeRune_def a_def b_def c_def d_def)
    ultimately show ?thesis using r less by (auto simp: lead_def)
  qed
qed

lemma EncodeRune_length: "0 < length (EncodeRune r)"
  by (simp add: EncodeRune_def Let_def)

lemma EncodeRune_less: "b \<in> set (EncodeRune r) \<Longrightarrow> b < 256"
  by (auto simp: EncodeRune_def Let_def scalar_def RuneError_def split: if_splits)

lemma decode_runes_EncodeRune:
  assumes "scalar r"
  shows "decode_runes (EncodeRune r @ t) = r # decode_runes t"
proof -
  obtain b bs where e: "EncodeRune r = b # bs" using EncodeRune_length [of r] by (cases "EncodeRune r") auto
  then have "DecodeRune (b # bs @ t) = (r, Suc (length bs))" using DecodeRune_EncodeRune [OF assms, of t] by simp
  then show ?thesis by (simp add: e del: DecodeRune.simps)
qed

lemma decode_runes_encoded:
  "list_all scalar rs \<Longrightarrow> decode_runes (concat (map EncodeRune rs) @ t) = rs @ decode_runes t"
  by (induction rs) (simp_all add: decode_runes_EncodeRune)

lemma runes_string_of_runes:
  assumes "list_all scalar rs"
  shows "runes (string_of_runes rs @ t) = rs @ runes t"
proof -
  have "map of_char (string_of_runes rs) = concat (map EncodeRune rs)"
    using EncodeRune_less by (auto simp: string_of_runes_def comp_def intro!: map_idI)
  then show ?thesis using decode_runes_encoded [OF assms] by (simp add: runes_def)
qed

text \<open>Text that is valid UTF-8 and has no white space.\<close>

definition plain_text :: "string \<Rightarrow> bool" where
  "plain_text s \<longleftrightarrow> string_of_runes (runes s) = s \<and> list_all (\<lambda>r. scalar r \<and> \<not> isSpace r) (runes s)"

definition plain_name :: "string \<Rightarrow> bool" where
  "plain_name s \<longleftrightarrow> s \<noteq> [] \<and> plain_text s"

lemma runes_plain_append: "plain_text s \<Longrightarrow> runes (s @ t) = runes s @ runes t"
  using runes_string_of_runes [of "runes s" t] by (simp add: plain_text_def list_all_iff)

lemma runes_Nil [simp]: "runes [] = []"
  by (simp add: runes_def)

lemma plain_text_append: "plain_text s \<Longrightarrow> plain_text t \<Longrightarrow> plain_text (s @ t)"
  using runes_plain_append [of s t] by (simp add: plain_text_def string_of_runes_def)

lemma plain_name_append: "plain_text s \<Longrightarrow> plain_name t \<Longrightarrow> plain_name (s @ t)"
  by (simp add: plain_name_def plain_text_append)

lemma runes_ascii: "\<forall>c \<in> set s. (of_char c :: nat) < 128 \<Longrightarrow> runes (s @ t) = map of_char s @ runes t"
  by (induction s) (simp_all add: runes_def)

lemma plain_text_visible:
  assumes "\<forall>c \<in> set s. 32 < (of_char c :: nat) \<and> (of_char c :: nat) < 127"
  shows "plain_text s"
proof -
  have "\<forall>c \<in> set s. (of_char c :: nat) < 128" using assms by force
  then have r: "runes s = map of_char s" using runes_ascii [of s "[]"] by simp
  have "concat (map (EncodeRune \<circ> of_char) s) = map of_char s"
    using assms by (induction s) (simp_all add: EncodeRune_def scalar_def)
  then have "string_of_runes (runes s) = s" by (simp add: r string_of_runes_def comp_def)
  moreover have "scalar (of_char c) \<and> \<not> isSpace (of_char c)" if "c \<in> set s" for c
    using assms that by (auto simp: scalar_def isSpace_def space_def)
  ultimately show ?thesis by (simp add: plain_text_def r list_all_iff)
qed

lemma plain_name_runes:
  assumes "plain_name s"
  shows "runes s \<noteq> []" and "list_all (\<lambda>r. \<not> isSpace r) (runes s)" and "string_of_runes (runes s) = s"
  using assms by (auto simp: plain_name_def plain_text_def list_all_iff string_of_runes_def)

section \<open>Scanning plain names\<close>

lemma isSpace_examples [simp]: "isSpace 32" "isSpace 10" "isSpace 13"
  by (simp_all add: isSpace_def space_def)

lemma skipSpace_plain: "rs \<noteq> [] \<Longrightarrow> list_all (\<lambda>r. \<not> isSpace r) rs \<Longrightarrow> skipSpace (rs @ t) = Some (rs @ t)"
proof (cases rs)
  case (Cons r us)
  assume "list_all (\<lambda>r. \<not> isSpace r) rs"
  with Cons have r: "\<not> isSpace r" by simp
  then have "r \<noteq> 10" "r \<noteq> 13" by (metis isSpace_examples(2,3))+
  with r Cons show ?thesis by simp
qed simp

lemma scan_token_plain:
  assumes "plain_name s" and "t = [] \<or> hd t = 32"
  shows "scan_token (runes s @ t) = Some (s, t)"
proof -
  note s = plain_name_runes [OF assms(1)]
  have "\<forall>r \<in> set (runes s). \<not> isSpace r" using s(2) by (simp add: list_all_iff)
  moreover have "takeWhile (\<lambda>r. \<not> isSpace r) t = []" using assms(2) by (cases t) auto
  ultimately have "takeWhile (\<lambda>r. \<not> isSpace r) (runes s @ t) = runes s" by simp
  with s(1,3) show ?thesis using skipSpace_plain [OF s(1,2)] by (simp add: scan_token_def Let_def)
qed

lemma scan_space_plain: "plain_name s \<Longrightarrow> scan_space (32 # runes s @ t) = Some (runes s @ t)"
  using plain_name_runes(1,2) [of s] by (cases "runes s") (simp_all add: scan_space_def)

lemma Sscanf3_plain:
  assumes "plain_name a" and "plain_name b" and "plain_name c"
  shows "Sscanf3 (a @ '' '' @ b @ '' '' @ c) = Some (a, b, c)"
proof -
  have "runes ('' '' @ s) = 32 # runes s" for s using runes_ascii [of "'' ''" s] by simp
  then have "runes (a @ '' '' @ b @ '' '' @ c) = runes a @ 32 # runes b @ 32 # runes c"
    using assms by (simp add: plain_name_def runes_plain_append)
  moreover have "scan_token (runes c) = Some (c, [])" "scan_space (32 # runes c) = Some (runes c)"
    using scan_token_plain [of c "[]"] scan_space_plain [of c "[]"] assms(3) by simp_all
  ultimately show ?thesis using assms scan_space_plain [of b "32 # runes c"]
    by (simp add: Sscanf3_def scan_token_plain)
qed

end
