(* ===== verification/Reference.thy ===== *)
theory Reference
  imports ObjectId GoScan
begin

text \<open>
  Reference names and references: \<^verbatim>\<open>plumbing/reference.go\<close>. A name is a string; a reference is a
  record that \<^verbatim>\<open>NewHashReference\<close> and \<^verbatim>\<open>NewSymbolicReference\<close> build.
\<close>

section \<open>Names\<close>

type_synonym ReferenceName = string

definition refPrefix :: string where "refPrefix = ''refs/''"
definition refHeadPrefix :: string where "refHeadPrefix = refPrefix @ ''heads/''"
definition refTagPrefix :: string where "refTagPrefix = refPrefix @ ''tags/''"
definition refRemotePrefix :: string where "refRemotePrefix = refPrefix @ ''remotes/''"
definition refNotePrefix :: string where "refNotePrefix = refPrefix @ ''notes/''"
definition symrefPrefix :: string where "symrefPrefix = ''ref: ''"

definition HEAD :: ReferenceName where "HEAD = ''HEAD''"
definition Master :: ReferenceName where "Master = ''refs/heads/master''"
definition Main :: ReferenceName where "Main = ''refs/heads/main''"

abbreviation ErrReferenceNotFound :: error where "ErrReferenceNotFound \<equiv> Sentinel ''ErrReferenceNotFound''"
abbreviation ErrInvalidReferenceName :: error where "ErrInvalidReferenceName \<equiv> Sentinel ''ErrInvalidReferenceName''"

definition NewBranchReferenceName :: "string \<Rightarrow> ReferenceName" where
  "NewBranchReferenceName name = refHeadPrefix @ name"

definition NewNoteReferenceName :: "string \<Rightarrow> ReferenceName" where
  "NewNoteReferenceName name = refNotePrefix @ name"

definition NewRemoteReferenceName :: "string \<Rightarrow> string \<Rightarrow> ReferenceName" where
  "NewRemoteReferenceName remote name = refRemotePrefix @ remote @ ''/'' @ name"

definition NewRemoteHEADReferenceName :: "string \<Rightarrow> ReferenceName" where
  "NewRemoteHEADReferenceName remote = refRemotePrefix @ remote @ ''/'' @ HEAD"

definition NewTagReferenceName :: "string \<Rightarrow> ReferenceName" where
  "NewTagReferenceName name = refTagPrefix @ name"

definition IsBranch :: "ReferenceName \<Rightarrow> bool" where
  "IsBranch r \<longleftrightarrow> HasPrefix r refHeadPrefix"

definition IsNote :: "ReferenceName \<Rightarrow> bool" where
  "IsNote r \<longleftrightarrow> HasPrefix r refNotePrefix"

definition IsRemote :: "ReferenceName \<Rightarrow> bool" where
  "IsRemote r \<longleftrightarrow> HasPrefix r refRemotePrefix"

definition IsTag :: "ReferenceName \<Rightarrow> bool" where
  "IsTag r \<longleftrightarrow> HasPrefix r refTagPrefix"

section \<open>Short names\<close>

text \<open>
  The rules behind the first, as the text before \<^verbatim>\<open>%s\<close> and the text behind it. \<^verbatim>\<open>fmt.Sscanf\<close> of
  \<^verbatim>\<open>%s\<close> skips blanks (failing at a line end), takes a non-empty run of characters that are not
  white space and stores it even when the text that follows in the format does not match: so a rule
  overwrites the result whenever its text before \<^verbatim>\<open>%s\<close> matches and a token follows.
\<close>

definition RefRevParseRules :: "(string \<times> string) list" where
  "RefRevParseRules =
     [('''', ''''), (''refs/'', ''''), (''refs/tags/'', ''''), (''refs/heads/'', ''''),
      (''refs/remotes/'', ''''), (''refs/remotes/'', ''/HEAD'')]"

definition Sscanf_token :: "string \<Rightarrow> string \<Rightarrow> string option" where
  "Sscanf_token s pre =
     (if HasPrefix s pre then map_option fst (scan_token (runes (drop (length pre) s))) else None)"

definition Short :: "ReferenceName \<Rightarrow> string" where
  "Short s =
     foldl (\<lambda>res (pre, post). case Sscanf_token s pre of None \<Rightarrow> res | Some token \<Rightarrow> token)
       s (tl RefRevParseRules)"

section \<open>Validation\<close>

definition ctrlSeqs :: "string \<Rightarrow> bool" where
  "ctrlSeqs s \<longleftrightarrow> list_ex (\<lambda>c. (of_char c :: nat) < 32 \<or> (of_char c :: nat) = 127) s"

definition badPart :: "string \<Rightarrow> bool" where
  "badPart part \<longleftrightarrow>
     HasPrefix part ''.'' \<or> Contains part ''..'' \<or> ctrlSeqs part \<or>
     ContainsAny part (''~^:?*[ '' @ [char_of (9 :: nat), char_of (10 :: nat)]) \<or>
     Contains part [CHR 0x40, CHR 0x7B] \<or> part = ''@'' \<or> Contains part [char_of (92 :: nat)] \<or> HasSuffix part ''.lock''"

fun Validate_loop :: "bool \<Rightarrow> bool \<Rightarrow> nat \<Rightarrow> string list \<Rightarrow> error option" where
  "Validate_loop isBranch isTag i [] = None"
| "Validate_loop isBranch isTag i (part # parts) =
     (if length part = 0 then Some ErrInvalidReferenceName
      else if badPart part then Some ErrInvalidReferenceName
      else if (isBranch \<or> isTag) \<and> HasPrefix part ''-'' \<and> i = 2 then Some ErrInvalidReferenceName
      else Validate_loop isBranch isTag (i + 1) parts)"

definition ReferenceName_Validate :: "ReferenceName \<Rightarrow> error option" where
  "ReferenceName_Validate s =
     (if length s = 0 then Some ErrInvalidReferenceName
      else if s = HEAD then None
      else if HasSuffix s ''.'' then Some ErrInvalidReferenceName
      else let parts = SplitChar s (CHR ''/'')
           in if length parts < 2 then Some ErrInvalidReferenceName
              else Validate_loop (IsBranch s) (IsTag s) 0 parts)"

section \<open>References\<close>

datatype ReferenceType = InvalidReference | HashReference | SymbolicReference

fun ReferenceType_String :: "ReferenceType \<Rightarrow> string" where
  "ReferenceType_String InvalidReference = ''invalid-reference''"
| "ReferenceType_String HashReference = ''hash-reference''"
| "ReferenceType_String SymbolicReference = ''symbolic-reference''"

record Reference =
  ref_t :: ReferenceType
  ref_n :: ReferenceName
  ref_h :: ObjectID
  ref_target :: ReferenceName

definition NewSymbolicReference :: "ReferenceName \<Rightarrow> ReferenceName \<Rightarrow> Reference" where
  "NewSymbolicReference n target = \<lparr>ref_t = SymbolicReference, ref_n = n, ref_h = ZeroHash, ref_target = target\<rparr>"

definition NewHashReference :: "ReferenceName \<Rightarrow> ObjectID \<Rightarrow> Reference" where
  "NewHashReference n h = \<lparr>ref_t = HashReference, ref_n = n, ref_h = h, ref_target = ''''\<rparr>"

definition NewReferenceFromStrings :: "string \<Rightarrow> string \<Rightarrow> Reference" where
  "NewReferenceFromStrings name target =
     (if HasPrefix target symrefPrefix
      then NewSymbolicReference name (drop (length symrefPrefix) target)
      else NewHashReference name (NewHash target))"

definition Reference_Strings :: "Reference \<Rightarrow> string \<times> string" where
  "Reference_Strings r =
     (ref_n r,
      case ref_t r of
        HashReference \<Rightarrow> ObjectID_String (ref_h r)
      | SymbolicReference \<Rightarrow> symrefPrefix @ ref_target r
      | InvalidReference \<Rightarrow> '''')"

definition Reference_String :: "Reference \<Rightarrow> string" where
  "Reference_String r =
     (case ref_t r of
        HashReference \<Rightarrow> ObjectID_String (ref_h r) @ '' '' @ ref_n r
      | SymbolicReference \<Rightarrow> (symrefPrefix @ ref_target r) @ '' '' @ ref_n r
      | InvalidReference \<Rightarrow> '''')"


section \<open>Names that pass validation\<close>

text \<open>
  The rules of the comment of \<^verbatim>\<open>Validate\<close>, each on the whole name. Rule 9 is stated as the code has
  it: no component is a single \<^verbatim>\<open>@\<close>.
\<close>

definition forbidden :: "char \<Rightarrow> bool" where
  "forbidden c \<longleftrightarrow> (of_char c :: nat) < 32 \<or> (of_char c :: nat) = 127 \<or>
     c \<in> set ''~^:?*[ '' \<or> c = char_of (92 :: nat)"

definition refname_rules :: "string \<Rightarrow> bool" where
  "refname_rules s \<longleftrightarrow>
     (\<forall>part \<in> set (SplitChar s (CHR ''/'')). \<not> HasPrefix part ''.'' \<and> \<not> HasSuffix part ''.lock'' \<and> part \<noteq> ''@'') \<and>
     CHR ''/'' \<in> set s \<and>
     \<not> Contains s ''..'' \<and>
     (\<forall>c \<in> set s. \<not> forbidden c) \<and>
     hd s \<noteq> CHR ''/'' \<and> last s \<noteq> CHR ''/'' \<and> \<not> Contains s ''//'' \<and>
     \<not> HasSuffix s ''.'' \<and>
     \<not> Contains s [CHR 0x40, CHR 0x7B]"

lemma Validate_loop_None:
  "Validate_loop br tg i parts = None \<longleftrightarrow>
     [] \<notin> set parts \<and> (\<forall>part \<in> set parts. \<not> badPart part) \<and>
     \<not> ((br \<or> tg) \<and> i \<le> 2 \<and> 2 - i < length parts \<and> HasPrefix (parts ! (2 - i)) ''-'')"
proof (induction br tg i parts rule: Validate_loop.induct)
  case (2 br tg i part parts)
  show ?case
  proof (cases "i \<le> 1")
    case True
    then have "2 - i = Suc (2 - (i + 1))" by simp
    with 2 True show ?thesis by (auto simp: nth_Cons')
  next
    case False
    then consider "i = 2" | "2 < i" by linarith
    then show ?thesis using 2 by cases auto
  qed
qed simp

lemma badPart_iff:
  "badPart part \<longleftrightarrow> HasPrefix part ''.'' \<or> HasSuffix part ''.lock'' \<or> part = ''@'' \<or> Contains part ''..'' \<or>
     Contains part [CHR 0x40, CHR 0x7B] \<or> (\<exists>c \<in> set part. forbidden c)"
proof -
  let ?l = "''~^:?*[ '' @ [char_of (9 :: nat), char_of (10 :: nat)]"
  have "of_char (char_of (9 :: nat)) < (32 :: nat)" "of_char (char_of (10 :: nat)) < (32 :: nat)" by simp_all
  then have "forbidden c \<longleftrightarrow> ((of_char c :: nat) < 32 \<or> (of_char c :: nat) = 127) \<or> c \<in> set ?l \<or> c = char_of (92 :: nat)" for c
    unfolding forbidden_def set_append by (cases "(of_char c :: nat) < 32") auto
  then have "(\<exists>c \<in> set part. forbidden c) \<longleftrightarrow> ctrlSeqs part \<or> ContainsAny part ?l \<or> Contains part [char_of (92 :: nat)]"
    unfolding ctrlSeqs_def ContainsAny_def Contains_char list_ex_iff List.member_iff by blast
  then show ?thesis unfolding badPart_def by blast
qed

text \<open>
  C13. A name passes validation exactly when it is \<^verbatim>\<open>HEAD\<close> or obeys the naming rules of git, as the
  comment of the function lists them, and, for branches and tags, the name proper does not start
  with a dash; the checks on the components amount to checks on the whole name.
\<close>

theorem Validate_iff_rules:
  "ReferenceName_Validate s = None \<longleftrightarrow>
     s = HEAD \<or>
     s \<noteq> [] \<and> refname_rules s \<and>
     \<not> ((IsBranch s \<or> IsTag s) \<and> 2 < length (SplitChar s (CHR ''/'')) \<and>
        HasPrefix (SplitChar s (CHR ''/'') ! 2) ''-'')"
proof (cases "s = [] \<or> s = HEAD")
  case True
  then show ?thesis by (auto simp: ReferenceName_Validate_def HEAD_def)
next
  case False
  let ?ps = "SplitChar s (CHR ''/'')"
  have len: "length ?ps < 2 \<longleftrightarrow> CHR ''/'' \<notin> set s"
    by (simp add: SplitChar_length CountChar_def count_list_0_iff less_Suc_eq)
  have "CHR ''/'' \<noteq> char_of (92 :: nat)"
  proof
    assume "CHR ''/'' = char_of (92 :: nat)"
    then have "of_char (CHR ''/'') = (of_char (char_of (92 :: nat)) :: nat)" by (rule arg_cong)
    then show False by simp
  qed
  then have slash: "\<not> forbidden (CHR ''/'')" by (auto simp: forbidden_def)
  have chars: "(\<exists>p \<in> set ?ps. \<exists>c \<in> set p. forbidden c) \<longleftrightarrow> (\<exists>c \<in> set s. forbidden c)"
  proof -
    have "(\<exists>p \<in> set ?ps. \<exists>c \<in> set p. forbidden c) \<longleftrightarrow> (\<exists>c \<in> \<Union> (set ` set ?ps). forbidden c)" by blast
    also have "\<dots> \<longleftrightarrow> (\<exists>c \<in> set s. forbidden c)" unfolding SplitChar_chars using slash by blast
    finally show ?thesis .
  qed
  have dots: "Contains s ''..'' \<longleftrightarrow> (\<exists>p \<in> set ?ps. Contains p ''..'')"
    and at: "Contains s [CHR 0x40, CHR 0x7B] \<longleftrightarrow> (\<exists>p \<in> set ?ps. Contains p [CHR 0x40, CHR 0x7B])"
    by (intro Contains_SplitChar; simp)+
  have empty: "[] \<notin> set ?ps \<longleftrightarrow> hd s \<noteq> CHR ''/'' \<and> last s \<noteq> CHR ''/'' \<and> \<not> Contains s ''//''"
    using SplitChar_empty_part [of s "CHR ''/''"] False by blast
  have bad: "(\<forall>p \<in> set ?ps. \<not> badPart p) \<longleftrightarrow>
      (\<forall>p \<in> set ?ps. \<not> HasPrefix p ''.'' \<and> \<not> HasSuffix p ''.lock'' \<and> p \<noteq> ''@'') \<and>
      \<not> Contains s ''..'' \<and> \<not> Contains s [CHR 0x40, CHR 0x7B] \<and> (\<forall>c \<in> set s. \<not> forbidden c)"
    unfolding badPart_iff using chars dots at by blast
  have "ReferenceName_Validate s = None \<longleftrightarrow>
      \<not> HasSuffix s ''.'' \<and> CHR ''/'' \<in> set s \<and> Validate_loop (IsBranch s) (IsTag s) 0 ?ps = None"
    using False len by (auto simp: ReferenceName_Validate_def Let_def)
  also have "\<dots> \<longleftrightarrow> s \<noteq> [] \<and> refname_rules s \<and>
     \<not> ((IsBranch s \<or> IsTag s) \<and> 2 < length ?ps \<and> HasPrefix (?ps ! 2) ''-'')"
    unfolding Validate_loop_None empty bad refname_rules_def using False by auto
  finally show ?thesis using False by blast
qed

lemma hex_not_symref: "\<not> HasPrefix (hexEncode bs) symrefPrefix"
proof (cases bs)
  case (Cons b bs')
  have "hex_value (digit (unat b div 16)) = Some (unat b div 16)"
    using unat_byte_less [of b] by (intro hex_value_digit) linarith
  moreover have "hex_value (CHR ''r'') = None" by (simp add: hex_value_def digit_value_def)
  ultimately have "digit (unat b div 16) \<noteq> CHR ''r''" by auto
  then show ?thesis using Cons by (simp add: symrefPrefix_def)
qed (simp add: symrefPrefix_def)

text \<open>
  A reference that is printed as a pair of strings is parsed back from them, symbolic
  references and references to an id alike.
\<close>

theorem Reference_Strings_roundtrip:
  assumes "r = NewSymbolicReference n target \<or> wf_oid h \<and> r = NewHashReference n h"
  shows "NewReferenceFromStrings (fst (Reference_Strings r)) (snd (Reference_Strings r)) = r"
proof (cases "r = NewSymbolicReference n target")
  case True
  then show ?thesis
    by (simp add: NewReferenceFromStrings_def Reference_Strings_def NewSymbolicReference_def)
next
  case False
  with assms have h: "wf_oid h" and r: "r = NewHashReference n h" by simp_all
  have "NewHash (ObjectID_String h) = h" using ObjectID_text [OF h] by (simp add: NewHash_def)
  moreover note hex_not_symref [of "take (ObjectID_Size h) (oid_hash h)", folded ObjectID_String_def]
  ultimately show ?thesis
    by (simp add: r NewReferenceFromStrings_def Reference_Strings_def NewHashReference_def)
qed


theorem Reference_Strings_roundtrip_witness:
  "NewReferenceFromStrings (fst (Reference_Strings (NewHashReference ''refs/heads/main'' ZeroHash)))
     (snd (Reference_Strings (NewHashReference ''refs/heads/main'' ZeroHash))) =
   NewHashReference ''refs/heads/main'' ZeroHash"
proof (rule Reference_Strings_roundtrip)
  show "NewHashReference ''refs/heads/main'' ZeroHash = NewSymbolicReference ''refs/heads/main'' ''x'' \<or>
      wf_oid ZeroHash \<and> NewHashReference ''refs/heads/main'' ZeroHash = NewHashReference ''refs/heads/main'' ZeroHash"
    by (simp add: wf_oid_def ZeroHash_def empty_hash_def format_sizes)
qed

section \<open>Short names\<close>

lemma Sscanf_token_plain: "plain_name s \<Longrightarrow> Sscanf_token (pre @ s) pre = Some s"
  using scan_token_plain [of s "[]"] by (simp add: Sscanf_token_def)

lemma Sscanf_token_None: "\<not> HasPrefix u pre \<Longrightarrow> Sscanf_token u pre = None"
  by (simp add: Sscanf_token_def)

lemmas name_defs = NewBranchReferenceName_def NewTagReferenceName_def NewNoteReferenceName_def
  NewRemoteReferenceName_def refHeadPrefix_def refTagPrefix_def refNotePrefix_def refRemotePrefix_def refPrefix_def

lemma Short_one:
  assumes "plain_name (dir @ s)" and "plain_name s"
    and "dir = ''heads/'' \<or> dir = ''tags/'' \<or> dir = ''remotes/''"
  shows "Short (''refs/'' @ dir @ s) = s"
proof -
  have "Sscanf_token (''refs/'' @ dir @ s) ''refs/'' = Some (dir @ s)" using assms(1) by (rule Sscanf_token_plain)
  moreover have "Sscanf_token ((''refs/'' @ dir) @ s) (''refs/'' @ dir) = Some s"
    using assms(2) by (rule Sscanf_token_plain)
  ultimately show ?thesis using assms(3)
    by (auto simp: Short_def RefRevParseRules_def Sscanf_token_None)
qed

lemma plain_dirs:
  "plain_text ''heads/''" "plain_text ''tags/''" "plain_text ''notes/''" "plain_text ''remotes/''" "plain_text ''/''"
  by (rule plain_text_visible, simp)+

text \<open>
  Shortening undoes the constructors of full names made of names in UTF-8 without white space: of
  branches and tags it gives the short name, of remote branches the remote and the name, of notes the name below \<^verbatim>\<open>notes\<close>.
\<close>

theorem Short_of_constructors:
  assumes "plain_name s" and "plain_text remote"
  shows "Short (NewBranchReferenceName s) = s \<and> Short (NewTagReferenceName s) = s \<and>
    Short (NewNoteReferenceName s) = ''notes/'' @ s \<and>
    Short (NewRemoteReferenceName remote s) = remote @ ''/'' @ s"
proof -
  have "plain_name (''heads/'' @ s)" "plain_name (''tags/'' @ s)" and n: "plain_name (''notes/'' @ s)"
    and r: "plain_name (remote @ ''/'' @ s)" and rr: "plain_name (''remotes/'' @ remote @ ''/'' @ s)"
    using assms plain_dirs by (simp_all only: plain_name_append)
  then have "Short (''refs/'' @ ''heads/'' @ s) = s" "Short (''refs/'' @ ''tags/'' @ s) = s"
    "Short (''refs/'' @ ''remotes/'' @ remote @ ''/'' @ s) = remote @ ''/'' @ s"
    using Short_one [OF _ assms(1)] Short_one [OF rr r] by blast+
  moreover have "Short (''refs/'' @ ''notes/'' @ s) = ''notes/'' @ s"
  proof -
    have "Sscanf_token (''refs/'' @ ''notes/'' @ s) ''refs/'' = Some (''notes/'' @ s)"
      using n by (rule Sscanf_token_plain)
    then show ?thesis by (simp add: Short_def RefRevParseRules_def Sscanf_token_None)
  qed
  ultimately show ?thesis by (simp add: name_defs)
qed

theorem Short_of_constructors_witness:
  "Short (NewBranchReferenceName ''main'') = ''main'' \<and>
   Short (NewRemoteReferenceName ''origin'' ''main'') = ''origin'' @ ''/'' @ ''main''"
  using Short_of_constructors [of "''main''" "''origin''"] by (simp add: plain_name_def plain_text_visible)

end
