(* ===== verification/RefSpec.thy ===== *)
theory RefSpec
  imports Reference
begin

text \<open>
  Reference specifications: \<^verbatim>\<open>config/refspec.go\<close>. A \<^verbatim>\<open>RefSpec\<close> is a string; the accessors index and
  slice it without checks, so each is a function into \<open>result\<close> that panics where Go does. The
  position \<open>None\<close> is the -1 of \<^verbatim>\<open>strings.Index\<close>.
\<close>

type_synonym RefSpec = string

definition refSpecWildcard :: char where "refSpecWildcard = CHR ''*''"
definition refSpecForce :: char where "refSpecForce = CHR ''+''"
definition refSpecSeparator :: char where "refSpecSeparator = CHR '':''"

abbreviation ErrRefSpecMalformedSeparator :: error where
  "ErrRefSpecMalformedSeparator \<equiv> Sentinel ''ErrRefSpecMalformedSeparator''"
abbreviation ErrRefSpecMalformedWildcard :: error where
  "ErrRefSpecMalformedWildcard \<equiv> Sentinel ''ErrRefSpecMalformedWildcard''"

definition RefSpec_Validate :: "RefSpec \<Rightarrow> unit result" where
  "RefSpec_Validate spec =
     (if CountChar spec refSpecSeparator \<noteq> 1 then Error ErrRefSpecMalformedSeparator
      else case Index spec [refSpecSeparator] of
             None \<Rightarrow> Panic
           | Some sep \<Rightarrow>
               if sep = length spec - 1 then Error ErrRefSpecMalformedSeparator
               else let ws = CountChar (take sep spec) refSpecWildcard;
                        wd = CountChar (drop (sep + 1) spec) refSpecWildcard
                    in if ws = wd \<and> ws < 2 \<and> wd < 2 then Ok () else Error ErrRefSpecMalformedWildcard)"

definition IsForceUpdate :: "RefSpec \<Rightarrow> bool result" where
  "IsForceUpdate s = rbind (idx s 0) (\<lambda>c. Ok (c = refSpecForce))"

definition IsDelete :: "RefSpec \<Rightarrow> bool result" where
  "IsDelete s = rbind (idx s 0) (\<lambda>c. Ok (c = refSpecSeparator))"

definition Src :: "RefSpec \<Rightarrow> string result" where
  "Src spec =
     rbind (IsForceUpdate spec) (\<lambda>force.
       let start = (if force then 1 else 0)
       in case Index spec [refSpecSeparator] of
            None \<Rightarrow> Panic
          | Some e \<Rightarrow> slice spec start e)"

definition IsExactSHA1 :: "RefSpec \<Rightarrow> bool result" where
  "IsExactSHA1 s = rbind (Src s) (\<lambda>src. Ok (IsHash src))"

definition IsWildcard :: "RefSpec \<Rightarrow> bool" where
  "IsWildcard s \<longleftrightarrow> Contains s [refSpecWildcard]"

definition matchExact :: "RefSpec \<Rightarrow> ReferenceName \<Rightarrow> bool result" where
  "matchExact s n = rbind (Src s) (\<lambda>src. Ok (src = n))"

definition matchGlob :: "RefSpec \<Rightarrow> ReferenceName \<Rightarrow> bool result" where
  "matchGlob s name =
     rbind (Src s) (\<lambda>src.
       case Index src [refSpecWildcard] of
         None \<Rightarrow> Panic
       | Some wildcard \<Rightarrow>
           let prefix = take wildcard src;
               suffix = (if length src > wildcard + 1 then drop (wildcard + 1) src else [])
           in Ok (length name \<ge> length prefix + length suffix \<and> HasPrefix name prefix \<and> HasSuffix name suffix))"

definition Match :: "RefSpec \<Rightarrow> ReferenceName \<Rightarrow> bool result" where
  "Match s n = (if \<not> IsWildcard s then matchExact s n else matchGlob s n)"

text \<open>The slice of the name: its upper end is a difference that may be negative in Go.\<close>

definition Dst :: "RefSpec \<Rightarrow> ReferenceName \<Rightarrow> ReferenceName result" where
  "Dst spec name =
     (let start = (case Index spec [refSpecSeparator] of None \<Rightarrow> 0 | Some sep \<Rightarrow> sep + 1);
          dst = drop start spec
      in rbind (Src spec) (\<lambda>src.
           if \<not> IsWildcard spec then Ok dst
           else case Index src [refSpecWildcard] of
                  None \<Rightarrow> Panic
                | Some ws \<Rightarrow>
                    let rest = length src - (ws + 1)
                    in if length name < rest then Panic
                       else rbind (slice name ws (length name - rest)) (\<lambda>m.
                              case Index dst [refSpecWildcard] of
                                None \<Rightarrow> Panic
                              | Some wd \<Rightarrow> Ok (take wd dst @ m @ drop (wd + 1) dst))))"

definition Reverse :: "RefSpec \<Rightarrow> RefSpec result" where
  "Reverse spec =
     (case Index spec [refSpecSeparator] of
        None \<Rightarrow> Panic
      | Some sep \<Rightarrow> Ok (drop (sep + 1) spec @ [refSpecSeparator] @ take sep spec))"

fun MatchAny :: "RefSpec list \<Rightarrow> ReferenceName \<Rightarrow> bool result" where
  "MatchAny [] n = Ok False"
| "MatchAny (r # l) n = rbind (Match r n) (\<lambda>b. if b then Ok True else MatchAny l n)"


section \<open>The shape of a valid specification\<close>

lemma Index_mid: "c \<notin> set a \<Longrightarrow> Index (a @ c # b) [c] = Some (length a)"
  by (induction a) (auto simp: HasPrefix_def)

lemma CountChar_append [simp]: "CountChar (a @ b) c = CountChar a c + CountChar b c"
  by (simp add: CountChar_def)

lemma CountChar_Nil [simp]: "CountChar [] c = 0"
  by (simp add: CountChar_def)

lemma CountChar_Cons [simp]: "CountChar (x # a) c = (if x = c then CountChar a c + 1 else CountChar a c)"
  by (simp add: CountChar_def)

lemma CountChar_0 [simp]: "CountChar a c = 0 \<longleftrightarrow> c \<notin> set a"
  by (simp add: CountChar_def count_list_0_iff)

lemma CountChar_1: "CountChar s c = 1 \<longleftrightarrow> (\<exists>a b. s = a @ c # b \<and> c \<notin> set a \<and> c \<notin> set b)"
proof
  assume one: "CountChar s c = 1"
  then have "c \<in> set s" using CountChar_0 [of s c] by fastforce
  then obtain a b where s: "s = a @ c # b" and a: "c \<notin> set a" using split_list_first by fastforce
  with one have "CountChar b c = 0" by simp
  with s a show "\<exists>a b. s = a @ c # b \<and> c \<notin> set a \<and> c \<notin> set b" by auto
qed auto

lemma Validate_shape:
  assumes "RefSpec_Validate s = Ok ()"
  obtains src dst where "s = src @ CHR '':'' # dst" and "CHR '':'' \<notin> set src" and "CHR '':'' \<notin> set dst"
    and "dst \<noteq> []" and "CountChar src (CHR ''*'') = CountChar dst (CHR ''*'')" and "CountChar dst (CHR ''*'') < 2"
proof -
  have "CountChar s (CHR '':'') = 1"
    using assms by (auto simp: RefSpec_Validate_def refSpecSeparator_def split: if_splits)
  then obtain src dst where s: "s = src @ CHR '':'' # dst" and n: "CHR '':'' \<notin> set src" "CHR '':'' \<notin> set dst"
    unfolding CountChar_1 by blast
  then have "Index s [CHR '':''] = Some (length src)" by (simp add: Index_mid)
  with assms n show thesis
    by (intro that [OF s]) (auto simp: RefSpec_Validate_def refSpecSeparator_def refSpecWildcard_def s Let_def split: if_splits)
qed

text \<open>The parts of a specification, after an optional force mark.\<close>

definition spec_of :: "bool \<Rightarrow> string \<Rightarrow> string \<Rightarrow> RefSpec" where
  "spec_of force src dst = (if force then ''+'' else []) @ src @ CHR '':'' # dst"

lemma valid_spec_cases:
  assumes "RefSpec_Validate s = Ok ()"
  obtains (exact) force src dst where "s = spec_of force src dst"
      "CHR '':'' \<notin> set src" "dst \<noteq> []" "CHR '':'' \<notin> set dst" "\<not> force \<longrightarrow> \<not> HasPrefix src ''+''"
      "CHR ''*'' \<notin> set src" "CHR ''*'' \<notin> set dst"
  | (glob) force sp ss dp ds where "s = spec_of force (sp @ CHR ''*'' # ss) (dp @ CHR ''*'' # ds)"
      "CHR '':'' \<notin> set (sp @ ss)" "CHR '':'' \<notin> set (dp @ ds)" "\<not> force \<longrightarrow> \<not> HasPrefix sp ''+''"
      "CHR ''*'' \<notin> set (sp @ ss)" "CHR ''*'' \<notin> set (dp @ ds)"
proof -
  obtain src0 dst where s: "s = src0 @ CHR '':'' # dst" "CHR '':'' \<notin> set src0" "CHR '':'' \<notin> set dst"
    "dst \<noteq> []" "CountChar src0 (CHR ''*'') = CountChar dst (CHR ''*'')" "CountChar dst (CHR ''*'') < 2"
    using assms by (rule Validate_shape)
  define force where "force \<longleftrightarrow> HasPrefix src0 ''+''"
  define src where "src = (if force then tl src0 else src0)"
  have src0: "src0 = (if force then ''+'' else []) @ src" by (cases src0) (auto simp: force_def src_def)
  then have spec: "s = spec_of force src dst" using s(1) by (simp add: spec_of_def)
  have nf: "\<not> force \<longrightarrow> \<not> HasPrefix src ''+''" using src0 by (simp add: force_def src_def)
  have colon: "CHR '':'' \<notin> set src" using s(2) src0 by simp
  have stars: "CountChar src (CHR ''*'') = CountChar dst (CHR ''*'')" using s(5) src0 by (simp split: if_splits)
  show thesis
  proof (cases "CountChar dst (CHR ''*'') = 0")
    case True
    then have "CHR ''*'' \<notin> set dst" "CHR ''*'' \<notin> set src" using stars unfolding CountChar_0 [symmetric] by simp_all
    then show thesis using exact [OF spec colon s(4) s(3) nf] by blast
  next
    case False
    then have "CountChar dst (CHR ''*'') = 1" "CountChar src (CHR ''*'') = 1" using s(6) stars by linarith+
    then obtain sp ss dp ds where *: "src = sp @ CHR ''*'' # ss" "CHR ''*'' \<notin> set sp" "CHR ''*'' \<notin> set ss"
      "dst = dp @ CHR ''*'' # ds" "CHR ''*'' \<notin> set dp" "CHR ''*'' \<notin> set ds"
      unfolding CountChar_1 by blast
    have "\<not> HasPrefix src ''+'' \<Longrightarrow> \<not> HasPrefix sp ''+''" using *(1) by (cases sp) auto
    then show thesis using glob [of force sp ss dp ds] spec colon s(3) nf * by simp
  qed
qed

lemma Src_spec_of:
  assumes "CHR '':'' \<notin> set src" and "\<not> force \<longrightarrow> \<not> HasPrefix src ''+''"
  shows "Src (spec_of force src dst) = Ok src" and "Index (spec_of force src dst) [refSpecSeparator] =
    Some (length src + (if force then 1 else 0))"
proof -
  show ix: "Index (spec_of force src dst) [refSpecSeparator] = Some (length src + (if force then 1 else 0))"
    using Index_mid [of "CHR '':''" src dst] assms(1)
    by (auto simp: spec_of_def refSpecSeparator_def)
  have "idx (spec_of force src dst) 0 = Ok (hd (spec_of force src dst))"
    by (cases src) (auto simp: spec_of_def)
  moreover have "hd (spec_of force src dst) = CHR ''+'' \<longleftrightarrow> force"
    using assms(2) by (cases src) (auto simp: spec_of_def)
  ultimately show "Src (spec_of force src dst) = Ok src"
    using ix by (simp add: Src_def IsForceUpdate_def refSpecForce_def Let_def) (simp add: spec_of_def)
qed

lemma drop_spec_of: "drop (Suc (length src + (if force then 1 else 0))) (spec_of force src dst) = dst"
  by (simp add: spec_of_def)

lemma IsWildcard_spec_of: "IsWildcard (spec_of force src dst) \<longleftrightarrow> CHR ''*'' \<in> set src \<or> CHR ''*'' \<in> set dst"
  by (auto simp: IsWildcard_def Contains_char refSpecWildcard_def spec_of_def)

lemma exact_semantics:
  assumes "CHR '':'' \<notin> set src" and "\<not> force \<longrightarrow> \<not> HasPrefix src ''+''"
    and "CHR ''*'' \<notin> set src" and "CHR ''*'' \<notin> set dst"
  shows "Match (spec_of force src dst) n = Ok (src = n)" and "Dst (spec_of force src dst) n = Ok dst"
  using Src_spec_of [OF assms(1,2), of dst] drop_spec_of [of src force dst] assms(3,4)
  by (simp_all add: Match_def matchExact_def Dst_def IsWildcard_spec_of Let_def)

lemma glob_semantics:
  assumes "CHR '':'' \<notin> set (sp @ ss)" and "\<not> force \<longrightarrow> \<not> HasPrefix sp ''+''"
    and "CHR ''*'' \<notin> set (sp @ ss)" and "CHR ''*'' \<notin> set (dp @ ds)"
  defines "s \<equiv> spec_of force (sp @ CHR ''*'' # ss) (dp @ CHR ''*'' # ds)"
  shows "Match s n = Ok (\<exists>m. n = sp @ m @ ss)" and "Dst s (sp @ m @ ss) = Ok (dp @ m @ ds)"
proof -
  let ?src = "sp @ CHR ''*'' # ss"
  have "CHR '':'' \<notin> set ?src" "\<not> force \<longrightarrow> \<not> HasPrefix ?src ''+''"
    using assms(1,2) by (cases sp; auto)+
  note src = Src_spec_of [OF this, of "dp @ CHR ''*'' # ds", folded s_def]
  have wild: "IsWildcard s" by (simp add: s_def IsWildcard_spec_of)
  have ws: "Index ?src [refSpecWildcard] = Some (length sp)" "Index (dp @ CHR ''*'' # ds) [refSpecWildcard] = Some (length dp)"
    using assms(3,4) by (simp_all add: Index_mid refSpecWildcard_def)
  have suf: "(if length ?src > length sp + 1 then drop (length sp + 1) ?src else []) = ss" by (cases ss) auto
  have "length n \<ge> length sp + length ss \<and> HasPrefix n sp \<and> HasSuffix n ss \<longleftrightarrow> (\<exists>m. n = sp @ m @ ss)"
  proof
    assume n: "length n \<ge> length sp + length ss \<and> HasPrefix n sp \<and> HasSuffix n ss"
    then obtain t where t: "n = sp @ t" by (auto simp: HasPrefix_iff)
    with n obtain u where u: "sp @ t = u @ ss" by (auto simp: HasSuffix_iff)
    have "length sp \<le> length u" using n t u by (metis add_le_cancel_right length_append)
    then have "u = sp @ drop (length sp) u" using u by (metis append_eq_append_conv2 append_eq_conv_conj take_append take_all)
    with t u show "\<exists>m. n = sp @ m @ ss" by (metis append.assoc)
  qed (auto simp: HasPrefix_iff HasSuffix_iff)
  then show "Match s n = Ok (\<exists>m. n = sp @ m @ ss)"
    using wild src(1) ws(1) suf by (simp add: Match_def matchGlob_def Let_def)
  have "drop (Suc (length ?src + (if force then 1 else 0))) s = dp @ CHR ''*'' # ds"
    unfolding s_def by (rule drop_spec_of)
  then show "Dst s (sp @ m @ ss) = Ok (dp @ m @ ds)"
    using wild src ws by (simp add: Dst_def Let_def)
qed




lemma IsForceUpdate_spec_of:
  "IsForceUpdate (spec_of force src dst) = Ok (force \<or> HasPrefix src ''+'')"
  by (cases src) (auto simp: IsForceUpdate_def refSpecForce_def spec_of_def)

lemma Reverse_spec_of:
  "CHR '':'' \<notin> set src \<Longrightarrow> Reverse (spec_of force src dst) = Ok (spec_of False dst ((if force then ''+'' else []) @ src))"
  using Index_mid [of "CHR '':''" "(if force then ''+'' else []) @ src" dst]
  by (cases force) (simp_all add: Reverse_def refSpecSeparator_def spec_of_def)

text \<open>
  C15. For a valid specification whose destination does not begin with a plus, the reversed
  specification matches the destination of every name that matches, and maps it to that name. Only
  a force mark does not stay in front: it becomes part of the destination, so each name comes back
  with a plus before it.
\<close>

theorem RefSpec_Reverse:
  assumes "RefSpec_Validate s = Ok ()" and "IsForceUpdate s = Ok force"
    and "Reverse s = Ok r" and "IsForceUpdate r = Ok False" and "Match s n = Ok True"
  shows "\<exists>d. Dst s n = Ok d \<and> Match r d = Ok True \<and> Dst r d = Ok (if force then CHR ''+'' # n else n)"
  using assms(1)
proof (cases rule: valid_spec_cases)
  case (exact f src dst)
  have f: "f = force" using assms(2) exact(5) by (auto simp: exact(1) IsForceUpdate_spec_of)
  let ?src = "(if force then ''+'' else []) @ src"
  have r: "r = spec_of False dst ?src" using assms(3) exact(1,2) Reverse_spec_of [of src f dst] f by simp
  then have "\<not> HasPrefix dst ''+''" using assms(4) by (simp add: IsForceUpdate_spec_of)
  moreover have "src = n" using assms(5) exact_semantics(1) [OF exact(2,5,6,7), of n] exact(1) by simp
  moreover have "CHR ''*'' \<notin> set ?src" using exact(6) by simp
  ultimately show ?thesis
    using exact_semantics(2) [OF exact(2,5,6,7), of n] exact_semantics [of dst False ?src dst] exact r by auto
next
  case (glob f sp ss dp ds)
  have f: "f = force" using assms(2) glob(4) by (cases sp) (auto simp: glob(1) IsForceUpdate_spec_of)
  let ?sp = "(if force then ''+'' else []) @ sp"
  have r: "r = spec_of False (dp @ CHR ''*'' # ds) (?sp @ CHR ''*'' # ss)"
    using assms(3) glob(1,2) Reverse_spec_of [of "sp @ CHR ''*'' # ss" f "dp @ CHR ''*'' # ds"] f by simp
  then have dp: "\<not> HasPrefix dp ''+''" using assms(4) by (cases dp) (simp_all add: IsForceUpdate_spec_of)
  obtain m where n: "n = sp @ m @ ss"
    using assms(5) glob_semantics(1) [OF glob(2,4,5,6), of n] glob(1) by auto
  have "Dst s n = Ok (dp @ m @ ds)" unfolding n glob(1) by (rule glob_semantics(2) [OF glob(2,4,5,6)])
  moreover have "CHR ''*'' \<notin> set (?sp @ ss)" using glob(5) by simp
  moreover have "Match r (dp @ m @ ds) = Ok True" "Dst r (dp @ m @ ds) = Ok (?sp @ m @ ss)"
    using glob_semantics [of dp ds False ?sp ss] glob(3,5,6) dp r by auto
  ultimately show ?thesis using n by auto
qed

theorem RefSpec_Reverse_witness:
  "\<exists>d. Dst ''+refs/heads/*:refs/remotes/origin/*'' ''refs/heads/main'' = Ok d \<and>
     Match ''refs/remotes/origin/*:+refs/heads/*'' d = Ok True \<and>
     Dst ''refs/remotes/origin/*:+refs/heads/*'' d = Ok ''+refs/heads/main''"
  using RefSpec_Reverse [of "''+refs/heads/*:refs/remotes/origin/*''" True "''refs/remotes/origin/*:+refs/heads/*''" "''refs/heads/main''"]
  by (simp add: RefSpec_Validate_def IsForceUpdate_def Reverse_def Match_def matchGlob_def Src_def IsWildcard_def
      refSpecSeparator_def refSpecWildcard_def refSpecForce_def Let_def HasSuffix_def)

end
