(* ===== verification/Storer.thy ===== *)
theory Storer
  imports Reference
begin

text \<open>
  The storer interfaces: \<^verbatim>\<open>plumbing/storer/reference.go\<close> and \<^verbatim>\<open>plumbing/storer/object.go\<close>. An
  interface value is a record of operations over the state of its implementation. An operation that
  changes the state returns the new state with its outcome, so that what was changed before an
  error is kept. A nil pointer is \<open>None\<close>.
\<close>

section \<open>Iterators\<close>

abbreviation ErrStop :: error where "ErrStop \<equiv> Sentinel ''ErrStop''"

text \<open>
  \<^verbatim>\<open>ForEach\<close> over any iterator: \<open>nxt\<close> and \<open>cls\<close> are its methods \<^verbatim>\<open>Next\<close> and \<^verbatim>\<open>Close\<close>, the callback
  works on a state of its own. The outer \<open>None\<close> is an iteration that does not end.
\<close>

partial_function (option) forEachIter ::
    "('i \<Rightarrow> 'a result \<times> 'i) \<Rightarrow> ('i \<Rightarrow> 'i) \<Rightarrow> ('st \<Rightarrow> 'a \<Rightarrow> 'st \<times> unit result) \<Rightarrow> 'i \<Rightarrow> 'st \<Rightarrow>
     ('st \<times> 'i \<times> unit result) option" where
  "forEachIter nxt cls cb it st =
     (case nxt it of
        (Error e, it') \<Rightarrow> Some (st, cls it', if e = EOF then Ok () else Error e)
      | (Panic, it') \<Rightarrow> Some (st, cls it', Panic)
      | (Ok obj, it') \<Rightarrow>
          (case cb st obj of
             (st', Error e) \<Rightarrow> Some (st', cls it', if e = ErrStop then Ok () else Error e)
           | (st', Panic) \<Rightarrow> Some (st', cls it', Panic)
           | (st', Ok u) \<Rightarrow> forEachIter nxt cls cb it' st'))"

subsection \<open>Iterating over a slice of references\<close>

record ReferenceSliceIter =
  rsi_series :: "Reference list"
  rsi_pos :: nat

definition NewReferenceSliceIter :: "Reference list \<Rightarrow> ReferenceSliceIter" where
  "NewReferenceSliceIter series = \<lparr>rsi_series = series, rsi_pos = 0\<rparr>"

definition ReferenceSliceIter_Next :: "ReferenceSliceIter \<Rightarrow> Reference result \<times> ReferenceSliceIter" where
  "ReferenceSliceIter_Next it =
     (if rsi_pos it \<ge> length (rsi_series it) then (Error EOF, it)
      else (Ok (rsi_series it ! rsi_pos it), it\<lparr>rsi_pos := rsi_pos it + 1\<rparr>))"

definition ReferenceSliceIter_Close :: "ReferenceSliceIter \<Rightarrow> ReferenceSliceIter" where
  "ReferenceSliceIter_Close it = it\<lparr>rsi_pos := length (rsi_series it)\<rparr>"

definition ReferenceSliceIter_ForEach where
  "ReferenceSliceIter_ForEach it cb st = forEachIter ReferenceSliceIter_Next ReferenceSliceIter_Close cb it st"

subsection \<open>Filtering\<close>

text \<open>The filtered iterator over an iterator with methods \<open>nxt\<close> and \<open>cls\<close>; it may skip forever.\<close>

partial_function (option) referenceFilteredIter_Next ::
    "('i \<Rightarrow> 'a result \<times> 'i) \<Rightarrow> ('a \<Rightarrow> bool) \<Rightarrow> 'i \<Rightarrow> ('a result \<times> 'i) option" where
  "referenceFilteredIter_Next nxt ff it =
     (case nxt it of
        (Ok r, it') \<Rightarrow> if ff r then Some (Ok r, it') else referenceFilteredIter_Next nxt ff it'
      | (Error e, it') \<Rightarrow> Some (Error e, it')
      | (Panic, it') \<Rightarrow> Some (Panic, it'))"

subsection \<open>Several iterators, one after the other\<close>

text \<open>The iterators are slice iterators, as in all the storages that combine them.\<close>

fun MultiReferenceIter_Next :: "ReferenceSliceIter list \<Rightarrow> Reference result \<times> ReferenceSliceIter list" where
  "MultiReferenceIter_Next [] = (Error EOF, [])"
| "MultiReferenceIter_Next (it # its) =
     (case ReferenceSliceIter_Next it of
        (Error e, it') \<Rightarrow> if e = EOF then MultiReferenceIter_Next its else (Error e, it' # its)
      | (r, it') \<Rightarrow> (r, it' # its))"

definition MultiReferenceIter_Close :: "ReferenceSliceIter list \<Rightarrow> ReferenceSliceIter list" where
  "MultiReferenceIter_Close its = map ReferenceSliceIter_Close its"

definition MultiReferenceIter_ForEach where
  "MultiReferenceIter_ForEach its cb st = forEachIter MultiReferenceIter_Next MultiReferenceIter_Close cb its st"

subsection \<open>The contract of an iterator\<close>

text \<open>What \<^verbatim>\<open>ForEach\<close> is to do with the items that are left.\<close>

fun visit :: "('st \<Rightarrow> 'a \<Rightarrow> 'st \<times> unit result) \<Rightarrow> 'st \<Rightarrow> 'a list \<Rightarrow> 'st \<times> unit result" where
  "visit cb st [] = (st, Ok ())"
| "visit cb st (x # xs) =
     (case cb st x of
        (st', Ok u) \<Rightarrow> visit cb st' xs
      | (st', Error e) \<Rightarrow> (st', if e = ErrStop then Ok () else Error e)
      | (st', Panic) \<Rightarrow> (st', Panic))"

text \<open>
  An iterator whose items are known by a relation: \<open>yields it xs\<close> says that \<open>xs\<close> are the items to come.
\<close>

locale traversal =
  fixes nxt :: "'i \<Rightarrow> 'a result \<times> 'i" and cls :: "'i \<Rightarrow> 'i" and yields :: "'i \<Rightarrow> 'a list \<Rightarrow> bool"
  assumes yields_Nil: "yields it [] \<Longrightarrow> fst (nxt it) = Error EOF"
    and yields_Cons: "yields it (x # xs) \<Longrightarrow> \<exists>it'. nxt it = (Ok x, it') \<and> yields it' xs"
begin

lemma forEach_traverses:
  "yields it xs \<Longrightarrow> \<exists>it'. forEachIter nxt cls cb it st = Some (fst (visit cb st xs), cls it', snd (visit cb st xs))"
proof (induction xs arbitrary: it st)
  case Nil
  then obtain it' where "nxt it = (Error EOF, it')" using yields_Nil [of it] by (metis prod.collapse)
  then show ?case by (auto simp: forEachIter.simps [of nxt cls cb it])
next
  case (Cons x xs)
  then obtain it' where nx: "nxt it = (Ok x, it')" and it': "yields it' xs" using yields_Cons by metis
  obtain st' e where cb: "cb st x = (st', e)" by fastforce
  show ?case using Cons.IH [OF it', of st'] nx cb by (cases e) (auto simp: forEachIter.simps [of nxt cls cb it])
qed

end

locale iterator =
  fixes nxt :: "'i \<Rightarrow> 'a result \<times> 'i" and cls :: "'i \<Rightarrow> 'i" and items :: "'i \<Rightarrow> 'a list"
  assumes next_Nil: "items it = [] \<Longrightarrow> fst (nxt it) = Error EOF"
    and next_Cons: "items it = x # xs \<Longrightarrow> \<exists>it'. nxt it = (Ok x, it') \<and> items it' = xs"
    and close_items: "items (cls it) = []"

sublocale iterator \<subseteq> listed: traversal nxt cls "\<lambda>it xs. items it = xs"
  by unfold_locales (auto intro: next_Nil next_Cons)

context iterator
begin

lemma forEach_visits:
  "\<exists>it'. forEachIter nxt cls cb it st = Some (fst (visit cb st (items it)), it', snd (visit cb st (items it))) \<and>
     items it' = []"
  using listed.forEach_traverses [OF refl, of cb it st] close_items by auto

lemma filtered_next:
  "case filter ff (items it) of
     [] \<Rightarrow> \<exists>it'. referenceFilteredIter_Next nxt ff it = Some (Error EOF, it')
   | x # xs \<Rightarrow> \<exists>it'. referenceFilteredIter_Next nxt ff it = Some (Ok x, it') \<and> filter ff (items it') = xs"
proof (induction "items it" arbitrary: it)
  case Nil
  then obtain it' where "nxt it = (Error EOF, it')" using next_Nil [of it] by (metis prod.collapse)
  with Nil show ?case by (simp add: referenceFilteredIter_Next.simps [of nxt ff it])
next
  case (Cons x xs)
  then obtain it' where nx: "nxt it = (Ok x, it')" and it': "items it' = xs" using next_Cons by metis
  show ?case
  proof (cases "ff x")
    case True
    with nx it' Cons.hyps(2) [symmetric] show ?thesis
      by (simp add: referenceFilteredIter_Next.simps [of nxt ff it])
  next
    case False
    with Cons.hyps(1) [OF it' [symmetric]] nx it' Cons.hyps(2) [symmetric] show ?thesis
      by (simp add: referenceFilteredIter_Next.simps [of nxt ff it] split: list.splits)
  qed
qed

end

definition slice_items :: "ReferenceSliceIter \<Rightarrow> Reference list" where
  "slice_items it = drop (rsi_pos it) (rsi_series it)"

interpretation slice_iter: iterator ReferenceSliceIter_Next ReferenceSliceIter_Close slice_items
proof
  fix it :: ReferenceSliceIter and x xs
  assume "slice_items it = x # xs"
  then have "rsi_pos it < length (rsi_series it)" "rsi_series it ! rsi_pos it = x"
    "drop (Suc (rsi_pos it)) (rsi_series it) = xs"
    unfolding slice_items_def by (metis drop_all leI list.distinct(1), metis nth_via_drop, metis drop_Suc drop_tl list.sel(3))
  then show "\<exists>it'. ReferenceSliceIter_Next it = (Ok x, it') \<and> slice_items it' = xs"
    by (simp add: ReferenceSliceIter_Next_def slice_items_def)
qed (auto simp: ReferenceSliceIter_Next_def ReferenceSliceIter_Close_def slice_items_def)

definition multi_items :: "ReferenceSliceIter list \<Rightarrow> Reference list" where
  "multi_items its = concat (map slice_items its)"

lemma MultiReferenceIter_Next_Nil: "multi_items its = [] \<Longrightarrow> fst (MultiReferenceIter_Next its) = Error EOF"
proof (induction its)
  case (Cons it its)
  then have "fst (ReferenceSliceIter_Next it) = Error EOF"
    by (intro slice_iter.next_Nil) (simp add: multi_items_def)
  with Cons show ?case by (auto simp: multi_items_def split: prod.splits)
qed simp

lemma MultiReferenceIter_Next_Cons:
  "multi_items its = x # xs \<Longrightarrow> \<exists>its'. MultiReferenceIter_Next its = (Ok x, its') \<and> multi_items its' = xs"
proof (induction its)
  case (Cons it its)
  show ?case
  proof (cases "slice_items it")
    case Nil
    then have "fst (ReferenceSliceIter_Next it) = Error EOF" by (rule slice_iter.next_Nil)
    with Cons Nil show ?thesis by (auto simp: multi_items_def split: prod.splits)
  next
    case (Cons y ys)
    with \<open>multi_items (it # its) = x # xs\<close> slice_iter.next_Cons [OF Cons] show ?thesis
      by (auto simp: multi_items_def)
  qed
qed (simp add: multi_items_def)

interpretation multi_iter: iterator MultiReferenceIter_Next MultiReferenceIter_Close multi_items
proof
  show "multi_items (MultiReferenceIter_Close its) = []" for its
    by (simp add: MultiReferenceIter_Close_def multi_items_def ReferenceSliceIter_Close_def slice_items_def)
qed (fact MultiReferenceIter_Next_Nil MultiReferenceIter_Next_Cons)+

text \<open>
  Iterating over several iterators calls the callback on the references of the first that are
  left, then of the second and so on, in order, until the callback fails, panics or stops the iteration; it
  ends, reports the callback's error unless it is the stop signal, and leaves nothing to iterate.
\<close>

theorem MultiReferenceIter_ForEach_visits:
  "\<exists>its'. MultiReferenceIter_ForEach its cb st =
     Some (fst (visit cb st (concat (map slice_items its))), its', snd (visit cb st (concat (map slice_items its)))) \<and>
     multi_items its' = []"
  using multi_iter.forEach_visits [of cb its st]
  by (simp add: MultiReferenceIter_ForEach_def multi_items_def)

section \<open>Reference storers\<close>

record 's ReferenceStorer =
  rs_SetReference :: "'s \<Rightarrow> Reference option \<Rightarrow> 's \<times> unit result"
  rs_CheckAndSetReference :: "'s \<Rightarrow> Reference option \<Rightarrow> Reference option \<Rightarrow> 's \<times> unit result"
  rs_Reference :: "'s \<Rightarrow> ReferenceName \<Rightarrow> Reference option result"
  rs_IterReferences :: "'s \<Rightarrow> ReferenceSliceIter list result"
  rs_RemoveReference :: "'s \<Rightarrow> ReferenceName \<Rightarrow> 's \<times> unit result"
  rs_CountLooseRefs :: "'s \<Rightarrow> int result"
  rs_PackRefs :: "'s \<Rightarrow> 's \<times> unit result"

abbreviation ErrMaxResolveRecursion :: error where "ErrMaxResolveRecursion \<equiv> Sentinel ''ErrMaxResolveRecursion''"
abbreviation ErrReferenceHasChanged :: error where "ErrReferenceHasChanged \<equiv> Sentinel ''ErrReferenceHasChanged''"

definition MaxResolveRecursion :: nat where "MaxResolveRecursion = 1024"

text \<open>Following a reference; the type of a nil reference is asked for, which panics.\<close>

function resolveReference ::
    "'s ReferenceStorer \<Rightarrow> 's \<Rightarrow> Reference option \<Rightarrow> nat \<Rightarrow> Reference option result" where
  "resolveReference ops s r recursion =
     (case r of
        None \<Rightarrow> Panic
      | Some ref \<Rightarrow>
          if ref_t ref \<noteq> SymbolicReference then Ok (Some ref)
          else if recursion > MaxResolveRecursion then Error ErrMaxResolveRecursion
          else rbind (rs_Reference ops s (ref_target ref)) (\<lambda>t. resolveReference ops s t (recursion + 1)))"
  by pat_completeness auto
termination
  by (relation "measure (\<lambda>(ops, s, r, recursion). MaxResolveRecursion + 1 - recursion)") auto

declare resolveReference.simps [simp del]

definition ResolveReference :: "'s ReferenceStorer \<Rightarrow> 's \<Rightarrow> ReferenceName \<Rightarrow> Reference option result" where
  "ResolveReference ops s n =
     rbind (rs_Reference ops s n) (\<lambda>r.
       case r of
         None \<Rightarrow> Error ErrReferenceNotFound
       | Some ref \<Rightarrow> resolveReference ops s r 0)"

text \<open>A name leads to a reference through \<open>k\<close> symbolic references.\<close>

inductive leads :: "'s ReferenceStorer \<Rightarrow> 's \<Rightarrow> ReferenceName \<Rightarrow> nat \<Rightarrow> Reference \<Rightarrow> bool" for ops s where
  direct: "rs_Reference ops s n = Ok (Some r) \<Longrightarrow> ref_t r \<noteq> SymbolicReference \<Longrightarrow> leads ops s n 0 r"
| follow: "rs_Reference ops s n = Ok (Some r) \<Longrightarrow> ref_t r = SymbolicReference \<Longrightarrow>
    leads ops s (ref_target r) k r' \<Longrightarrow> leads ops s n (Suc k) r'"

inductive_cases leads_0E: "leads ops s n 0 r"
inductive_cases leads_SucE: "leads ops s n (Suc k) r"

text \<open>The first \<open>k\<close> references from a name on are symbolic.\<close>

fun symbolic_chain :: "'s ReferenceStorer \<Rightarrow> 's \<Rightarrow> ReferenceName \<Rightarrow> nat \<Rightarrow> bool" where
  "symbolic_chain ops s n 0 \<longleftrightarrow> True"
| "symbolic_chain ops s n (Suc k) \<longleftrightarrow>
     (case rs_Reference ops s n of
        Ok (Some r) \<Rightarrow> ref_t r = SymbolicReference \<and> symbolic_chain ops s (ref_target r) k
      | _ \<Rightarrow> False)"

lemma resolveReference_chain:
  assumes "i + k = MaxResolveRecursion + 1" and "ref_t ref = SymbolicReference" and "symbolic_chain ops s (ref_target ref) k"
  shows "resolveReference ops s (Some ref) i = Error ErrMaxResolveRecursion"
  using assms
proof (induction k arbitrary: i ref)
  case 0
  then show ?case by (subst resolveReference.simps) simp
next
  case (Suc k)
  then obtain r where r: "rs_Reference ops s (ref_target ref) = Ok (Some r)" "ref_t r = SymbolicReference" "symbolic_chain ops s (ref_target r) k"
    by (auto split: result.splits option.splits)
  have "resolveReference ops s (Some r) (i + 1) = Error ErrMaxResolveRecursion" using Suc.IH [of "i + 1" r] Suc.prems(1) r by simp
  then show ?case using Suc.prems r(1) by (simp add: resolveReference.simps [of ops s "Some ref" i])
qed

lemma resolveReference_leads:
  "resolveReference ops s (Some ref) i = Ok (Some r) \<longleftrightarrow>
     (if ref_t ref = SymbolicReference
      then \<exists>k. i + k \<le> MaxResolveRecursion \<and> leads ops s (ref_target ref) k r else r = ref)"
proof (induction "MaxResolveRecursion + 1 - i" arbitrary: i ref rule: less_induct)
  case less
  show ?case
  proof (cases "ref_t ref = SymbolicReference \<and> i \<le> MaxResolveRecursion")
    case False
    then show ?thesis by (auto simp: resolveReference.simps [of ops s "Some ref" i])
  next
    case True
    have step: "resolveReference ops s (Some ref) i = Ok (Some r) \<longleftrightarrow>
        (\<exists>t. rs_Reference ops s (ref_target ref) = Ok (Some t) \<and> resolveReference ops s (Some t) (i + 1) = Ok (Some r))"
      using True by (simp add: resolveReference.simps [of ops s "Some ref" i] split_option_ex
          resolveReference.simps [of ops s None])
    have "MaxResolveRecursion + 1 - (i + 1) < MaxResolveRecursion + 1 - i" using True by linarith
    note IH = less.hyps [OF this]
    show ?thesis
    proof
      assume "resolveReference ops s (Some ref) i = Ok (Some r)"
      then obtain t where t: "rs_Reference ops s (ref_target ref) = Ok (Some t)"
        and rest: "resolveReference ops s (Some t) (i + 1) = Ok (Some r)" using step by blast
      have "(if ref_t t = SymbolicReference
          then \<exists>k. i + 1 + k \<le> MaxResolveRecursion \<and> leads ops s (ref_target t) k r else r = t)"
        using rest by (simp only: IH)
      then have "\<exists>k. i + k \<le> MaxResolveRecursion \<and> leads ops s (ref_target ref) k r"
      proof (cases "ref_t t = SymbolicReference")
        case True
        with \<open>if _ then _ else _\<close> obtain k where k: "i + 1 + k \<le> MaxResolveRecursion" "leads ops s (ref_target t) k r"
          by auto
        then show ?thesis using leads.follow [OF t True] by (intro exI [of _ "Suc k"]) simp
      next
        case False
        with \<open>if _ then _ else _\<close> t show ?thesis using \<open>ref_t ref = SymbolicReference \<and> i \<le> MaxResolveRecursion\<close>
          by (intro exI [of _ 0]) (auto intro: leads.direct)
      qed
      with True show "if ref_t ref = SymbolicReference
          then \<exists>k. i + k \<le> MaxResolveRecursion \<and> leads ops s (ref_target ref) k r else r = ref" by simp
    next
      assume "if ref_t ref = SymbolicReference
          then \<exists>k. i + k \<le> MaxResolveRecursion \<and> leads ops s (ref_target ref) k r else r = ref"
      then obtain k where k: "i + k \<le> MaxResolveRecursion" "leads ops s (ref_target ref) k r" using True by auto
      from k(2) show "resolveReference ops s (Some ref) i = Ok (Some r)"
      proof (cases rule: leads.cases)
        case direct
        then show ?thesis using step by (auto simp: resolveReference.simps [of ops s "Some r"])
      next
        case (follow t k')
        then have "resolveReference ops s (Some t) (i + 1) = Ok (Some r)" unfolding IH using k(1) by auto
        with follow step show ?thesis by blast
      qed
    qed
  qed
qed


lemma ResolveReference_leads:
  "ResolveReference ops s n = Ok (Some r) \<longleftrightarrow> (\<exists>k. k \<le> MaxResolveRecursion + 1 \<and> leads ops s n k r)"
proof
  assume "ResolveReference ops s n = Ok (Some r)"
  then obtain ref where ref: "rs_Reference ops s n = Ok (Some ref)" "resolveReference ops s (Some ref) 0 = Ok (Some r)"
    by (auto simp: ResolveReference_def split: option.splits)
  then show "\<exists>k. k \<le> MaxResolveRecursion + 1 \<and> leads ops s n k r"
  proof (cases "ref_t ref = SymbolicReference")
    case True
    with ref(2) obtain k where "k \<le> MaxResolveRecursion" "leads ops s (ref_target ref) k r"
      by (auto simp: resolveReference_leads)
    then show ?thesis using leads.follow [OF ref(1) True] by (intro exI [of _ "Suc k"]) simp
  next
    case False
    with ref(2) have "r = ref" by (simp add: resolveReference_leads)
    with leads.direct [OF ref(1) False] show ?thesis by blast
  qed
next
  assume "\<exists>k. k \<le> MaxResolveRecursion + 1 \<and> leads ops s n k r"
  then obtain k where k: "k \<le> MaxResolveRecursion + 1" "leads ops s n k r" by blast
  from k(2) show "ResolveReference ops s n = Ok (Some r)"
  proof (cases rule: leads.cases)
    case direct
    then show ?thesis by (simp add: ResolveReference_def resolveReference_leads)
  next
    case (follow ref k')
    then have "resolveReference ops s (Some ref) 0 = Ok (Some r)"
      using k(1) by (auto simp: resolveReference_leads)
    with follow show ?thesis by (simp add: ResolveReference_def)
  qed
qed

lemma ResolveReference_chain:
  assumes "symbolic_chain ops s n (MaxResolveRecursion + 2)"
  shows "ResolveReference ops s n = Error ErrMaxResolveRecursion"
proof -
  obtain r where r: "rs_Reference ops s n = Ok (Some r)" "ref_t r = SymbolicReference" "symbolic_chain ops s (ref_target r) (MaxResolveRecursion + 1)"
    using assms by (auto split: result.splits option.splits)
  then show ?thesis using resolveReference_chain [of 0 "MaxResolveRecursion + 1" r] by (simp add: ResolveReference_def)
qed

text \<open>
  C16. Resolving a name finds a reference exactly when the name leads to it through at most 1025
  symbolic references, one more than the limit; when the first 1026 references from the name on are
  symbolic, as in every cycle, the answer is the error for the limit.
\<close>

theorem ResolveReference_iff_leads:
  "(ResolveReference ops s n = Ok (Some r) \<longleftrightarrow> (\<exists>k. k \<le> MaxResolveRecursion + 1 \<and> leads ops s n k r)) \<and>
   (symbolic_chain ops s n (MaxResolveRecursion + 2) \<longrightarrow> ResolveReference ops s n = Error ErrMaxResolveRecursion)"
  using ResolveReference_leads [of ops s n r] ResolveReference_chain [of ops s n] by (intro conjI impI)

text \<open>A storer whose only reference points at itself.\<close>

definition cyclic_storer :: "unit ReferenceStorer" where
  "cyclic_storer = \<lparr>rs_SetReference = \<lambda>s r. (s, Ok ()), rs_CheckAndSetReference = \<lambda>s r q. (s, Ok ()),
     rs_Reference = \<lambda>s n. Ok (Some (NewSymbolicReference n n)), rs_IterReferences = \<lambda>s. Ok [],
     rs_RemoveReference = \<lambda>s n. (s, Ok ()), rs_CountLooseRefs = \<lambda>s. Ok 0, rs_PackRefs = \<lambda>s. (s, Ok ())\<rparr>"

theorem ResolveReference_iff_leads_witness:
  "ResolveReference cyclic_storer () ''HEAD'' = Error ErrMaxResolveRecursion"
proof -
  have "symbolic_chain cyclic_storer () n k" for n k
    by (induction k arbitrary: n) (simp_all add: cyclic_storer_def NewSymbolicReference_def)
  with ResolveReference_iff_leads [of cyclic_storer "()" "''HEAD''"] show ?thesis by blast
qed

text \<open>
  The contract of a reference storer: its state stands for a finite map from names to references,
  and the operations look up, update and enumerate that map.
\<close>

definition lookup_outcome :: "Reference option \<Rightarrow> Reference option result" where
  "lookup_outcome r = (case r of None \<Rightarrow> Error ErrReferenceNotFound | Some ref \<Rightarrow> Ok (Some ref))"

locale reference_map =
  fixes ops :: "'s ReferenceStorer" and inv :: "'s \<Rightarrow> bool" and refs :: "'s \<Rightarrow> ReferenceName \<rightharpoonup> Reference"
  assumes lookup: "inv s \<Longrightarrow> rs_Reference ops s n = lookup_outcome (refs s n)"
    and set_ref: "inv s \<Longrightarrow> \<exists>s'. rs_SetReference ops s (Some r) = (s', Ok ()) \<and> inv s' \<and> refs s' = (refs s)(ref_n r \<mapsto> r)"
    and remove_ref: "inv s \<Longrightarrow> \<exists>s'. rs_RemoveReference ops s n = (s', Ok ()) \<and> inv s' \<and> refs s' = (refs s)(n := None)"

text \<open>A storer that also enumerates exactly its references.\<close>

locale reference_storer = reference_map +
  assumes iter_refs: "inv s \<Longrightarrow> \<exists>its. rs_IterReferences ops s = Ok its \<and>
      (\<forall>n r. refs s n = Some r \<longleftrightarrow> r \<in> set (multi_items its) \<and> ref_n r = n)"

section \<open>Iterators over objects\<close>

definition EncodedObjectSliceIter_Next :: "MemoryObject list \<Rightarrow> MemoryObject result \<times> MemoryObject list" where
  "EncodedObjectSliceIter_Next series =
     (if length series = 0 then (Error EOF, series) else (Ok (hd series), tl series))"

definition EncodedObjectSliceIter_Close :: "MemoryObject list \<Rightarrow> MemoryObject list" where
  "EncodedObjectSliceIter_Close series = []"

fun MultiEncodedObjectIter_Next :: "MemoryObject list list \<Rightarrow> MemoryObject result \<times> MemoryObject list list" where
  "MultiEncodedObjectIter_Next [] = (Error EOF, [])"
| "MultiEncodedObjectIter_Next (it # its) =
     (case EncodedObjectSliceIter_Next it of
        (Error e, it') \<Rightarrow> if e = EOF then MultiEncodedObjectIter_Next its else (Error e, it' # its)
      | (r, it') \<Rightarrow> (r, it' # its))"

definition MultiEncodedObjectIter_Close :: "MemoryObject list list \<Rightarrow> MemoryObject list list" where
  "MultiEncodedObjectIter_Close its = map EncodedObjectSliceIter_Close its"

text \<open>An iterator over hashes that looks each object up in a storage.\<close>

record EncodedObjectLookupIter =
  li_series :: "ObjectID list"
  li_t :: ObjectType
  li_pos :: nat

definition NewEncodedObjectLookupIter :: "ObjectType \<Rightarrow> ObjectID list \<Rightarrow> EncodedObjectLookupIter" where
  "NewEncodedObjectLookupIter t series = \<lparr>li_series = series, li_t = t, li_pos = 0\<rparr>"

definition EncodedObjectLookupIter_Next ::
    "(ObjectType \<Rightarrow> ObjectID \<Rightarrow> MemoryObject result) \<Rightarrow> EncodedObjectLookupIter \<Rightarrow>
     MemoryObject result \<times> EncodedObjectLookupIter" where
  "EncodedObjectLookupIter_Next storage it =
     (if li_pos it \<ge> length (li_series it) then (Error EOF, it)
      else case storage (li_t it) (li_series it ! li_pos it) of
             Ok obj \<Rightarrow> (Ok obj, it\<lparr>li_pos := li_pos it + 1\<rparr>)
           | r \<Rightarrow> (r, it))"

definition EncodedObjectLookupIter_Close :: "EncodedObjectLookupIter \<Rightarrow> EncodedObjectLookupIter" where
  "EncodedObjectLookupIter_Close it = it\<lparr>li_pos := length (li_series it)\<rparr>"

definition ForEachIterator where
  "ForEachIterator nxt cls it cb st = forEachIter nxt cls cb it st"

interpretation object_iter: iterator EncodedObjectSliceIter_Next EncodedObjectSliceIter_Close "\<lambda>it. it"
  by unfold_locales (auto simp: EncodedObjectSliceIter_Next_def EncodedObjectSliceIter_Close_def)

lemma MultiEncodedObjectIter_Next_Nil: "concat its = [] \<Longrightarrow> fst (MultiEncodedObjectIter_Next its) = Error EOF"
  by (induction its) (auto simp: EncodedObjectSliceIter_Next_def)

lemma MultiEncodedObjectIter_Next_Cons:
  "concat its = x # xs \<Longrightarrow> \<exists>its'. MultiEncodedObjectIter_Next its = (Ok x, its') \<and> concat its' = xs"
proof (induction its)
  case (Cons it its)
  then show ?case by (cases it) (auto simp: EncodedObjectSliceIter_Next_def)
qed simp

interpretation multi_object_iter: iterator MultiEncodedObjectIter_Next MultiEncodedObjectIter_Close concat
proof
  show "concat (MultiEncodedObjectIter_Close its) = []" for its
    by (simp add: MultiEncodedObjectIter_Close_def EncodedObjectSliceIter_Close_def)
qed (fact MultiEncodedObjectIter_Next_Nil MultiEncodedObjectIter_Next_Cons)+

section \<open>The interface of an object storer\<close>

text \<open>A storer returns the hash of an object it was given also when it reports an error.\<close>

record 's EncodedObjectStorer =
  eo_SetEncodedObject :: "'s \<Rightarrow> MemoryObject \<Rightarrow> 's \<times> ObjectID \<times> error option"
  eo_EncodedObject :: "'s \<Rightarrow> ObjectType \<Rightarrow> ObjectID \<Rightarrow> MemoryObject result"
  eo_IterEncodedObjects :: "'s \<Rightarrow> ObjectType \<Rightarrow> MemoryObject list list result"
  eo_HasEncodedObject :: "'s \<Rightarrow> ObjectID \<Rightarrow> unit result"
  eo_EncodedObjectSize :: "'s \<Rightarrow> ObjectID \<Rightarrow> int result"
  eo_AddAlternate :: "'s \<Rightarrow> string \<Rightarrow> 's \<times> unit result"

end
