(* ===== verification/MemoryStorage.thy ===== *)
theory MemoryStorage
  imports Storer "HOL-Library.AList"
begin

text \<open>
  The storage in memory: \<^verbatim>\<open>storage/memory/storage.go\<close>. A Go map is an association list with distinct
  keys; the order of its entries stands for the order in which Go happens to enumerate the map, and
  no theorem depends on it. Stored objects are values: the state an object has when it is stored.
  Configurations and indexes are opaque here: a type variable, with the validation and the default
  value that the sources call as arguments.
\<close>

section \<open>References\<close>

type_synonym ReferenceStorage = "(ReferenceName \<times> Reference) list"

definition mem_SetReference :: "ReferenceStorage \<Rightarrow> Reference option \<Rightarrow> ReferenceStorage \<times> unit result" where
  "mem_SetReference r ref =
     (case ref of None \<Rightarrow> (r, Ok ()) | Some x \<Rightarrow> (AList.update (ref_n x) x r, Ok ()))"

definition mem_CheckAndSetReference ::
    "ReferenceStorage \<Rightarrow> Reference option \<Rightarrow> Reference option \<Rightarrow> ReferenceStorage \<times> unit result" where
  "mem_CheckAndSetReference r ref old =
     (case ref of
        None \<Rightarrow> (r, Ok ())
      | Some x \<Rightarrow>
          if (case old of
                None \<Rightarrow> False
              | Some y \<Rightarrow> (case map_of r (ref_n x) of
                             None \<Rightarrow> False
                           | Some tmp \<Rightarrow> ref_h tmp \<noteq> ref_h y))
          then (r, Error ErrReferenceHasChanged)
          else (AList.update (ref_n x) x r, Ok ()))"

definition mem_Reference :: "ReferenceStorage \<Rightarrow> ReferenceName \<Rightarrow> Reference option result" where
  "mem_Reference r n =
     (case map_of r n of None \<Rightarrow> Error ErrReferenceNotFound | Some ref \<Rightarrow> Ok (Some ref))"

definition mem_IterReferences :: "ReferenceStorage \<Rightarrow> ReferenceSliceIter list result" where
  "mem_IterReferences r = Ok [NewReferenceSliceIter (map snd r)]"

definition mem_CountLooseRefs :: "ReferenceStorage \<Rightarrow> int result" where
  "mem_CountLooseRefs r = Ok (int (length r))"

definition mem_PackRefs :: "ReferenceStorage \<Rightarrow> ReferenceStorage \<times> unit result" where
  "mem_PackRefs r = (r, Ok ())"

definition mem_RemoveReference :: "ReferenceStorage \<Rightarrow> ReferenceName \<Rightarrow> ReferenceStorage \<times> unit result" where
  "mem_RemoveReference r n = (AList.delete n r, Ok ())"

definition mem_references :: "ReferenceStorage ReferenceStorer" where
  "mem_references =
     \<lparr>rs_SetReference = mem_SetReference, rs_CheckAndSetReference = mem_CheckAndSetReference,
      rs_Reference = mem_Reference, rs_IterReferences = mem_IterReferences,
      rs_RemoveReference = mem_RemoveReference, rs_CountLooseRefs = mem_CountLooseRefs, rs_PackRefs = mem_PackRefs\<rparr>"

section \<open>Objects\<close>

abbreviation ErrUnsupportedObjectType :: error where
  "ErrUnsupportedObjectType \<equiv> Sentinel ''ErrUnsupportedObjectType''"
abbreviation ErrObjectNotFound :: error where "ErrObjectNotFound \<equiv> Sentinel ''ErrObjectNotFound''"
abbreviation errNotSupported :: error where "errNotSupported \<equiv> Sentinel ''errNotSupported''"

type_synonym ObjectMap = "(ObjectID \<times> MemoryObject) list"

record ObjectStorage =
  os_Objects :: ObjectMap
  os_Commits :: ObjectMap
  os_Trees :: ObjectMap
  os_Blobs :: ObjectMap
  os_Tags :: ObjectMap

definition newObjectStorage :: ObjectStorage where
  "newObjectStorage = \<lparr>os_Objects = [], os_Commits = [], os_Trees = [], os_Blobs = [], os_Tags = []\<rparr>"

text \<open>The outcome of storing an object carries its hash with or without the error.\<close>

definition SetEncodedObject :: "digest \<Rightarrow> ObjectStorage \<Rightarrow> MemoryObject \<Rightarrow> ObjectStorage \<times> ObjectID \<times> error option" where
  "SetEncodedObject sha os obj0 =
     (let (h, obj) = MemoryObject_Hash sha obj0;
          os = os\<lparr>os_Objects := AList.update h obj (os_Objects os)\<rparr>
      in if mo_t obj = CommitObject then (os\<lparr>os_Commits := AList.update h obj (os_Commits os)\<rparr>, h, None)
         else if mo_t obj = TreeObject then (os\<lparr>os_Trees := AList.update h obj (os_Trees os)\<rparr>, h, None)
         else if mo_t obj = BlobObject then (os\<lparr>os_Blobs := AList.update h obj (os_Blobs os)\<rparr>, h, None)
         else if mo_t obj = TagObject then (os\<lparr>os_Tags := AList.update h obj (os_Tags os)\<rparr>, h, None)
         else (os, h, Some ErrUnsupportedObjectType))"

definition HasEncodedObject :: "ObjectStorage \<Rightarrow> ObjectID \<Rightarrow> unit result" where
  "HasEncodedObject os h = (case map_of (os_Objects os) h of None \<Rightarrow> Error ErrObjectNotFound | Some obj \<Rightarrow> Ok ())"

definition EncodedObjectSize :: "ObjectStorage \<Rightarrow> ObjectID \<Rightarrow> int result" where
  "EncodedObjectSize os h =
     (case map_of (os_Objects os) h of None \<Rightarrow> Error ErrObjectNotFound | Some obj \<Rightarrow> Ok (mo_sz obj))"

definition EncodedObject :: "ObjectStorage \<Rightarrow> ObjectType \<Rightarrow> ObjectID \<Rightarrow> MemoryObject result" where
  "EncodedObject os t h =
     (case map_of (os_Objects os) h of
        None \<Rightarrow> Error ErrObjectNotFound
      | Some obj \<Rightarrow> if AnyObject \<noteq> t \<and> mo_t obj \<noteq> t then Error ErrObjectNotFound else Ok obj)"

definition flattenObjectMap :: "ObjectMap \<Rightarrow> MemoryObject list" where
  "flattenObjectMap m = map snd m"

definition IterEncodedObjects :: "ObjectStorage \<Rightarrow> ObjectType \<Rightarrow> MemoryObject list" where
  "IterEncodedObjects os t =
     (if t = AnyObject then flattenObjectMap (os_Objects os)
      else if t = CommitObject then flattenObjectMap (os_Commits os)
      else if t = TreeObject then flattenObjectMap (os_Trees os)
      else if t = BlobObject then flattenObjectMap (os_Blobs os)
      else if t = TagObject then flattenObjectMap (os_Tags os)
      else [])"

text \<open>A raw object writer, from its creation to its closing, with all that is written in between.\<close>

definition RawObjectWriter :: "digest \<Rightarrow> ObjectStorage \<Rightarrow> ObjectType \<Rightarrow> int \<Rightarrow> bytes list \<Rightarrow> ObjectStorage \<times> ObjectID \<times> error option" where
  "RawObjectWriter sha os typ sz ps =
     (let obj = MemoryObject_SetSize (MemoryObject_SetType newMemoryObject typ) sz
      in SetEncodedObject sha os (foldl MemoryObject_Write obj ps))"

fun ForEachObjectHash_loop :: "('st \<Rightarrow> ObjectID \<Rightarrow> 'st \<times> unit result) \<Rightarrow> 'st \<Rightarrow> ObjectID list \<Rightarrow> 'st \<times> unit result" where
  "ForEachObjectHash_loop fn st [] = (st, Ok ())"
| "ForEachObjectHash_loop fn st (h # hs) =
     (case fn st h of
        (st', Error e) \<Rightarrow> (st', if e = ErrStop then Ok () else Error e)
      | (st', Panic) \<Rightarrow> (st', Panic)
      | (st', Ok u) \<Rightarrow> ForEachObjectHash_loop fn st' hs)"

definition ForEachObjectHash :: "ObjectStorage \<Rightarrow> ('st \<Rightarrow> ObjectID \<Rightarrow> 'st \<times> unit result) \<Rightarrow> 'st \<Rightarrow> 'st \<times> unit result" where
  "ForEachObjectHash os fn st = ForEachObjectHash_loop fn st (map fst (os_Objects os))"

definition mem_DeleteLooseObject :: "ObjectID \<Rightarrow> unit result" where
  "mem_DeleteLooseObject h = Error errNotSupported"

definition mem_AddAlternate :: "string \<Rightarrow> unit result" where
  "mem_AddAlternate remote = Error errNotSupported"

definition mem_objects :: "digest \<Rightarrow> ObjectStorage EncodedObjectStorer" where
  "mem_objects sha =
     \<lparr>eo_SetEncodedObject = SetEncodedObject sha, eo_EncodedObject = EncodedObject,
      eo_IterEncodedObjects = (\<lambda>os t. Ok [IterEncodedObjects os t]), eo_HasEncodedObject = HasEncodedObject,
      eo_EncodedObjectSize = EncodedObjectSize, eo_AddAlternate = (\<lambda>os remote. (os, mem_AddAlternate remote))\<rparr>"

section \<open>Transactions over objects\<close>

record TxObjectStorage =
  txo_Storage :: ObjectStorage
  txo_Objects :: ObjectMap

definition mem_Begin :: "ObjectStorage \<Rightarrow> TxObjectStorage" where
  "mem_Begin os = \<lparr>txo_Storage = os, txo_Objects = []\<rparr>"

definition Tx_SetEncodedObject :: "digest \<Rightarrow> TxObjectStorage \<Rightarrow> MemoryObject \<Rightarrow> TxObjectStorage \<times> ObjectID" where
  "Tx_SetEncodedObject sha tx obj0 =
     (let (h, obj) = MemoryObject_Hash sha obj0
      in (tx\<lparr>txo_Objects := AList.update h obj (txo_Objects tx)\<rparr>, h))"

definition Tx_EncodedObject :: "TxObjectStorage \<Rightarrow> ObjectType \<Rightarrow> ObjectID \<Rightarrow> MemoryObject result" where
  "Tx_EncodedObject tx t h =
     (case map_of (txo_Objects tx) h of
        None \<Rightarrow> Error ErrObjectNotFound
      | Some obj \<Rightarrow> if AnyObject \<noteq> t \<and> mo_t obj \<noteq> t then Error ErrObjectNotFound else Ok obj)"

fun Tx_Commit_loop :: "digest \<Rightarrow> (ObjectID \<times> MemoryObject) list \<Rightarrow> TxObjectStorage \<Rightarrow> TxObjectStorage \<times> unit result" where
  "Tx_Commit_loop sha [] tx = (tx, Ok ())"
| "Tx_Commit_loop sha ((h, obj) # es) tx =
     (let tx = tx\<lparr>txo_Objects := AList.delete h (txo_Objects tx)\<rparr>
      in case SetEncodedObject sha (txo_Storage tx) obj of
           (os, h', Some e) \<Rightarrow> (tx\<lparr>txo_Storage := os\<rparr>, Error e)
         | (os, h', None) \<Rightarrow> Tx_Commit_loop sha es (tx\<lparr>txo_Storage := os\<rparr>))"

definition Tx_Commit :: "digest \<Rightarrow> TxObjectStorage \<Rightarrow> TxObjectStorage \<times> unit result" where
  "Tx_Commit sha tx = Tx_Commit_loop sha (txo_Objects tx) tx"

definition Tx_Rollback :: "TxObjectStorage \<Rightarrow> TxObjectStorage" where
  "Tx_Rollback tx = tx\<lparr>txo_Objects := []\<rparr>"

section \<open>Configuration, index, shallow commits and modules\<close>

type_synonym 'cfg ConfigStorage = "'cfg option"

definition mem_SetConfig :: "('cfg \<Rightarrow> unit result) \<Rightarrow> 'cfg ConfigStorage \<Rightarrow> 'cfg \<Rightarrow> 'cfg ConfigStorage \<times> unit result" where
  "mem_SetConfig validate c cfg =
     (case validate cfg of Ok u \<Rightarrow> (Some cfg, Ok ()) | r \<Rightarrow> (c, r))"

definition mem_Config :: "'cfg \<Rightarrow> 'cfg ConfigStorage \<Rightarrow> 'cfg ConfigStorage \<times> 'cfg" where
  "mem_Config newConfig c = (case c of None \<Rightarrow> (Some newConfig, newConfig) | Some cfg \<Rightarrow> (c, cfg))"

type_synonym 'idx IndexStorage = "'idx option"

definition mem_SetIndex :: "'idx IndexStorage \<Rightarrow> 'idx \<Rightarrow> 'idx IndexStorage" where
  "mem_SetIndex c i = Some i"

definition mem_Index :: "'idx \<Rightarrow> 'idx IndexStorage \<Rightarrow> 'idx IndexStorage \<times> 'idx" where
  "mem_Index newIndex c = (case c of None \<Rightarrow> (Some newIndex, newIndex) | Some i \<Rightarrow> (c, i))"

type_synonym ShallowStorage = "ObjectID list"

definition mem_SetShallow :: "ShallowStorage \<Rightarrow> ObjectID list \<Rightarrow> ShallowStorage" where
  "mem_SetShallow s commits = commits"

definition mem_Shallow :: "ShallowStorage \<Rightarrow> ObjectID list" where
  "mem_Shallow s = s"


datatype ('cfg, 'idx) Storage =
  Storage (st_ConfigStorage: "'cfg ConfigStorage") (st_ObjectStorage: ObjectStorage)
    (st_ShallowStorage: ShallowStorage) (st_IndexStorage: "'idx IndexStorage")
    (st_ReferenceStorage: ReferenceStorage) (st_ModuleStorage: "(string \<times> ('cfg, 'idx) Storage) list")

definition NewStorage :: "('cfg, 'idx) Storage" where
  "NewStorage = Storage None newObjectStorage [] None [] []"

definition mem_Module ::
    "(string \<times> ('cfg, 'idx) Storage) list \<Rightarrow> string \<Rightarrow> (string \<times> ('cfg, 'idx) Storage) list \<times> ('cfg, 'idx) Storage" where
  "mem_Module s name =
     (case map_of s name of
        Some m \<Rightarrow> (s, m)
      | None \<Rightarrow> (let m = NewStorage in (AList.update name m s, m)))"

section \<open>The reference storage keeps the contract\<close>

definition mem_inv :: "ReferenceStorage \<Rightarrow> bool" where
  "mem_inv r \<longleftrightarrow> distinct (map fst r) \<and> list_all (\<lambda>(n, ref). ref_n ref = n) r"

lemma mem_inv_map_of: "mem_inv r \<Longrightarrow> map_of r n = Some ref \<longleftrightarrow> ref \<in> set (map snd r) \<and> ref_n ref = n"
proof
  assume inv: "mem_inv r" and "map_of r n = Some ref"
  then have "(n, ref) \<in> set r" by (simp add: map_of_SomeD)
  with inv show "ref \<in> set (map snd r) \<and> ref_n ref = n"
    by (force simp: mem_inv_def list_all_iff)
next
  assume inv: "mem_inv r" and "ref \<in> set (map snd r) \<and> ref_n ref = n"
  then obtain m where "(m, ref) \<in> set r" by auto
  moreover from this inv have "m = n" using \<open>ref \<in> set (map snd r) \<and> ref_n ref = n\<close>
    by (auto simp: mem_inv_def list_all_iff)
  ultimately show "map_of r n = Some ref" using inv by (simp add: mem_inv_def)
qed

lemma update_cases: "x \<in> set (AList.update k v al) \<Longrightarrow> x = (k, v) \<or> x \<in> set al"
  by (induction al) (auto split: if_splits)

lemma mem_inv_update: "mem_inv r \<Longrightarrow> mem_inv (AList.update (ref_n x) x r)"
  by (auto simp: mem_inv_def distinct_update list_all_iff dest!: update_cases)

lemma set_delete_subset: "set (AList.delete n r) \<subseteq> set r"
  by (auto simp: AList.delete_eq)

lemma mem_inv_delete: "mem_inv r \<Longrightarrow> mem_inv (AList.delete n r)"
  using set_delete_subset [of n r] by (auto simp: mem_inv_def distinct_delete list_all_iff)

interpretation mem_refs: reference_storer mem_references mem_inv map_of
proof unfold_locales
  fix s :: ReferenceStorage and n r
  assume inv: "mem_inv s"
  show "rs_Reference mem_references s n = lookup_outcome (map_of s n)"
    by (simp add: mem_references_def mem_Reference_def lookup_outcome_def)
  show "\<exists>s'. rs_SetReference mem_references s (Some r) = (s', Ok ()) \<and> mem_inv s' \<and> map_of s' = (map_of s)(ref_n r \<mapsto> r)"
    using mem_inv_update [OF inv] by (simp add: mem_references_def mem_SetReference_def update_conv')
  show "\<exists>s'. rs_RemoveReference mem_references s n = (s', Ok ()) \<and> mem_inv s' \<and> map_of s' = (map_of s)(n := None)"
    using mem_inv_delete [OF inv] by (simp add: mem_references_def mem_RemoveReference_def delete_conv')
  show "\<exists>its. rs_IterReferences mem_references s = Ok its \<and>
      (\<forall>n r. map_of s n = Some r \<longleftrightarrow> r \<in> set (multi_items its) \<and> ref_n r = n)"
    using mem_inv_map_of [OF inv]
    by (simp add: mem_references_def mem_IterReferences_def multi_items_def slice_items_def NewReferenceSliceIter_def)
qed

text \<open>
  The check of \<^verbatim>\<open>CheckAndSetReference\<close> passes when there is nothing to compare with: whatever
  old value is expected, setting a reference that is not stored succeeds.
\<close>

theorem mem_CheckAndSetReference_missing:
  assumes "map_of r (ref_n new) = None"
  shows "\<exists>r'. mem_CheckAndSetReference r (Some new) (Some old) = (r', Ok ()) \<and> mem_Reference r' (ref_n new) = Ok (Some new)"
  using assms by (simp add: mem_CheckAndSetReference_def mem_Reference_def update_conv')

theorem mem_CheckAndSetReference_missing_witness:
  "\<exists>r'. mem_CheckAndSetReference [] (Some (NewHashReference HEAD ZeroHash)) (Some (NewHashReference HEAD ZeroHash)) = (r', Ok ()) \<and>
     mem_Reference r' (ref_n (NewHashReference HEAD ZeroHash)) = Ok (Some (NewHashReference HEAD ZeroHash))"
  by (rule mem_CheckAndSetReference_missing) simp

section \<open>The object storage\<close>

definition of_type :: "ObjectMap \<Rightarrow> ObjectMap \<Rightarrow> ObjectType \<Rightarrow> bool" where
  "of_type objs m t \<longleftrightarrow> distinct (map fst m) \<and>
     (\<forall>h ob. map_of m h = Some ob \<longleftrightarrow> map_of objs h = Some ob \<and> mo_t ob = t)"

definition objects_inv :: "ObjectStorage \<Rightarrow> bool" where
  "objects_inv os \<longleftrightarrow> distinct (map fst (os_Objects os)) \<and>
     of_type (os_Objects os) (os_Commits os) CommitObject \<and> of_type (os_Objects os) (os_Trees os) TreeObject \<and>
     of_type (os_Objects os) (os_Blobs os) BlobObject \<and> of_type (os_Objects os) (os_Tags os) TagObject"

text \<open>An object whose hash is stored already has the type of the stored one.\<close>

definition type_stable :: "ObjectStorage \<Rightarrow> ObjectID \<Rightarrow> ObjectType \<Rightarrow> bool" where
  "type_stable os h t \<longleftrightarrow> (case map_of (os_Objects os) h of None \<Rightarrow> True | Some ob \<Rightarrow> mo_t ob = t)"

lemma MemoryObject_Hash_type: "MemoryObject_Hash sha obj = (h, obj') \<Longrightarrow> mo_t obj' = mo_t obj"
  by (auto simp: MemoryObject_Hash_def Let_def split: if_splits)

lemma of_type_update_same:
  "of_type objs m t \<Longrightarrow> mo_t ob = t \<Longrightarrow> of_type (AList.update h ob objs) (AList.update h ob m) t"
  by (auto simp: of_type_def distinct_update update_conv')

lemma of_type_update_other:
  assumes "of_type objs m t" and "mo_t ob \<noteq> t"
    and "case map_of objs h of None \<Rightarrow> True | Some ob' \<Rightarrow> mo_t ob' = mo_t ob"
  shows "of_type (AList.update h ob objs) m t"
  using assms by (fastforce simp: of_type_def update_conv' split: option.splits)

lemma types_distinct:
  "CommitObject \<noteq> TreeObject" "CommitObject \<noteq> BlobObject" "CommitObject \<noteq> TagObject"
  "TreeObject \<noteq> BlobObject" "TreeObject \<noteq> TagObject" "BlobObject \<noteq> TagObject"
  "AnyObject \<noteq> CommitObject" "AnyObject \<noteq> TreeObject" "AnyObject \<noteq> BlobObject" "AnyObject \<noteq> TagObject"
  by (simp_all add: CommitObject_def TreeObject_def BlobObject_def TagObject_def AnyObject_def)

text \<open>
  C17. Storing an object keeps the invariant of the storage: the maps by type partition the objects
  of these types. An object of another type is reported as unsupported, and nevertheless stored.
  In every case the object is found under the hash returned, and every other object is as before. No
  object of another type may be stored under the hash of the object.
\<close>

theorem SetEncodedObject_correct:
  assumes "objects_inv os" and "SetEncodedObject sha os obj = (os', h, e)" and "type_stable os h (mo_t obj)"
  shows "objects_inv os' \<and>
    (e = None \<longleftrightarrow> mo_t obj \<in> {CommitObject, TreeObject, BlobObject, TagObject}) \<and>
    EncodedObject os' AnyObject h = Ok (snd (MemoryObject_Hash sha obj)) \<and>
    (\<forall>h' t. h' \<noteq> h \<longrightarrow> EncodedObject os' t h' = EncodedObject os t h')"
proof -
  obtain h0 ob where hash: "MemoryObject_Hash sha obj = (h0, ob)" by fastforce
  have h: "h = h0" and objs: "os_Objects os' = AList.update h ob (os_Objects os)"
    using assms(2) hash by (auto simp: SetEncodedObject_def Let_def split: if_splits)
  have t: "mo_t ob = mo_t obj" using hash by (rule MemoryObject_Hash_type)
  have stable: "case map_of (os_Objects os) h of None \<Rightarrow> True | Some ob' \<Rightarrow> mo_t ob' = mo_t ob"
    using assms(3) t by (simp add: type_stable_def split: option.splits)
  have "objects_inv os'"
    using assms(1,2) hash h stable of_type_update_other [of "os_Objects os" _ _ ob h]
    by (auto simp: objects_inv_def SetEncodedObject_def Let_def distinct_update types_distinct types_distinct [symmetric]
        intro!: of_type_update_same split: if_splits)
  moreover have "e = None \<longleftrightarrow> mo_t obj \<in> {CommitObject, TreeObject, BlobObject, TagObject}"
    using assms(2) hash t by (auto simp: SetEncodedObject_def Let_def split: if_splits)
  ultimately show ?thesis using hash objs by (simp add: EncodedObject_def update_conv')
qed

theorem SetEncodedObject_correct_witness:
  "\<exists>os' h e. SetEncodedObject toy_sha newObjectStorage (newMemoryObject\<lparr>mo_t := BlobObject, mo_cont := [1]\<rparr>) = (os', h, e) \<and>
     objects_inv newObjectStorage \<and> objects_inv os' \<and>
     EncodedObject os' AnyObject h = Ok (snd (MemoryObject_Hash toy_sha (newMemoryObject\<lparr>mo_t := BlobObject, mo_cont := [1]\<rparr>)))"
proof -
  obtain os' h e where set: "SetEncodedObject toy_sha newObjectStorage (newMemoryObject\<lparr>mo_t := BlobObject, mo_cont := [1]\<rparr>) = (os', h, e)"
    by (metis prod_cases3)
  have inv: "objects_inv newObjectStorage" by (simp add: objects_inv_def of_type_def newObjectStorage_def)
  have "type_stable newObjectStorage h (mo_t (newMemoryObject\<lparr>mo_t := BlobObject, mo_cont := [1]\<rparr>))"
    by (simp add: type_stable_def newObjectStorage_def)
  from SetEncodedObject_correct [OF inv set this] set inv show ?thesis by blast
qed

end
