(* ===== verification/Transactional.thy ===== *)
theory Transactional
  imports MemoryStorage
begin

text \<open>
  The transactional storage: \<^verbatim>\<open>storage/transactional\<close>. It reads from a base storer and writes to a
  temporal one; \<^verbatim>\<open>Commit\<close> copies what was written. Both storers are values of the storer interfaces,
  records of operations over their states, which the definitions take as arguments. The parts of a
  storer (objects, references, index, shallow commits and configuration) have separate states.
\<close>

section \<open>References\<close>

record ('b, 't) ReferenceTx =
  rt_base :: 'b
  rt_temporal :: 't
  rt_deleted :: "ReferenceName list"

definition NewReferenceTx :: "'b \<Rightarrow> 't \<Rightarrow> ('b, 't) ReferenceTx" where
  "NewReferenceTx base temporal = \<lparr>rt_base = base, rt_temporal = temporal, rt_deleted = []\<rparr>"

definition tx_SetReference ::
    "'t ReferenceStorer \<Rightarrow> ('b, 't) ReferenceTx \<Rightarrow> Reference option \<Rightarrow> ('b, 't) ReferenceTx \<times> unit result" where
  "tx_SetReference T r ref =
     (case ref of
        None \<Rightarrow> (r, Panic)
      | Some x \<Rightarrow>
          (let r = r\<lparr>rt_deleted := removeAll (ref_n x) (rt_deleted r)\<rparr>;
               (t, res) = rs_SetReference T (rt_temporal r) ref
           in (r\<lparr>rt_temporal := t\<rparr>, res)))"

definition tx_CheckAndSetReference ::
    "'b ReferenceStorer \<Rightarrow> 't ReferenceStorer \<Rightarrow> ('b, 't) ReferenceTx \<Rightarrow> Reference option \<Rightarrow> Reference option \<Rightarrow>
     ('b, 't) ReferenceTx \<times> unit result" where
  "tx_CheckAndSetReference B T r ref old =
     (case old of
        None \<Rightarrow> tx_SetReference T r ref
      | Some y \<Rightarrow>
          (let tmp = rs_Reference T (rt_temporal r) (ref_n y);
               tmp = (if tmp = Error ErrReferenceNotFound then rs_Reference B (rt_base r) (ref_n y) else tmp)
           in case tmp of
                Error e \<Rightarrow> (r, Error e)
              | Panic \<Rightarrow> (r, Panic)
              | Ok None \<Rightarrow> (r, Panic)
              | Ok (Some x) \<Rightarrow>
                  if ref_h x \<noteq> ref_h y then (r, Error ErrReferenceHasChanged) else tx_SetReference T r ref))"

definition tx_Reference ::
    "'b ReferenceStorer \<Rightarrow> 't ReferenceStorer \<Rightarrow> ('b, 't) ReferenceTx \<Rightarrow> ReferenceName \<Rightarrow> Reference option result" where
  "tx_Reference B T r n =
     (if n \<in> set (rt_deleted r) then Error ErrReferenceNotFound
      else let ref = rs_Reference T (rt_temporal r) n
           in if ref = Error ErrReferenceNotFound then rs_Reference B (rt_base r) n else ref)"

text \<open>An iterator over iterators gives the items of the first, then those of the second.\<close>

definition tx_IterReferences ::
    "'b ReferenceStorer \<Rightarrow> 't ReferenceStorer \<Rightarrow> ('b, 't) ReferenceTx \<Rightarrow> ReferenceSliceIter list result" where
  "tx_IterReferences B T r =
     rbind (rs_IterReferences B (rt_base r)) (\<lambda>baseIter.
     rbind (rs_IterReferences T (rt_temporal r)) (\<lambda>temporalIter.
     Ok (baseIter @ temporalIter)))"

definition tx_CountLooseRefs ::
    "'b ReferenceStorer \<Rightarrow> 't ReferenceStorer \<Rightarrow> ('b, 't) ReferenceTx \<Rightarrow> int result" where
  "tx_CountLooseRefs B T r =
     rbind (rs_CountLooseRefs T (rt_temporal r)) (\<lambda>tc.
     rbind (rs_CountLooseRefs B (rt_base r)) (\<lambda>bc. Ok (tc + bc)))"

definition tx_PackRefs :: "('b, 't) ReferenceTx \<Rightarrow> ('b, 't) ReferenceTx \<times> unit result" where
  "tx_PackRefs r = (r, Ok ())"

definition tx_RemoveReference ::
    "'t ReferenceStorer \<Rightarrow> ('b, 't) ReferenceTx \<Rightarrow> ReferenceName \<Rightarrow> ('b, 't) ReferenceTx \<times> unit result" where
  "tx_RemoveReference T r n =
     (let r = r\<lparr>rt_deleted := List.insert n (rt_deleted r)\<rparr>;
          (t, res) = rs_RemoveReference T (rt_temporal r) n
      in (r\<lparr>rt_temporal := t\<rparr>, res))"

fun tx_Commit_deleted :: "'b ReferenceStorer \<Rightarrow> ReferenceName list \<Rightarrow> 'b \<Rightarrow> 'b \<times> unit result" where
  "tx_Commit_deleted B [] b = (b, Ok ())"
| "tx_Commit_deleted B (name # names) b =
     (case rs_RemoveReference B b name of
        (b', Ok u) \<Rightarrow> tx_Commit_deleted B names b'
      | (b', r) \<Rightarrow> (b', r))"

definition tx_Commit ::
    "'b ReferenceStorer \<Rightarrow> 't ReferenceStorer \<Rightarrow> ('b, 't) ReferenceTx \<Rightarrow> (('b, 't) ReferenceTx \<times> unit result) option" where
  "tx_Commit B T r =
     (case tx_Commit_deleted B (rt_deleted r) (rt_base r) of
        (b, Ok u) \<Rightarrow>
          (case rs_IterReferences T (rt_temporal r) of
             Ok it \<Rightarrow>
               (case MultiReferenceIter_ForEach it (\<lambda>b ref. rs_SetReference B b (Some ref)) b of
                  None \<Rightarrow> None
                | Some (b, it', res) \<Rightarrow> Some (r\<lparr>rt_base := b\<rparr>, res))
           | Error e \<Rightarrow> Some (r\<lparr>rt_base := b\<rparr>, Error e)
           | Panic \<Rightarrow> Some (r\<lparr>rt_base := b\<rparr>, Panic))
      | (b, res) \<Rightarrow> Some (r\<lparr>rt_base := b\<rparr>, res))"

definition tx_references ::
    "'b ReferenceStorer \<Rightarrow> 't ReferenceStorer \<Rightarrow> ('b, 't) ReferenceTx ReferenceStorer" where
  "tx_references B T =
     \<lparr>rs_SetReference = tx_SetReference T, rs_CheckAndSetReference = tx_CheckAndSetReference B T,
      rs_Reference = tx_Reference B T, rs_IterReferences = tx_IterReferences B T,
      rs_RemoveReference = tx_RemoveReference T, rs_CountLooseRefs = tx_CountLooseRefs B T, rs_PackRefs = tx_PackRefs\<rparr>"

section \<open>Objects\<close>

record ('b, 't) ObjectTx =
  ot_base :: 'b
  ot_temporal :: 't

definition NewObjectTx :: "'b \<Rightarrow> 't \<Rightarrow> ('b, 't) ObjectTx" where
  "NewObjectTx base temporal = \<lparr>ot_base = base, ot_temporal = temporal\<rparr>"

definition txo_SetEncodedObject ::
    "'t EncodedObjectStorer \<Rightarrow> ('b, 't) ObjectTx \<Rightarrow> MemoryObject \<Rightarrow> ('b, 't) ObjectTx \<times> ObjectID \<times> error option" where
  "txo_SetEncodedObject T x obj =
     (let (t, h, e) = eo_SetEncodedObject T (ot_temporal x) obj in (x\<lparr>ot_temporal := t\<rparr>, h, e))"

text \<open>Asking the base storer first, and the temporal one when the object is not found there.\<close>

definition or_temporal :: "'a result \<Rightarrow> 'a result \<Rightarrow> 'a result" where
  "or_temporal r r' = (case r of Error e \<Rightarrow> if errors_Is e ErrObjectNotFound then r' else r | _ \<Rightarrow> r)"

definition txo_HasEncodedObject ::
    "'b EncodedObjectStorer \<Rightarrow> 't EncodedObjectStorer \<Rightarrow> ('b, 't) ObjectTx \<Rightarrow> ObjectID \<Rightarrow> unit result" where
  "txo_HasEncodedObject B T x h =
     or_temporal (eo_HasEncodedObject B (ot_base x) h) (eo_HasEncodedObject T (ot_temporal x) h)"

definition txo_EncodedObjectSize ::
    "'b EncodedObjectStorer \<Rightarrow> 't EncodedObjectStorer \<Rightarrow> ('b, 't) ObjectTx \<Rightarrow> ObjectID \<Rightarrow> int result" where
  "txo_EncodedObjectSize B T x h =
     or_temporal (eo_EncodedObjectSize B (ot_base x) h) (eo_EncodedObjectSize T (ot_temporal x) h)"

definition txo_EncodedObject ::
    "'b EncodedObjectStorer \<Rightarrow> 't EncodedObjectStorer \<Rightarrow> ('b, 't) ObjectTx \<Rightarrow> ObjectType \<Rightarrow> ObjectID \<Rightarrow> MemoryObject result" where
  "txo_EncodedObject B T x t h =
     or_temporal (eo_EncodedObject B (ot_base x) t h) (eo_EncodedObject T (ot_temporal x) t h)"

definition txo_IterEncodedObjects ::
    "'b EncodedObjectStorer \<Rightarrow> 't EncodedObjectStorer \<Rightarrow> ('b, 't) ObjectTx \<Rightarrow> ObjectType \<Rightarrow> MemoryObject list list result" where
  "txo_IterEncodedObjects B T x t =
     rbind (eo_IterEncodedObjects B (ot_base x) t) (\<lambda>baseIter.
     rbind (eo_IterEncodedObjects T (ot_temporal x) t) (\<lambda>temporalIter.
     Ok (baseIter @ temporalIter)))"

definition txo_Commit ::
    "'b EncodedObjectStorer \<Rightarrow> 't EncodedObjectStorer \<Rightarrow> ('b, 't) ObjectTx \<Rightarrow> (('b, 't) ObjectTx \<times> unit result) option" where
  "txo_Commit B T x =
     (case eo_IterEncodedObjects T (ot_temporal x) AnyObject of
        Ok it \<Rightarrow>
          (case ForEachIterator MultiEncodedObjectIter_Next MultiEncodedObjectIter_Close it
                  (\<lambda>b obj. case eo_SetEncodedObject B b obj of (b', h, e) \<Rightarrow>
                     (b', case e of None \<Rightarrow> Ok () | Some e \<Rightarrow> Error e)) (ot_base x) of
             None \<Rightarrow> None
           | Some (b, it', res) \<Rightarrow> Some (x\<lparr>ot_base := b\<rparr>, res))
      | Error e \<Rightarrow> Some (x, Error e)
      | Panic \<Rightarrow> Some (x, Panic))"

definition txo_AddAlternate ::
    "'t EncodedObjectStorer \<Rightarrow> ('b, 't) ObjectTx \<Rightarrow> string \<Rightarrow> ('b, 't) ObjectTx \<times> unit result" where
  "txo_AddAlternate T x remote =
     (let (t, r) = eo_AddAlternate T (ot_temporal x) remote in (x\<lparr>ot_temporal := t\<rparr>, r))"

section \<open>Configuration and index\<close>

record ('s, 'c) ConfigStorer =
  cs_SetConfig :: "'s \<Rightarrow> 'c \<Rightarrow> 's \<times> unit result"
  cs_Config :: "'s \<Rightarrow> 's \<times> 'c result"

record ('b, 't) ConfigTx =
  ct_base :: 'b
  ct_temporal :: 't
  ct_set :: bool

definition NewConfigTx :: "'b \<Rightarrow> 't \<Rightarrow> ('b, 't) ConfigTx" where
  "NewConfigTx s temporal = \<lparr>ct_base = s, ct_temporal = temporal, ct_set = False\<rparr>"

definition tx_SetConfig :: "('t, 'c) ConfigStorer \<Rightarrow> ('b, 't) ConfigTx \<Rightarrow> 'c \<Rightarrow> ('b, 't) ConfigTx \<times> unit result" where
  "tx_SetConfig T c cfg =
     (case cs_SetConfig T (ct_temporal c) cfg of
        (t, Ok u) \<Rightarrow> (c\<lparr>ct_temporal := t, ct_set := True\<rparr>, Ok ())
      | (t, r) \<Rightarrow> (c\<lparr>ct_temporal := t\<rparr>, r))"

definition tx_Config ::
    "('b, 'c) ConfigStorer \<Rightarrow> ('t, 'c) ConfigStorer \<Rightarrow> ('b, 't) ConfigTx \<Rightarrow> ('b, 't) ConfigTx \<times> 'c result" where
  "tx_Config B T c =
     (if \<not> ct_set c then let (b, r) = cs_Config B (ct_base c) in (c\<lparr>ct_base := b\<rparr>, r)
      else let (t, r) = cs_Config T (ct_temporal c) in (c\<lparr>ct_temporal := t\<rparr>, r))"

definition txc_Commit ::
    "('b, 'c) ConfigStorer \<Rightarrow> ('t, 'c) ConfigStorer \<Rightarrow> ('b, 't) ConfigTx \<Rightarrow> ('b, 't) ConfigTx \<times> unit result" where
  "txc_Commit B T c =
     (if \<not> ct_set c then (c, Ok ())
      else case cs_Config T (ct_temporal c) of
             (t, Ok cfg) \<Rightarrow>
               (let (b, r) = cs_SetConfig B (ct_base c) cfg in (c\<lparr>ct_temporal := t, ct_base := b\<rparr>, r))
           | (t, Error e) \<Rightarrow> (c\<lparr>ct_temporal := t\<rparr>, Error e)
           | (t, Panic) \<Rightarrow> (c\<lparr>ct_temporal := t\<rparr>, Panic))"

record ('s, 'i) IndexStorer =
  ix_SetIndex :: "'s \<Rightarrow> 'i \<Rightarrow> 's \<times> unit result"
  ix_Index :: "'s \<Rightarrow> 's \<times> 'i result"

record ('b, 't) IndexTx =
  it_base :: 'b
  it_temporal :: 't
  it_set :: bool

definition NewIndexTx :: "'b \<Rightarrow> 't \<Rightarrow> ('b, 't) IndexTx" where
  "NewIndexTx s temporal = \<lparr>it_base = s, it_temporal = temporal, it_set = False\<rparr>"

definition tx_SetIndex :: "('t, 'i) IndexStorer \<Rightarrow> ('b, 't) IndexTx \<Rightarrow> 'i \<Rightarrow> ('b, 't) IndexTx \<times> unit result" where
  "tx_SetIndex T c i =
     (case ix_SetIndex T (it_temporal c) i of
        (t, Ok u) \<Rightarrow> (c\<lparr>it_temporal := t, it_set := True\<rparr>, Ok ())
      | (t, r) \<Rightarrow> (c\<lparr>it_temporal := t\<rparr>, r))"

definition tx_Index ::
    "('b, 'i) IndexStorer \<Rightarrow> ('t, 'i) IndexStorer \<Rightarrow> ('b, 't) IndexTx \<Rightarrow> ('b, 't) IndexTx \<times> 'i result" where
  "tx_Index B T c =
     (if \<not> it_set c then let (b, r) = ix_Index B (it_base c) in (c\<lparr>it_base := b\<rparr>, r)
      else let (t, r) = ix_Index T (it_temporal c) in (c\<lparr>it_temporal := t\<rparr>, r))"

definition txi_Commit ::
    "('b, 'i) IndexStorer \<Rightarrow> ('t, 'i) IndexStorer \<Rightarrow> ('b, 't) IndexTx \<Rightarrow> ('b, 't) IndexTx \<times> unit result" where
  "txi_Commit B T c =
     (if \<not> it_set c then (c, Ok ())
      else case ix_Index T (it_temporal c) of
             (t, Ok i) \<Rightarrow>
               (let (b, r) = ix_SetIndex B (it_base c) i in (c\<lparr>it_temporal := t, it_base := b\<rparr>, r))
           | (t, Error e) \<Rightarrow> (c\<lparr>it_temporal := t\<rparr>, Error e)
           | (t, Panic) \<Rightarrow> (c\<lparr>it_temporal := t\<rparr>, Panic))"

section \<open>Shallow commits\<close>

record 's ShallowStorer =
  ss_SetShallow :: "'s \<Rightarrow> ObjectID list \<Rightarrow> 's \<times> unit result"
  ss_Shallow :: "'s \<Rightarrow> ObjectID list result"

record ('b, 't) ShallowTx =
  sh_base :: 'b
  sh_temporal :: 't

definition NewShallowTx :: "'b \<Rightarrow> 't \<Rightarrow> ('b, 't) ShallowTx" where
  "NewShallowTx base temporal = \<lparr>sh_base = base, sh_temporal = temporal\<rparr>"

definition tx_SetShallow :: "'t ShallowStorer \<Rightarrow> ('b, 't) ShallowTx \<Rightarrow> ObjectID list \<Rightarrow> ('b, 't) ShallowTx \<times> unit result" where
  "tx_SetShallow T s commits =
     (let (t, r) = ss_SetShallow T (sh_temporal s) commits in (s\<lparr>sh_temporal := t\<rparr>, r))"

definition tx_Shallow :: "'b ShallowStorer \<Rightarrow> 't ShallowStorer \<Rightarrow> ('b, 't) ShallowTx \<Rightarrow> ObjectID list result" where
  "tx_Shallow B T s =
     rbind (ss_Shallow T (sh_temporal s)) (\<lambda>shallow.
     if length shallow \<noteq> 0 then Ok shallow else ss_Shallow B (sh_base s))"

definition txs_Commit :: "'b ShallowStorer \<Rightarrow> 't ShallowStorer \<Rightarrow> ('b, 't) ShallowTx \<Rightarrow> ('b, 't) ShallowTx \<times> unit result" where
  "txs_Commit B T s =
     (case ss_Shallow T (sh_temporal s) of
        Error e \<Rightarrow> (s, Error e)
      | Panic \<Rightarrow> (s, Panic)
      | Ok commits \<Rightarrow>
          if length commits = 0 then (s, Ok ())
          else let (b, r) = ss_SetShallow B (sh_base s) commits in (s\<lparr>sh_base := b\<rparr>, r))"

section \<open>The whole storage\<close>

text \<open>A storer: the operations of its parts.\<close>

record ('o, 'r, 'i, 's, 'c, 'idx, 'cfg) Storer_ops =
  sto_objects :: "'o EncodedObjectStorer"
  sto_references :: "'r ReferenceStorer"
  sto_index :: "('i, 'idx) IndexStorer"
  sto_shallow :: "'s ShallowStorer"
  sto_config :: "('c, 'cfg) ConfigStorer"

record ('ob, 'ot, 'rb, 'rt, 'ib, 'it, 'sb, 'st, 'cb, 'ct) basic =
  ba_ObjectStorage :: "('ob, 'ot) ObjectTx"
  ba_ReferenceStorage :: "('rb, 'rt) ReferenceTx"
  ba_IndexStorage :: "('ib, 'it) IndexTx"
  ba_ShallowStorage :: "('sb, 'st) ShallowTx"
  ba_ConfigStorage :: "('cb, 'ct) ConfigTx"

definition NewTxStorage where
  "NewTxStorage ob ot rb rt ib it sb st cb ct =
     \<lparr>ba_ObjectStorage = NewObjectTx ob ot, ba_ReferenceStorage = NewReferenceTx rb rt,
      ba_IndexStorage = NewIndexTx ib it, ba_ShallowStorage = NewShallowTx sb st, ba_ConfigStorage = NewConfigTx cb ct\<rparr>"

definition basic_Commit ::
    "('ob, 'rb, 'ib, 'sb, 'cb, 'idx, 'cfg) Storer_ops \<Rightarrow> ('ot, 'rt, 'it, 'st, 'ct, 'idx, 'cfg) Storer_ops \<Rightarrow>
     ('ob, 'ot, 'rb, 'rt, 'ib, 'it, 'sb, 'st, 'cb, 'ct) basic \<Rightarrow>
     (('ob, 'ot, 'rb, 'rt, 'ib, 'it, 'sb, 'st, 'cb, 'ct) basic \<times> unit result) option" where
  "basic_Commit B T s =
     (case txo_Commit (sto_objects B) (sto_objects T) (ba_ObjectStorage s) of
        None \<Rightarrow> None
      | Some (x, res) \<Rightarrow>
          let s = s\<lparr>ba_ObjectStorage := x\<rparr> in
          if res \<noteq> Ok () then Some (s, res)
          else case tx_Commit (sto_references B) (sto_references T) (ba_ReferenceStorage s) of
                 None \<Rightarrow> None
               | Some (r, res) \<Rightarrow>
                   let s = s\<lparr>ba_ReferenceStorage := r\<rparr> in
                   if res \<noteq> Ok () then Some (s, res)
                   else let (i, res) = txi_Commit (sto_index B) (sto_index T) (ba_IndexStorage s);
                            s = s\<lparr>ba_IndexStorage := i\<rparr> in
                   if res \<noteq> Ok () then Some (s, res)
                   else let (sh, res) = txs_Commit (sto_shallow B) (sto_shallow T) (ba_ShallowStorage s);
                            s = s\<lparr>ba_ShallowStorage := sh\<rparr> in
                   if res \<noteq> Ok () then Some (s, res)
                   else let (c, res) = txc_Commit (sto_config B) (sto_config T) (ba_ConfigStorage s);
                            s = s\<lparr>ba_ConfigStorage := c\<rparr> in
                   Some (s, res))"


section \<open>What a transaction over references means\<close>

text \<open>A sequence of changes, on a map of references and on a storer.\<close>

datatype ref_op = SetRef Reference | RemoveRef ReferenceName

fun abs_op :: "ref_op \<Rightarrow> (ReferenceName \<rightharpoonup> Reference) \<Rightarrow> ReferenceName \<rightharpoonup> Reference" where
  "abs_op (SetRef r) m = m(ref_n r \<mapsto> r)"
| "abs_op (RemoveRef n) m = m(n := None)"

fun run_ops :: "'s ReferenceStorer \<Rightarrow> ref_op list \<Rightarrow> 's \<Rightarrow> 's \<times> unit result" where
  "run_ops ops [] s = (s, Ok ())"
| "run_ops ops (x # xs) s =
     (case (case x of SetRef r \<Rightarrow> rs_SetReference ops s (Some r) | RemoveRef n \<Rightarrow> rs_RemoveReference ops s n) of
        (s', Ok u) \<Rightarrow> run_ops ops xs s'
      | (s', e) \<Rightarrow> (s', e))"

context reference_map
begin

lemma run_ops_refines:
  "inv s \<Longrightarrow> \<exists>s'. run_ops ops xs s = (s', Ok ()) \<and> inv s' \<and> refs s' = fold abs_op xs (refs s)"
proof (induction xs arbitrary: s)
  case (Cons x xs)
  have "\<exists>s'. (case x of SetRef r \<Rightarrow> rs_SetReference ops s (Some r) | RemoveRef n \<Rightarrow> rs_RemoveReference ops s n) = (s', Ok ()) \<and>
      inv s' \<and> refs s' = abs_op x (refs s)"
    using set_ref [OF Cons.prems] remove_ref [OF Cons.prems] by (cases x) auto
  with Cons.IH show ?case by force
qed simp

lemma visit_sets:
  "inv s \<Longrightarrow> \<exists>s'. visit (\<lambda>s ref. rs_SetReference ops s (Some ref)) s xs = (s', Ok ()) \<and> inv s' \<and>
     refs s' = fold abs_op (map SetRef xs) (refs s)"
proof (induction xs arbitrary: s)
  case (Cons x xs)
  obtain s' where "rs_SetReference ops s (Some x) = (s', Ok ())" "inv s'" "refs s' = (refs s)(ref_n x \<mapsto> x)"
    using set_ref [OF Cons.prems, of x] by auto
  with Cons.IH [of s'] show ?case by (simp add: fun_upd_def)
qed simp

lemma commit_deleted_removes:
  "inv s \<Longrightarrow> \<exists>s'. tx_Commit_deleted ops ns s = (s', Ok ()) \<and> inv s' \<and>
     refs s' = (\<lambda>n. if n \<in> set ns then None else refs s n)"
proof (induction ns arbitrary: s)
  case (Cons n ns)
  obtain s' where "rs_RemoveReference ops s n = (s', Ok ())" "inv s'" "refs s' = (refs s)(n := None)"
    using remove_ref [OF Cons.prems, of n] by auto
  with Cons.IH [of s'] show ?case by (auto simp: fun_eq_iff)
qed simp

end

text \<open>Writing references that are those of a map overrides what the map defines.\<close>

lemma fold_SetRef:
  "fold abs_op (map SetRef xs) m n =
     (case rev (filter (\<lambda>r. ref_n r = n) xs) of [] \<Rightarrow> m n | r # rs \<Rightarrow> Some r)"
  by (induction xs arbitrary: m) (auto split: list.splits)

lemma fold_SetRef_map:
  assumes "\<And>n r. m' n = Some r \<longleftrightarrow> r \<in> set xs \<and> ref_n r = n"
  shows "fold abs_op (map SetRef xs) m = m ++ m'"
proof
  fix n
  show "fold abs_op (map SetRef xs) m n = (m ++ m') n"
  proof (cases "rev (filter (\<lambda>r. ref_n r = n) xs)")
    case Nil
    then have "m' n = None" using assms [of n] by (cases "m' n") (auto simp: filter_empty_conv)
    with Nil show ?thesis by (simp add: fold_SetRef map_add_def)
  next
    case (Cons r rs)
    then have "r \<in> set (rev (filter (\<lambda>r. ref_n r = n) xs))" by simp
    then have "m' n = Some r" using assms [of n r] by simp
    with Cons show ?thesis by (simp add: fold_SetRef)
  qed
qed

definition tx_view :: "('b \<Rightarrow> ReferenceName \<rightharpoonup> Reference) \<Rightarrow> ('t \<Rightarrow> ReferenceName \<rightharpoonup> Reference) \<Rightarrow>
    ('b, 't) ReferenceTx \<Rightarrow> ReferenceName \<rightharpoonup> Reference" where
  "tx_view brefs trefs r n =
     (if n \<in> set (rt_deleted r) then None else (brefs (rt_base r) ++ trefs (rt_temporal r)) n)"

definition tx_inv :: "('b \<Rightarrow> bool) \<Rightarrow> ('t \<Rightarrow> bool) \<Rightarrow> ('t \<Rightarrow> ReferenceName \<rightharpoonup> Reference) \<Rightarrow> ('b, 't) ReferenceTx \<Rightarrow> bool" where
  "tx_inv binv tinv trefs r \<longleftrightarrow>
     binv (rt_base r) \<and> tinv (rt_temporal r) \<and> (\<forall>n \<in> set (rt_deleted r). trefs (rt_temporal r) n = None)"

locale transaction =
  base: reference_storer B binv brefs + temp: reference_storer T tinv trefs
  for B :: "'b ReferenceStorer" and binv brefs and T :: "'t ReferenceStorer" and tinv trefs

sublocale transaction \<subseteq> tx: reference_map "tx_references B T" "tx_inv binv tinv trefs" "tx_view brefs trefs"
proof unfold_locales
  fix s n r
  assume inv: "tx_inv binv tinv trefs s"
  then have inv': "binv (rt_base s)" "tinv (rt_temporal s)" by (simp_all add: tx_inv_def)
  show "rs_Reference (tx_references B T) s n = lookup_outcome (tx_view brefs trefs s n)"
    using base.lookup [OF inv'(1)] temp.lookup [OF inv'(2)]
    by (auto simp: tx_references_def tx_Reference_def tx_view_def lookup_outcome_def map_add_def split: option.splits)
  obtain t where t: "rs_SetReference T (rt_temporal s) (Some r) = (t, Ok ())" "tinv t" "trefs t = (trefs (rt_temporal s))(ref_n r \<mapsto> r)"
    using temp.set_ref [OF inv'(2), of r] by auto
  with inv show "\<exists>s'. rs_SetReference (tx_references B T) s (Some r) = (s', Ok ()) \<and> tx_inv binv tinv trefs s' \<and>
      tx_view brefs trefs s' = (tx_view brefs trefs s)(ref_n r \<mapsto> r)"
    by (auto simp: tx_references_def tx_SetReference_def tx_inv_def tx_view_def fun_eq_iff map_add_def)
  obtain t where t: "rs_RemoveReference T (rt_temporal s) n = (t, Ok ())" "tinv t" "trefs t = (trefs (rt_temporal s))(n := None)"
    using temp.remove_ref [OF inv'(2), of n] by auto
  with inv show "\<exists>s'. rs_RemoveReference (tx_references B T) s n = (s', Ok ()) \<and> tx_inv binv tinv trefs s' \<and>
      tx_view brefs trefs s' = (tx_view brefs trefs s)(n := None)"
    by (auto simp: tx_references_def tx_RemoveReference_def tx_inv_def tx_view_def fun_eq_iff map_add_def)
qed

context transaction
begin

lemma commit_makes_view:
  assumes "tx_inv binv tinv trefs r"
  shows "\<exists>r'. tx_Commit B T r = Some (r', Ok ()) \<and> binv (rt_base r') \<and> brefs (rt_base r') = tx_view brefs trefs r"
proof -
  from assms have inv: "binv (rt_base r)" "tinv (rt_temporal r)" and del: "\<forall>n \<in> set (rt_deleted r). trefs (rt_temporal r) n = None"
    by (simp_all add: tx_inv_def)
  obtain b where b: "tx_Commit_deleted B (rt_deleted r) (rt_base r) = (b, Ok ())" "binv b"
    "brefs b = (\<lambda>n. if n \<in> set (rt_deleted r) then None else brefs (rt_base r) n)"
    using base.commit_deleted_removes [OF inv(1)] by blast
  obtain its where its: "rs_IterReferences T (rt_temporal r) = Ok its"
    and all: "\<And>n x. trefs (rt_temporal r) n = Some x \<longleftrightarrow> x \<in> set (multi_items its) \<and> ref_n x = n"
    using temp.iter_refs [OF inv(2)] by blast
  obtain b' where b': "visit (\<lambda>b ref. rs_SetReference B b (Some ref)) b (multi_items its) = (b', Ok ())" "binv b'"
    "brefs b' = fold abs_op (map SetRef (multi_items its)) (brefs b)"
    using base.visit_sets [OF b(2)] by blast
  have "brefs b' = brefs b ++ trefs (rt_temporal r)"
    using b'(3) fold_SetRef_map [OF all] by simp
  with del b(3) have "brefs b' = tx_view brefs trefs r"
    by (auto simp: tx_view_def fun_eq_iff map_add_def split: option.splits)
  moreover obtain it' where "MultiReferenceIter_ForEach its (\<lambda>b ref. rs_SetReference B b (Some ref)) b = Some (b', it', Ok ())"
    using multi_iter.forEach_visits [of "\<lambda>b ref. rs_SetReference B b (Some ref)" its b] b'(1)
    by (auto simp: MultiReferenceIter_ForEach_def)
  ultimately show ?thesis using b(1) its b'(2) by (simp add: tx_Commit_def)
qed

lemma transaction_refines:
  assumes "binv b" and "tinv t" and "trefs t = Map.empty"
  shows "\<exists>r r'. run_ops (tx_references B T) xs (NewReferenceTx b t) = (r, Ok ()) \<and>
    brefs (rt_base r) = brefs b \<and>
    (\<forall>n. tx_Reference B T r n = lookup_outcome (fold abs_op xs (brefs b) n)) \<and>
    tx_Commit B T r = Some (r', Ok ()) \<and> binv (rt_base r') \<and> brefs (rt_base r') = fold abs_op xs (brefs b)"
proof -
  have inv: "tx_inv binv tinv trefs (NewReferenceTx b t)" using assms by (simp add: tx_inv_def NewReferenceTx_def)
  have view: "tx_view brefs trefs (NewReferenceTx b t) = brefs b"
    using assms(3) by (simp add: tx_view_def NewReferenceTx_def fun_eq_iff map_add_def)
  obtain r where r: "run_ops (tx_references B T) xs (NewReferenceTx b t) = (r, Ok ())"
    "tx_inv binv tinv trefs r" "tx_view brefs trefs r = fold abs_op xs (brefs b)"
    using tx.run_ops_refines [OF inv] view by auto
  moreover have "rt_base r = b"
  proof -
    have "fst (run_ops (tx_references B T) xs r0) = r1 \<Longrightarrow> rt_base r1 = rt_base r0" for r0 r1
      by (induction xs arbitrary: r0)
        (auto simp: tx_references_def tx_SetReference_def tx_RemoveReference_def Let_def
          split: ref_op.splits prod.splits result.splits)
    from this [of "NewReferenceTx b t" r] r(1) show ?thesis by (simp add: NewReferenceTx_def)
  qed
  moreover obtain r' where "tx_Commit B T r = Some (r', Ok ())" "binv (rt_base r')" "brefs (rt_base r') = tx_view brefs trefs r"
    using commit_makes_view [OF r(2)] by blast
  ultimately show ?thesis using tx.lookup [OF r(2)] by (simp add: tx_references_def)
qed

end

interpretation mem_tx: transaction mem_references mem_inv map_of mem_references mem_inv map_of
  by unfold_locales

text \<open>
  C18. A transaction over two storages in memory refines a map of references. After any sequence of
  changes it answers as the map with these changes, the base storage being as it was; committing
  succeeds and makes the base storage that map.
\<close>

theorem transaction_Commit_refines:
  assumes "mem_inv b"
  shows "\<exists>r r'. run_ops (tx_references mem_references mem_references) xs (NewReferenceTx b []) = (r, Ok ()) \<and>
    map_of (rt_base r) = map_of b \<and>
    (\<forall>n. tx_Reference mem_references mem_references r n = lookup_outcome (fold abs_op xs (map_of b) n)) \<and>
    tx_Commit mem_references mem_references r = Some (r', Ok ()) \<and>
    mem_inv (rt_base r') \<and> map_of (rt_base r') = fold abs_op xs (map_of b)"
  using assms by (intro mem_tx.transaction_refines) (simp_all add: mem_inv_def)

theorem transaction_Commit_refines_witness:
  "\<exists>r r'. run_ops (tx_references mem_references mem_references) [RemoveRef Master, SetRef (NewHashReference HEAD ZeroHash)]
      (NewReferenceTx [(Master, NewHashReference Master ZeroHash)] []) = (r, Ok ()) \<and>
    map_of (rt_base r) = map_of [(Master, NewHashReference Master ZeroHash)] \<and>
    (\<forall>n. tx_Reference mem_references mem_references r n =
       lookup_outcome (fold abs_op [RemoveRef Master, SetRef (NewHashReference HEAD ZeroHash)] (map_of [(Master, NewHashReference Master ZeroHash)]) n)) \<and>
    tx_Commit mem_references mem_references r = Some (r', Ok ()) \<and>
    mem_inv (rt_base r') \<and>
    map_of (rt_base r') = fold abs_op [RemoveRef Master, SetRef (NewHashReference HEAD ZeroHash)] (map_of [(Master, NewHashReference Master ZeroHash)])"
  by (rule transaction_Commit_refines) (simp add: mem_inv_def NewHashReference_def)

text \<open>
  C19. What a transaction removed comes back in two ways before it is committed: its iterator still
  gives the removed reference of the base storage, and a compare-and-set against that reference
  succeeds although looking it up fails.
\<close>

theorem transaction_removed_reference_visible:
  assumes "mem_inv b" and "map_of b (ref_n old) = Some old"
    and "tx_RemoveReference mem_references (NewReferenceTx b []) (ref_n old) = (r, res)"
  shows "tx_Reference mem_references mem_references r (ref_n old) = Error ErrReferenceNotFound \<and>
    (\<exists>its. tx_IterReferences mem_references mem_references r = Ok its \<and> old \<in> set (multi_items its)) \<and>
    (\<exists>r'. tx_CheckAndSetReference mem_references mem_references r (Some new) (Some old) = (r', Ok ()))"
proof -
  have r: "r = \<lparr>rt_base = b, rt_temporal = [], rt_deleted = [ref_n old]\<rparr>"
    using assms(3) by (simp add: tx_RemoveReference_def NewReferenceTx_def mem_references_def mem_RemoveReference_def)
  have "old \<in> set (map snd b)" using mem_inv_map_of [OF assms(1)] assms(2) by blast
  then have "\<exists>its. tx_IterReferences mem_references mem_references r = Ok its \<and> old \<in> set (multi_items its)"
    by (simp add: r tx_IterReferences_def mem_references_def mem_IterReferences_def multi_items_def
        slice_items_def NewReferenceSliceIter_def)
  moreover have "\<exists>r'. tx_CheckAndSetReference mem_references mem_references r (Some new) (Some old) = (r', Ok ())"
    using assms(2)
    by (simp add: r tx_CheckAndSetReference_def tx_SetReference_def mem_references_def mem_Reference_def mem_SetReference_def)
  ultimately show ?thesis by (simp add: r tx_Reference_def)
qed

theorem transaction_removed_reference_visible_witness:
  "\<exists>r res. tx_RemoveReference mem_references (NewReferenceTx [(HEAD, NewHashReference HEAD ZeroHash)] []) HEAD = (r, res) \<and>
     tx_Reference mem_references mem_references r (ref_n (NewHashReference HEAD ZeroHash)) = Error ErrReferenceNotFound \<and>
    (\<exists>its. tx_IterReferences mem_references mem_references r = Ok its \<and> NewHashReference HEAD ZeroHash \<in> set (multi_items its)) \<and>
    (\<exists>r'. tx_CheckAndSetReference mem_references mem_references r (Some (NewHashReference HEAD ZeroHash)) (Some (NewHashReference HEAD ZeroHash)) = (r', Ok ()))"
proof -
  obtain r res where r: "tx_RemoveReference mem_references (NewReferenceTx [(HEAD, NewHashReference HEAD ZeroHash)] []) HEAD = (r, res)"
    by fastforce
  have n: "ref_n (NewHashReference HEAD ZeroHash) = HEAD" by (simp add: NewHashReference_def)
  have "mem_inv [(HEAD, NewHashReference HEAD ZeroHash)]"
    and "map_of [(HEAD, NewHashReference HEAD ZeroHash)] (ref_n (NewHashReference HEAD ZeroHash)) = Some (NewHashReference HEAD ZeroHash)"
    by (simp_all add: mem_inv_def n)
  from transaction_removed_reference_visible [OF this, unfolded n, OF r] show ?thesis using r unfolding n by blast
qed

end
