(* ===== verification/Cache.thy ===== *)
theory Cache
  imports ObjectId "HOL-Library.AList"
begin

text \<open>
  The caches with least-recently-used eviction: \<^verbatim>\<open>plumbing/cache\<close>. The list of package
  \<^verbatim>\<open>container/list\<close> is an association list from its elements, which have an identity, to their values,
  front first; the Go map of a cache goes from keys to elements. The two caches of the sources are
  the same code over buffers and over objects, and differ when the list is empty; they are
  instances of one definition. Sizes are \<^verbatim>\<open>int64\<close>, so what is accounted for wraps around.
\<close>

section \<open>Lists with element identities\<close>

type_synonym element = nat

definition MoveToFront :: "element \<Rightarrow> (element \<times> 'v) list \<Rightarrow> (element \<times> 'v) list" where
  "MoveToFront e l = (case map_of l e of None \<Rightarrow> l | Some v \<Rightarrow> (e, v) # AList.delete e l)"

definition SetValue :: "element \<Rightarrow> 'v \<Rightarrow> (element \<times> 'v) list \<Rightarrow> (element \<times> 'v) list" where
  "SetValue e v l = AList.map_entry e (\<lambda>_. v) l"

definition Back :: "(element \<times> 'v) list \<Rightarrow> (element \<times> 'v) option" where
  "Back l = (if l = [] then None else Some (last l))"

section \<open>The caches\<close>

text \<open>Arithmetic on \<^verbatim>\<open>FileSize\<close>, which is \<^verbatim>\<open>int64\<close>: what is left of an integer in two's complement.\<close>

definition FileSize :: "int \<Rightarrow> int" where
  "FileSize n = (n + 2 ^ 63) mod 2 ^ 64 - 2 ^ 63"

lemma FileSize_id: "- (2 ^ 63) \<le> n \<Longrightarrow> n < 2 ^ 63 \<Longrightarrow> FileSize n = n"
  by (simp add: FileSize_def)

record ('k, 'v) LRU =
  lru_MaxSize :: int
  lru_actualSize :: int
  lru_ll :: "(element \<times> 'v) list"
  lru_cache :: "('k \<times> element) list option"
  lru_fresh :: element

definition NewLRU :: "int \<Rightarrow> ('k, 'v) LRU" where
  "NewLRU maxSize = \<lparr>lru_MaxSize = maxSize, lru_actualSize = 0, lru_ll = [], lru_cache = None, lru_fresh = 0\<rparr>"

lemma delete_in: "e \<in> fst ` set l \<Longrightarrow> length (AList.delete e l) < length l"
  by (induction l) (force simp: less_Suc_eq_le length_delete_le)+

lemma Back_in: "Back l = Some (e, v) \<Longrightarrow> e \<in> fst ` set l"
  by (force simp: Back_def split: if_splits dest: last_in_set)

function LRU_evict ::
    "(('k, 'v) LRU \<Rightarrow> ('k, 'v) LRU result) \<Rightarrow> ('v \<Rightarrow> 'k) \<Rightarrow> ('v \<Rightarrow> int) \<Rightarrow> ('k, 'v) LRU \<Rightarrow> ('k, 'v) LRU result" where
  "LRU_evict onEmpty keyOf sizeOf c =
     (if lru_actualSize c > lru_MaxSize c
      then case Back (lru_ll c) of
             None \<Rightarrow> onEmpty c
           | Some (ee, lastObj) \<Rightarrow>
               LRU_evict onEmpty keyOf sizeOf
                 (c\<lparr>lru_ll := AList.delete ee (lru_ll c),
                    lru_cache := map_option (AList.delete (keyOf lastObj)) (lru_cache c),
                    lru_actualSize := FileSize (lru_actualSize c - sizeOf lastObj)\<rparr>)
      else Ok c)"
  by pat_completeness auto
termination
  by (relation "measure (\<lambda>(onEmpty, keyOf, sizeOf, c). length (lru_ll c))") (auto intro: delete_in dest: Back_in)

declare LRU_evict.simps [simp del]

definition LRU_Put ::
    "(('k, 'v) LRU \<Rightarrow> ('k, 'v) LRU result) \<Rightarrow> ('v \<Rightarrow> 'k) \<Rightarrow> ('v \<Rightarrow> int) \<Rightarrow> ('k, 'v) LRU \<Rightarrow> 'v \<Rightarrow> ('k, 'v) LRU result" where
  "LRU_Put onEmpty keyOf sizeOf c0 obj =
     (let c = (if lru_cache c0 = None then c0\<lparr>lru_actualSize := 0, lru_cache := Some [], lru_ll := []\<rparr> else c0);
          cache = the (lru_cache c);
          key = keyOf obj
      in case map_of cache key of
           Some ee \<Rightarrow>
             (case map_of (lru_ll c) ee of
                None \<Rightarrow> Panic
              | Some oldObj \<Rightarrow>
                  LRU_evict onEmpty keyOf sizeOf
                    (c\<lparr>lru_ll := SetValue ee obj (MoveToFront ee (lru_ll c)),
                       lru_actualSize := FileSize (lru_actualSize c + FileSize (sizeOf obj - sizeOf oldObj))\<rparr>))
         | None \<Rightarrow>
             if sizeOf obj > lru_MaxSize c then Ok c
             else let ee = lru_fresh c
                  in LRU_evict onEmpty keyOf sizeOf
                       (c\<lparr>lru_ll := (ee, obj) # lru_ll c, lru_fresh := ee + 1,
                          lru_cache := Some (AList.update key ee cache),
                          lru_actualSize := FileSize (lru_actualSize c + sizeOf obj)\<rparr>))"

definition LRU_Get :: "('k, 'v) LRU \<Rightarrow> 'k \<Rightarrow> ('v option \<times> ('k, 'v) LRU) result" where
  "LRU_Get c k =
     (case (case lru_cache c of None \<Rightarrow> None | Some cache \<Rightarrow> map_of cache k) of
        None \<Rightarrow> Ok (None, c)
      | Some ee \<Rightarrow>
          (case map_of (lru_ll c) ee of
             None \<Rightarrow> Panic
           | Some v \<Rightarrow> Ok (Some v, c\<lparr>lru_ll := MoveToFront ee (lru_ll c)\<rparr>)))"

definition LRU_Clear :: "('k, 'v) LRU \<Rightarrow> ('k, 'v) LRU" where
  "LRU_Clear c = c\<lparr>lru_ll := [], lru_cache := None, lru_actualSize := 0\<rparr>"

subsection \<open>Buffers\<close>

type_synonym BufferLRU = "(int, int \<times> bytes) LRU"

definition BufferLRU_Put :: "BufferLRU \<Rightarrow> int \<Rightarrow> bytes \<Rightarrow> BufferLRU result" where
  "BufferLRU_Put c key buf = LRU_Put (\<lambda>c. Panic) fst (\<lambda>b. int (length (snd b))) c (key, buf)"

definition BufferLRU_Get :: "BufferLRU \<Rightarrow> int \<Rightarrow> (bytes option \<times> BufferLRU) result" where
  "BufferLRU_Get c key = rbind (LRU_Get c key) (\<lambda>(b, c'). Ok (map_option snd b, c'))"

subsection \<open>Objects\<close>

type_synonym ObjectLRU = "(ObjectID, MemoryObject) LRU"

definition objectKey :: "digest \<Rightarrow> MemoryObject \<Rightarrow> ObjectID" where
  "objectKey sha obj = fst (MemoryObject_Hash sha obj)"

definition ObjectLRU_Put :: "digest \<Rightarrow> ObjectLRU \<Rightarrow> MemoryObject \<Rightarrow> ObjectLRU result" where
  "ObjectLRU_Put sha c obj =
     LRU_Put (\<lambda>c. Ok (c\<lparr>lru_actualSize := 0\<rparr>)) (objectKey sha) mo_sz c (snd (MemoryObject_Hash sha obj))"

definition ObjectLRU_Get :: "ObjectLRU \<Rightarrow> ObjectID \<Rightarrow> (MemoryObject option \<times> ObjectLRU) result" where
  "ObjectLRU_Get c k = LRU_Get c k"

definition KiByte :: int where "KiByte = 1024"
definition MiByte :: int where "MiByte = 1024 * KiByte"
definition DefaultMaxSize :: int where "DefaultMaxSize = 96 * MiByte"

definition NewLRUDefault :: "('k, 'v) LRU" where
  "NewLRUDefault = NewLRU DefaultMaxSize"

section \<open>What a cache means\<close>

text \<open>
  A cache stands for the list of its values, the last used first. Putting a value moves it to the
  front and drops values from the end until the rest fits.
\<close>

definition total :: "('v \<Rightarrow> int) \<Rightarrow> 'v list \<Rightarrow> int" where
  "total sizeOf vs = sum_list (map sizeOf vs)"

function trim :: "('v \<Rightarrow> int) \<Rightarrow> int \<Rightarrow> 'v list \<Rightarrow> 'v list" where
  "trim sizeOf m vs = (if total sizeOf vs > m \<and> vs \<noteq> [] then trim sizeOf m (butlast vs) else vs)"
  by pat_completeness auto
termination
  by (relation "measure (\<lambda>(sizeOf, m, vs). length vs)") auto

declare trim.simps [simp del]

definition lru_put :: "('v \<Rightarrow> 'k) \<Rightarrow> ('v \<Rightarrow> int) \<Rightarrow> int \<Rightarrow> 'v \<Rightarrow> 'v list \<Rightarrow> 'v list" where
  "lru_put keyOf sizeOf m v vs =
     (if keyOf v \<notin> keyOf ` set vs \<and> sizeOf v > m then vs
      else trim sizeOf m (v # filter (\<lambda>w. keyOf w \<noteq> keyOf v) vs))"

definition lru_find :: "('v \<Rightarrow> 'k) \<Rightarrow> 'k \<Rightarrow> 'v list \<Rightarrow> 'v option" where
  "lru_find keyOf k vs = map_of (map (\<lambda>v. (keyOf v, v)) vs) k"

definition lru_touch :: "('v \<Rightarrow> 'k) \<Rightarrow> 'k \<Rightarrow> 'v list \<Rightarrow> 'v list" where
  "lru_touch keyOf k vs =
     (case lru_find keyOf k vs of None \<Rightarrow> vs | Some v \<Rightarrow> v # filter (\<lambda>w. keyOf w \<noteq> k) vs)"

definition lru_values :: "('k, 'v) LRU \<Rightarrow> 'v list" where
  "lru_values c = map snd (lru_ll c)"

definition lru_inv :: "('v \<Rightarrow> 'k) \<Rightarrow> ('v \<Rightarrow> int) \<Rightarrow> ('k, 'v) LRU \<Rightarrow> bool" where
  "lru_inv keyOf sizeOf c \<longleftrightarrow>
     distinct (map fst (lru_ll c)) \<and> (\<forall>e \<in> fst ` set (lru_ll c). e < lru_fresh c) \<and>
     distinct (map keyOf (lru_values c)) \<and> lru_actualSize c = total sizeOf (lru_values c) \<and>
     (case lru_cache c of
        None \<Rightarrow> lru_ll c = []
      | Some cache \<Rightarrow> \<forall>k. map_of cache k = map_of (map (\<lambda>(e, v). (keyOf v, e)) (lru_ll c)) k)"


section \<open>The caches implement their meaning\<close>

lemma total_simps [simp]: "total sizeOf [] = 0" "total sizeOf (v # vs) = sizeOf v + total sizeOf vs"
  "total sizeOf (vs @ ws) = total sizeOf vs + total sizeOf ws"
  by (simp_all add: total_def)

lemma trim_fits: "0 \<le> m \<Longrightarrow> total sizeOf (trim sizeOf m vs) \<le> m"
  by (induction sizeOf m vs rule: trim.induct) (subst trim.simps, auto)

lemma trim_keeps_head: "sizeOf v \<le> m \<Longrightarrow> \<exists>ws. trim sizeOf m (v # vs) = v # ws"
proof (induction vs rule: rev_induct)
  case (snoc w vs)
  then show ?case by (subst trim.simps) auto
qed (simp add: trim.simps)

lemma trim_prefix: "\<exists>n. trim sizeOf m vs = take n vs"
proof (induction sizeOf m vs rule: trim.induct)
  case (1 sizeOf m vs)
  show ?case
  proof (cases "total sizeOf vs > m \<and> vs \<noteq> []")
    case True
    with 1 obtain n where "trim sizeOf m (butlast vs) = take n (butlast vs)" by blast
    with True show ?thesis by (subst trim.simps) (auto simp: butlast_conv_take min_def)
  next
    case False
    then show ?thesis by (subst trim.simps) (auto intro: exI [of _ "length vs"])
  qed
qed

text \<open>Elements and keys are the same thing, once each.\<close>

lemma delete_element:
  assumes "distinct (map fst l)" and "distinct (map keyOf (map snd l))" and "map_of l e = Some v"
  shows "map snd (AList.delete e l) = filter (\<lambda>w. keyOf w \<noteq> keyOf v) (map snd l)"
  using assms
proof (induction l)
  case (Cons a l)
  obtain e' w where a: "a = (e', w)" by fastforce
  show ?case
  proof (cases "e' = e")
    case True
    with Cons.prems a have "v = w" "e \<notin> fst ` set l" "\<forall>p \<in> set l. keyOf (snd p) \<noteq> keyOf v" by (auto simp: image_iff)
    with True a show ?thesis by (auto intro!: filter_True [symmetric])
  next
    case False
    with Cons.prems a have "map_of l e = Some v" by simp
    then have "v \<in> snd ` set l" by (metis image_eqI map_of_SomeD snd_conv)
    with Cons a False show ?thesis by auto
  qed
qed simp

lemma elements_of_keys:
  assumes "distinct (map keyOf (map snd l))" and "distinct (map fst l)"
  shows "map_of (map (\<lambda>(e, v). (keyOf v, e)) l) k = Some e \<longleftrightarrow> (\<exists>v. map_of l e = Some v \<and> keyOf v = k)"
proof -
  have "distinct (map fst (map (\<lambda>(e, v). (keyOf v, e)) l))" using assms(1) by (simp add: comp_def case_prod_beta)
  then have "map_of (map (\<lambda>(e, v). (keyOf v, e)) l) k = Some e \<longleftrightarrow> (\<exists>v. (e, v) \<in> set l \<and> keyOf v = k)"
    by (subst map_of_eq_Some_iff) auto
  then show ?thesis using assms(2) by simp
qed

lemma keys_of_delete:
  assumes "distinct (map keyOf (map snd l))" and "map_of l e = Some v" and "distinct (map fst l)"
  shows "map_of (map (\<lambda>(e, v). (keyOf v, e)) (AList.delete e l)) k =
    (if k = keyOf v then None else map_of (map (\<lambda>(e, v). (keyOf v, e)) l) k)"
  using assms
proof (induction l)
  case (Cons a l)
  obtain e' w where a: "a = (e', w)" by fastforce
  show ?case
  proof (cases "e' = e")
    case True
    with Cons.prems a have "v = w" "e \<notin> fst ` set l" "keyOf v \<notin> keyOf ` snd ` set l" by auto
    moreover from this have "map_of (map (\<lambda>(e, v). (keyOf v, e)) l) (keyOf v) = None"
      by (force simp: map_of_eq_None_iff)
    ultimately show ?thesis using True a by auto
  next
    case False
    with Cons.prems a have "map_of l e = Some v" by simp
    then have "v \<in> snd ` set l" by (metis image_eqI map_of_SomeD snd_conv)
    with Cons.prems a have "keyOf w \<noteq> keyOf v" by (auto simp: image_iff)
    with Cons a False show ?thesis by auto
  qed
qed simp

lemma Back_snoc:
  assumes "Back l = Some (e, v)" and "distinct (map fst l)"
  obtains l0 where "l = l0 @ [(e, v)]" and "AList.delete e l = l0" and "map_of l e = Some v"
proof -
  have "l \<noteq> []" "last l = (e, v)" using assms(1) by (auto simp: Back_def split: if_splits)
  then obtain l0 where l: "l = l0 @ [(e, v)]" by (metis append_butlast_last_id)
  moreover from this have "AList.delete e l = l0"
    using assms(2) by (force simp: AList.delete_eq intro!: filter_True)
  moreover have "map_of l e = Some v" using l assms(2) by (intro map_of_is_SomeI) auto
  ultimately show ?thesis using that by blast
qed

lemma MoveToFront_Some: "map_of l e = Some v \<Longrightarrow> MoveToFront e l = (e, v) # AList.delete e l"
  by (simp add: MoveToFront_def)

lemma SetValue_front: "SetValue e obj ((e, v) # AList.delete e l) = (e, obj) # AList.delete e l"
proof -
  have "AList.map_entry e (\<lambda>_. obj) al = al" if "e \<notin> fst ` set al" for al :: "(nat \<times> 'a) list"
    using that by (induction al) auto
  then show ?thesis by (simp add: SetValue_def delete_notin_dom)
qed

lemma total_remove:
  "distinct (map keyOf vs) \<Longrightarrow> old \<in> set vs \<Longrightarrow> keyOf old = k \<Longrightarrow>
    total sizeOf (filter (\<lambda>w. keyOf w \<noteq> k) vs) = total sizeOf vs - sizeOf old"
proof (induction vs)
  case (Cons w vs)
  show ?case
  proof (cases "w = old")
    case True
    with Cons.prems have "filter (\<lambda>w. keyOf w \<noteq> k) vs = vs" by (auto simp: image_iff intro!: filter_True)
    with True Cons.prems show ?thesis by simp
  next
    case False
    with Cons.prems have "old \<in> set vs" by simp
    with Cons.prems have "keyOf w \<noteq> k" by (auto simp: image_iff)
    with Cons \<open>old \<in> set vs\<close> show ?thesis by simp
  qed
qed simp

lemma lru_inv_front:
  assumes inv: "lru_inv keyOf sizeOf c" and e: "map_of (lru_ll c) e = Some old" and key: "keyOf v = keyOf old"
    and cache: "lru_cache c \<noteq> None"
  shows "lru_inv keyOf sizeOf (c\<lparr>lru_ll := (e, v) # AList.delete e (lru_ll c),
      lru_actualSize := lru_actualSize c + (sizeOf v - sizeOf old)\<rparr>)"
    and "map snd (AList.delete e (lru_ll c)) = filter (\<lambda>w. keyOf w \<noteq> keyOf v) (lru_values c)"
proof -
  have d: "distinct (map fst (lru_ll c))" "distinct (map keyOf (map snd (lru_ll c)))"
    using inv by (simp_all add: lru_inv_def lru_values_def)
  show eq: "map snd (AList.delete e (lru_ll c)) = filter (\<lambda>w. keyOf w \<noteq> keyOf v) (lru_values c)"
    using delete_element [OF d e] key by (simp add: lru_values_def)
  have in_set: "old \<in> set (lru_values c)" using e by (force simp: lru_values_def dest: map_of_SomeD)
  have "set (AList.delete e (lru_ll c)) \<subseteq> set (lru_ll c)" by (auto simp: AList.delete_eq)
  then have lt: "\<forall>e' \<in> fst ` set (AList.delete e (lru_ll c)). e' < lru_fresh c" and "e < lru_fresh c"
    using inv e by (auto simp: lru_inv_def dest: map_of_SomeD)
  have keys: "distinct (map keyOf (map snd ((e, v) # AList.delete e (lru_ll c))))"
    using d(2) eq by (auto simp: lru_values_def distinct_map intro: inj_on_subset simp flip: map_map)
  show "lru_inv keyOf sizeOf (c\<lparr>lru_ll := (e, v) # AList.delete e (lru_ll c),
      lru_actualSize := lru_actualSize c + (sizeOf v - sizeOf old)\<rparr>)"
    unfolding lru_inv_def lru_values_def
    using inv cache keys lt \<open>e < lru_fresh c\<close> d(1) key elements_of_keys [OF d(2,1), of "keyOf old" e] e
      total_remove [OF d(2) in_set [unfolded lru_values_def] key [symmetric]] eq [unfolded lru_values_def]
    by (auto simp: lru_inv_def lru_values_def distinct_delete delete_notin_dom keys_of_delete [OF d(2) e d(1)])
qed

lemma total_nonneg: "\<forall>v \<in> set vs. 0 \<le> sizeOf v \<Longrightarrow> 0 \<le> total sizeOf vs"
  by (induction vs) auto

lemma total_member: "\<forall>v \<in> set vs. 0 \<le> sizeOf v \<Longrightarrow> v \<in> set vs \<Longrightarrow> sizeOf v \<le> total sizeOf vs"
  by (induction vs) (use total_nonneg in fastforce)+

lemma LRU_evict_correct:
  assumes "lru_inv keyOf sizeOf c" and "lru_cache c \<noteq> None" and "0 \<le> lru_MaxSize c"
    and "\<forall>v \<in> set (lru_values c). 0 \<le> sizeOf v" and "total sizeOf (lru_values c) < 2 ^ 63"
  shows "\<exists>c'. LRU_evict onEmpty keyOf sizeOf c = Ok c' \<and> lru_inv keyOf sizeOf c' \<and> lru_MaxSize c' = lru_MaxSize c \<and>
    lru_values c' = trim sizeOf (lru_MaxSize c) (lru_values c)"
  using assms
proof (induction onEmpty keyOf sizeOf c rule: LRU_evict.induct)
  case (1 onEmpty keyOf sizeOf c)
  note inv = \<open>lru_inv keyOf sizeOf c\<close>
  have size_eq: "lru_actualSize c = total sizeOf (lru_values c)" using inv by (simp add: lru_inv_def)
  show ?case
  proof (cases "lru_actualSize c > lru_MaxSize c")
    case True
    with size_eq \<open>0 \<le> lru_MaxSize c\<close> have "lru_ll c \<noteq> []" by (auto simp: lru_values_def)
    then obtain e v where bk: "Back (lru_ll c) = Some (e, v)" by (metis Back_def prod.collapse)
    have d: "distinct (map fst (lru_ll c))" "distinct (map keyOf (map snd (lru_ll c)))"
      using inv by (simp_all add: lru_inv_def lru_values_def)
    obtain l0 where l: "lru_ll c = l0 @ [(e, v)]" and del: "AList.delete e (lru_ll c) = l0" and e: "map_of (lru_ll c) e = Some v"
      using Back_snoc [OF bk d(1)] .
    have vals: "lru_values c = map snd l0 @ [v]" by (simp add: lru_values_def l)
    let ?c = "c\<lparr>lru_ll := AList.delete e (lru_ll c),
                lru_cache := map_option (AList.delete (keyOf v)) (lru_cache c),
                lru_actualSize := FileSize (lru_actualSize c - sizeOf v)\<rparr>"
    have pos: "\<forall>v \<in> set (map snd l0). 0 \<le> sizeOf v" "0 \<le> sizeOf v" using "1.prems"(4) unfolding vals by auto
    then have fits: "0 \<le> total sizeOf (map snd l0)" "total sizeOf (map snd l0) < 2 ^ 63"
      using total_nonneg [OF pos(1)] "1.prems"(5) by (simp_all add: vals)
    then have "FileSize (lru_actualSize c - sizeOf v) = total sizeOf (map snd l0)" using size_eq by (simp add: vals FileSize_id)
    note size_eq' = this
    have keys: "map_of (map (\<lambda>(e, v). (keyOf v, e)) l0) k =
        (if k = keyOf v then None else map_of (map (\<lambda>(e, v). (keyOf v, e)) (lru_ll c)) k)" for k
      using keys_of_delete [OF d(2) e d(1), of k] del by simp
    obtain m where m: "lru_cache c = Some m" using \<open>lru_cache c \<noteq> None\<close> by blast
    have "map_of m k = map_of (map (\<lambda>(e, v). (keyOf v, e)) (lru_ll c)) k" for k
      using inv m by (simp add: lru_inv_def)
    then have cache: "map_of (AList.delete (keyOf v) m) k = map_of (map (\<lambda>(e, v). (keyOf v, e)) l0) k" for k
      using keys [of k] by (simp add: delete_conv')
    have rest: "distinct (map fst l0)" "distinct (map keyOf (map snd l0))" "\<forall>e \<in> fst ` set l0. e < lru_fresh c"
      using inv d l by (auto simp: lru_inv_def)
    have inv': "lru_inv keyOf sizeOf ?c"
      unfolding lru_inv_def lru_values_def using rest cache m size_eq' del by simp
    obtain c' where c': "LRU_evict onEmpty keyOf sizeOf ?c = Ok c'" "lru_inv keyOf sizeOf c'" "lru_MaxSize c' = lru_MaxSize c"
      "lru_values c' = trim sizeOf (lru_MaxSize c) (lru_values ?c)"
      using "1.IH" [OF True bk refl inv'] \<open>lru_cache c \<noteq> None\<close> \<open>0 \<le> lru_MaxSize c\<close> pos(1) fits(2) del by (auto simp: lru_values_def)
    have "trim sizeOf (lru_MaxSize c) (lru_values c) = trim sizeOf (lru_MaxSize c) (lru_values ?c)"
      using True size_eq vals del by (subst trim.simps) (simp add: lru_values_def)
    with c' True bk show ?thesis by (subst LRU_evict.simps) simp
  next
    case False
    with 1 size_eq show ?thesis by (subst LRU_evict.simps, subst trim.simps) simp
  qed
qed


lemma keys_None: "map_of (map (\<lambda>(e, v). (keyOf v, e)) l) k = None \<longleftrightarrow> k \<notin> keyOf ` set (map snd l)"
  by (simp add: map_of_eq_None_iff image_image case_prod_beta)

lemma LRU_Put_correct:
  assumes "lru_inv keyOf sizeOf c" and "0 \<le> lru_MaxSize c" and "lru_actualSize c \<le> lru_MaxSize c"
    and "\<forall>w \<in> set (lru_values c). 0 \<le> sizeOf w" and "0 \<le> sizeOf v" and "lru_MaxSize c + sizeOf v < 2 ^ 63"
  shows "\<exists>c'. LRU_Put onEmpty keyOf sizeOf c v = Ok c' \<and> lru_inv keyOf sizeOf c' \<and> lru_MaxSize c' = lru_MaxSize c \<and>
    lru_values c' = lru_put keyOf sizeOf (lru_MaxSize c) v (lru_values c)"
proof -
  define c1 where "c1 = (if lru_cache c = None then c\<lparr>lru_actualSize := 0, lru_cache := Some [], lru_ll := []\<rparr> else c)"
  have inv: "lru_inv keyOf sizeOf c1" and max: "lru_MaxSize c1 = lru_MaxSize c" and vals: "lru_values c1 = lru_values c"
    and fresh: "lru_fresh c1 = lru_fresh c"
    using assms(1) by (auto simp: c1_def lru_inv_def lru_values_def split: option.splits)
  have size_eq: "lru_actualSize c1 = total sizeOf (lru_values c)" "total sizeOf (lru_values c) \<le> lru_MaxSize c"
    using inv vals assms(1,3) by (simp_all add: lru_inv_def)
  have pos: "0 \<le> total sizeOf (lru_values c)" by (rule total_nonneg [OF assms(4)])
  obtain m where m: "lru_cache c1 = Some m" by (cases "lru_cache c") (auto simp: c1_def)
  have d: "distinct (map fst (lru_ll c1))" "distinct (map keyOf (map snd (lru_ll c1)))"
    using inv by (simp_all add: lru_inv_def lru_values_def)
  have look: "map_of m k = map_of (map (\<lambda>(e, v). (keyOf v, e)) (lru_ll c1)) k" for k
    using inv m by (simp add: lru_inv_def)
  show ?thesis
  proof (cases "map_of m (keyOf v)")
    case None
    then have "keyOf v \<notin> keyOf ` set (lru_values c1)" unfolding look keys_None lru_values_def .
    then have new: "keyOf v \<notin> keyOf ` set (lru_values c)" unfolding vals .
    show ?thesis
    proof (cases "sizeOf v > lru_MaxSize c")
      case True
      with None new m show ?thesis using inv max vals
        by (intro exI [of _ c1]) (simp add: LRU_Put_def lru_put_def Let_def flip: c1_def)
    next
      case False
      have size: "FileSize (lru_actualSize c1 + sizeOf v) = lru_actualSize c1 + sizeOf v"
        using size_eq pos assms(5,6) by (intro FileSize_id) simp_all
      let ?c = "c1\<lparr>lru_ll := (lru_fresh c1, v) # lru_ll c1, lru_fresh := lru_fresh c1 + 1,
                   lru_cache := Some (AList.update (keyOf v) (lru_fresh c1) m), lru_actualSize := lru_actualSize c1 + sizeOf v\<rparr>"
      have vals': "lru_values ?c = v # lru_values c" using vals by (simp add: lru_values_def)
      have "lru_inv keyOf sizeOf ?c"
        using inv m new [folded vals] look by (fastforce simp: lru_inv_def lru_values_def update_conv' image_image)
      moreover have "\<forall>w \<in> set (lru_values ?c). 0 \<le> sizeOf w" unfolding vals' using assms(4,5) by simp
      moreover have "total sizeOf (lru_values ?c) < 2 ^ 63" unfolding vals' using size_eq(2) assms(6) by simp
      ultimately obtain c' where
        "LRU_evict onEmpty keyOf sizeOf ?c = Ok c'" "lru_inv keyOf sizeOf c'" "lru_MaxSize c' = lru_MaxSize c"
        "lru_values c' = trim sizeOf (lru_MaxSize c) (v # lru_values c)"
        using LRU_evict_correct [of keyOf sizeOf ?c onEmpty] assms(2) max unfolding vals' by auto
      moreover have "filter (\<lambda>w. keyOf w \<noteq> keyOf v) (lru_values c) = lru_values c"
        using new by (auto simp: image_iff intro!: filter_True)
      ultimately show ?thesis using None False m max size
        by (intro exI [of _ c']) (simp add: LRU_Put_def lru_put_def Let_def flip: c1_def)
    qed
  next
    case (Some e)
    then obtain old where e: "map_of (lru_ll c1) e = Some old" and key: "keyOf v = keyOf old"
      using look elements_of_keys [OF d(2,1)] by metis
    then have "old \<in> set (lru_values c1)" by (force simp: lru_values_def dest: map_of_SomeD)
    then have old: "old \<in> set (lru_values c)" unfolding vals .
    then have present: "keyOf v \<in> keyOf ` set (lru_values c)" using key by simp
    have old_size: "0 \<le> sizeOf old" "sizeOf old \<le> total sizeOf (lru_values c)" using total_member [OF assms(4) old] assms(4) old by auto
    then have size: "FileSize (lru_actualSize c1 + FileSize (sizeOf v - sizeOf old)) = lru_actualSize c1 + (sizeOf v - sizeOf old)"
      using size_eq pos assms(2,5,6) by (simp add: FileSize_id)
    let ?c = "c1\<lparr>lru_ll := (e, v) # AList.delete e (lru_ll c1), lru_actualSize := lru_actualSize c1 + (sizeOf v - sizeOf old)\<rparr>"
    have vals': "lru_values ?c = v # filter (\<lambda>w. keyOf w \<noteq> keyOf v) (lru_values c)"
      using lru_inv_front(2) [OF inv e key] m vals by (simp add: lru_values_def)
    have inv': "lru_inv keyOf sizeOf ?c" using lru_inv_front(1) [OF inv e key] m by simp
    moreover have "total sizeOf (lru_values ?c) < 2 ^ 63"
      using inv' size_eq old_size(1) assms(6) by (simp add: lru_inv_def)
    moreover have "\<forall>w \<in> set (lru_values ?c). 0 \<le> sizeOf w" unfolding vals' using assms(4,5) by simp
    ultimately obtain c' where
      "LRU_evict onEmpty keyOf sizeOf ?c = Ok c'" "lru_inv keyOf sizeOf c'" "lru_MaxSize c' = lru_MaxSize c"
      "lru_values c' = trim sizeOf (lru_MaxSize c) (lru_values ?c)"
      using LRU_evict_correct [of keyOf sizeOf ?c onEmpty] m assms(2) max by auto
    then show ?thesis using Some m e present size unfolding vals'
      by (intro exI [of _ c']) (simp add: LRU_Put_def lru_put_def Let_def MoveToFront_Some SetValue_front flip: c1_def)
  qed
qed

lemma lru_put_values: "set (lru_put keyOf sizeOf m v vs) \<subseteq> insert v (set vs)"
proof -
  obtain n where "trim sizeOf m (v # filter (\<lambda>w. keyOf w \<noteq> keyOf v) vs) = take n (v # filter (\<lambda>w. keyOf w \<noteq> keyOf v) vs)"
    using trim_prefix by blast
  then show ?thesis using set_take_subset [of n "v # filter (\<lambda>w. keyOf w \<noteq> keyOf v) vs"] by (auto simp: lru_put_def)
qed

lemma lru_touch_values: "set (lru_touch keyOf k vs) \<subseteq> set vs"
  by (auto simp: lru_touch_def lru_find_def split: option.splits dest: map_of_SomeD)

lemma LRU_Get_correct:
  assumes "lru_inv keyOf sizeOf c"
  shows "\<exists>c'. LRU_Get c k = Ok (lru_find keyOf k (lru_values c), c') \<and> lru_inv keyOf sizeOf c' \<and>
    lru_MaxSize c' = lru_MaxSize c \<and> lru_actualSize c' = lru_actualSize c \<and>
    lru_values c' = lru_touch keyOf k (lru_values c)"
proof (cases "lru_cache c")
  case None
  with assms show ?thesis by (simp add: LRU_Get_def lru_find_def lru_touch_def lru_values_def lru_inv_def)
next
  case (Some m)
  have d: "distinct (map fst (lru_ll c))" "distinct (map keyOf (map snd (lru_ll c)))"
    using assms by (simp_all add: lru_inv_def lru_values_def)
  have look: "map_of m k = map_of (map (\<lambda>(e, v). (keyOf v, e)) (lru_ll c)) k"
    using assms Some by (simp add: lru_inv_def)
  show ?thesis
  proof (cases "map_of m k")
    case None
    then have "k \<notin> keyOf ` set (lru_values c)" unfolding look keys_None lru_values_def .
    then have "lru_find keyOf k (lru_values c) = None"
      by (simp add: lru_find_def map_of_eq_None_iff image_image)
    with None Some assms show ?thesis by (simp add: LRU_Get_def lru_touch_def)
  next
    case e: (Some e)
    then obtain v where v: "map_of (lru_ll c) e = Some v" and key: "keyOf v = k"
      using look elements_of_keys [OF d(2,1)] by metis
    then have "v \<in> set (lru_values c)" by (force simp: lru_values_def dest: map_of_SomeD)
    then have found: "lru_find keyOf k (lru_values c) = Some v"
      unfolding lru_find_def using d(2) key by (intro map_of_is_SomeI) (auto simp: comp_def lru_values_def)
    have same: "c\<lparr>lru_ll := (e, v) # AList.delete e (lru_ll c), lru_actualSize := lru_actualSize c + (sizeOf v - sizeOf v)\<rparr> =
        c\<lparr>lru_ll := (e, v) # AList.delete e (lru_ll c)\<rparr>"
      by simp
    have "lru_inv keyOf sizeOf (c\<lparr>lru_ll := (e, v) # AList.delete e (lru_ll c)\<rparr>)"
      using lru_inv_front(1) [OF assms v refl] Some unfolding same by simp
    moreover have "map snd (AList.delete e (lru_ll c)) = filter (\<lambda>w. keyOf w \<noteq> k) (lru_values c)"
      using lru_inv_front(2) [OF assms v refl] Some key by simp
    ultimately show ?thesis using Some e v found
      by (simp add: LRU_Get_def MoveToFront_Some lru_touch_def lru_values_def)
  qed
qed

subsection \<open>Sequences of operations\<close>

datatype ('k, 'a) lru_op = PutOp 'a | GetOp 'k | ClearOp

fun run_lru :: "('c \<Rightarrow> 'a \<Rightarrow> 'c result) \<Rightarrow> ('c \<Rightarrow> 'k \<Rightarrow> ('b option \<times> 'c) result) \<Rightarrow> ('c \<Rightarrow> 'c) \<Rightarrow>
    ('k, 'a) lru_op list \<Rightarrow> 'c \<Rightarrow> ('b option list \<times> 'c) result" where
  "run_lru put get clear [] c = Ok ([], c)"
| "run_lru put get clear (PutOp v # xs) c = rbind (put c v) (run_lru put get clear xs)"
| "run_lru put get clear (GetOp k # xs) c =
     rbind (get c k) (\<lambda>(a, c). rbind (run_lru put get clear xs c) (\<lambda>(as, c). Ok (a # as, c)))"
| "run_lru put get clear (ClearOp # xs) c = run_lru put get clear xs (clear c)"

fun spec_lru :: "('v \<Rightarrow> 'k) \<Rightarrow> ('v \<Rightarrow> int) \<Rightarrow> int \<Rightarrow> ('k, 'v) lru_op list \<Rightarrow> 'v list \<Rightarrow> 'v option list \<times> 'v list" where
  "spec_lru keyOf sizeOf m [] vs = ([], vs)"
| "spec_lru keyOf sizeOf m (PutOp v # xs) vs = spec_lru keyOf sizeOf m xs (lru_put keyOf sizeOf m v vs)"
| "spec_lru keyOf sizeOf m (GetOp k # xs) vs =
     (let (as, vs') = spec_lru keyOf sizeOf m xs (lru_touch keyOf k vs) in (lru_find keyOf k vs # as, vs'))"
| "spec_lru keyOf sizeOf m (ClearOp # xs) vs = spec_lru keyOf sizeOf m xs []"

lemma lru_put_fits:
  "0 \<le> m \<Longrightarrow> total sizeOf vs \<le> m \<Longrightarrow> total sizeOf (lru_put keyOf sizeOf m v vs) \<le> m"
  by (simp add: lru_put_def trim_fits)

lemma LRU_run_refines:
  assumes "lru_inv keyOf sizeOf c" and "0 \<le> lru_MaxSize c" and "lru_actualSize c \<le> lru_MaxSize c"
    and "\<forall>v \<in> set (lru_values c). 0 \<le> sizeOf v"
    and "\<forall>v. PutOp v \<in> set xs \<longrightarrow> 0 \<le> sizeOf v \<and> lru_MaxSize c + sizeOf v < 2 ^ 63"
  shows "\<exists>c'. run_lru (LRU_Put onEmpty keyOf sizeOf) LRU_Get LRU_Clear xs c =
      Ok (fst (spec_lru keyOf sizeOf (lru_MaxSize c) xs (lru_values c)), c') \<and>
    lru_inv keyOf sizeOf c' \<and> lru_actualSize c' \<le> lru_MaxSize c \<and>
    lru_values c' = snd (spec_lru keyOf sizeOf (lru_MaxSize c) xs (lru_values c))"
  using assms
proof (induction xs arbitrary: c)
  case (Cons x xs)
  show ?case
  proof (cases x)
    case (PutOp v)
    obtain c' where c': "LRU_Put onEmpty keyOf sizeOf c v = Ok c'" "lru_inv keyOf sizeOf c'" "lru_MaxSize c' = lru_MaxSize c"
      "lru_values c' = lru_put keyOf sizeOf (lru_MaxSize c) v (lru_values c)"
      using LRU_Put_correct [OF Cons.prems(1,2,3,4), of v onEmpty] Cons.prems(5) PutOp by auto
    moreover from this have "lru_actualSize c' \<le> lru_MaxSize c"
      using Cons.prems lru_put_fits [of "lru_MaxSize c" sizeOf "lru_values c" keyOf v] by (simp add: lru_inv_def)
    moreover have "\<forall>w \<in> set (lru_values c'). 0 \<le> sizeOf w"
      using c'(4) lru_put_values [of keyOf sizeOf "lru_MaxSize c" v "lru_values c"] Cons.prems(4,5) PutOp by auto
    ultimately show ?thesis using Cons.IH [of c'] Cons.prems PutOp by simp
  next
    case (GetOp k)
    obtain c' where c': "LRU_Get c k = Ok (lru_find keyOf k (lru_values c), c')" "lru_inv keyOf sizeOf c'"
      "lru_MaxSize c' = lru_MaxSize c" "lru_actualSize c' = lru_actualSize c" "lru_values c' = lru_touch keyOf k (lru_values c)"
      using LRU_Get_correct [OF Cons.prems(1)] by blast
    moreover have "\<forall>w \<in> set (lru_values c'). 0 \<le> sizeOf w"
      using c'(5) lru_touch_values [of keyOf k "lru_values c"] Cons.prems(4) by auto
    ultimately show ?thesis using Cons.IH [of c'] Cons.prems GetOp by (auto simp: case_prod_beta Let_def)
  next
    case ClearOp
    have "lru_inv keyOf sizeOf (LRU_Clear c)" by (simp add: LRU_Clear_def lru_inv_def lru_values_def)
    with Cons.IH [of "LRU_Clear c"] Cons.prems ClearOp show ?thesis by (simp add: LRU_Clear_def lru_values_def)
  qed
qed simp


lemma run_lru_map_put:
  "run_lru (\<lambda>c v. put c (f v)) get clear xs c = run_lru put get clear (map (map_lru_op (\<lambda>k. k) f) xs) c"
proof (induction xs arbitrary: c)
  case (Cons x xs)
  then have "run_lru (\<lambda>c v. put c (f v)) get clear xs = run_lru put get clear (map (map_lru_op (\<lambda>k. k) f) xs)"
    by (intro ext)
  then show ?case by (cases x) simp_all
qed simp

lemma run_lru_map_get:
  "run_lru put (\<lambda>c k. rbind (get c k) (\<lambda>(b, c'). Ok (map_option g b, c'))) clear xs c =
     rbind (run_lru put get clear xs c) (\<lambda>(as, c'). Ok (map (map_option g) as, c'))"
proof (induction xs arbitrary: c)
  case (Cons x xs)
  then have IH: "run_lru put (\<lambda>c k. rbind (get c k) (\<lambda>(b, c'). Ok (map_option g b, c'))) clear xs =
      (\<lambda>c. rbind (run_lru put get clear xs c) (\<lambda>(as, c'). Ok (map (map_option g) as, c')))"
    by (simp add: fun_eq_iff)
  show ?case
  proof (cases x)
    case (PutOp v)
    with IH show ?thesis by (cases "put c v") auto
  next
    case (GetOp k)
    show ?thesis
    proof (cases "get c k")
      case (Ok a)
      obtain b c' where "a = (b, c')" by fastforce
      with Ok GetOp IH show ?thesis by (cases "run_lru put get clear xs c'") auto
    qed (use GetOp in auto)
  qed (use IH in auto)
qed simp

lemma NewLRU_simps [simp]: "lru_MaxSize (NewLRU m) = m" "lru_actualSize (NewLRU m) = 0"
  by (simp_all add: NewLRU_def)

lemma lru_inv_New: "lru_inv keyOf sizeOf (NewLRU m)" and lru_values_New: "lru_values (NewLRU m) = []"
  by (simp_all add: NewLRU_def lru_inv_def lru_values_def)

lemma MemoryObject_Hash_size: "mo_sz (snd (MemoryObject_Hash sha ob)) = mo_sz ob"
  by (simp add: MemoryObject_Hash_def Let_def)

text \<open>
  C20. An object cache keeps the most recently used objects that fit. Over any sequence of operations
  whose objects have sizes that are not negative and, added to the maximum, within an \<^verbatim>\<open>int64\<close>, it
  never fails, answers what the list of its objects, last used first, answers, and the size it
  accounts for is the size of these objects and never exceeds the maximum.
\<close>

theorem ObjectLRU_refines:
  assumes "0 \<le> maxSize" and "\<forall>ob. PutOp ob \<in> set xs \<longrightarrow> 0 \<le> mo_sz ob \<and> maxSize + mo_sz ob < 2 ^ 63"
  shows "\<exists>c. run_lru (ObjectLRU_Put sha) ObjectLRU_Get LRU_Clear xs (NewLRU maxSize) =
      Ok (fst (spec_lru (objectKey sha) mo_sz maxSize (map (map_lru_op (\<lambda>k. k) (\<lambda>ob. snd (MemoryObject_Hash sha ob))) xs) []), c) \<and>
    lru_values c = snd (spec_lru (objectKey sha) mo_sz maxSize (map (map_lru_op (\<lambda>k. k) (\<lambda>ob. snd (MemoryObject_Hash sha ob))) xs) []) \<and>
    lru_actualSize c = total mo_sz (lru_values c) \<and> lru_actualSize c \<le> maxSize"
proof -
  let ?ys = "map (map_lru_op (\<lambda>k. k) (\<lambda>ob. snd (MemoryObject_Hash sha ob))) xs"
  have run: "run_lru (ObjectLRU_Put sha) ObjectLRU_Get LRU_Clear xs c =
      run_lru (LRU_Put (\<lambda>c. Ok (c\<lparr>lru_actualSize := 0\<rparr>)) (objectKey sha) mo_sz) LRU_Get LRU_Clear ?ys c" for c
    unfolding ObjectLRU_Put_def [abs_def] ObjectLRU_Get_def [abs_def] by (rule run_lru_map_put)
  have put: "map_lru_op (\<lambda>k. k) (\<lambda>ob. snd (MemoryObject_Hash sha ob)) x = PutOp v \<Longrightarrow>
      \<exists>ob. x = PutOp ob \<and> mo_sz v = mo_sz ob" for x :: "(ObjectID, MemoryObject) lru_op" and v
    by (cases x) (auto simp: MemoryObject_Hash_size)
  have "\<forall>v. PutOp v \<in> set ?ys \<longrightarrow> 0 \<le> mo_sz v \<and> maxSize + mo_sz v < 2 ^ 63"
    using assms(2) put by (metis (no_types, lifting) imageE set_map)
  then show ?thesis
    using LRU_run_refines [where c = "NewLRU maxSize" and keyOf = "objectKey sha" and sizeOf = mo_sz and xs = ?ys and
        onEmpty = "\<lambda>c. Ok (c\<lparr>lru_actualSize := 0\<rparr>)", OF lru_inv_New] assms(1)
    unfolding run lru_values_New by (auto simp: lru_inv_def)
qed

theorem ObjectLRU_refines_witness:
  "\<exists>c. run_lru (ObjectLRU_Put toy_sha) ObjectLRU_Get LRU_Clear [PutOp newMemoryObject] (NewLRU 10) = Ok ([], c) \<and>
     lru_actualSize c \<le> 10"
  using ObjectLRU_refines [of 10 "[PutOp newMemoryObject]" toy_sha] by (auto simp: newMemoryObject_def)

text \<open>
  Without these bounds the accounted size wraps around: a second object is kept although both
  together exceed the maximum.
\<close>

lemma ObjectLRU_overflow:
  assumes "objectKey sha a \<noteq> objectKey sha b" and "snd (MemoryObject_Hash sha a) = a" and "snd (MemoryObject_Hash sha b) = b"
    and "mo_sz a = 2 ^ 63 - 1" and "mo_sz b = 1"
  shows "\<exists>c. run_lru (ObjectLRU_Put sha) ObjectLRU_Get LRU_Clear [PutOp a, PutOp b] (NewLRU (2 ^ 63 - 1)) = Ok ([], c) \<and>
    lru_values c = [b, a] \<and> lru_actualSize c = - (2 ^ 63)"
  using assms by (simp add: ObjectLRU_Put_def LRU_Put_def NewLRU_def Let_def LRU_evict.simps FileSize_def lru_values_def)

theorem BufferLRU_refines:
  assumes "0 \<le> maxSize" and "\<forall>b. PutOp b \<in> set xs \<longrightarrow> maxSize + int (length (snd b)) < 2 ^ 63"
  shows "\<exists>c. run_lru (\<lambda>c b. BufferLRU_Put c (fst b) (snd b)) BufferLRU_Get LRU_Clear xs (NewLRU maxSize) =
      Ok (map (map_option snd) (fst (spec_lru fst (\<lambda>b. int (length (snd b))) maxSize xs [])), c) \<and>
    lru_values c = snd (spec_lru fst (\<lambda>b. int (length (snd b))) maxSize xs []) \<and> lru_actualSize c \<le> maxSize"
proof -
  have put: "(\<lambda>c b. BufferLRU_Put c (fst b) (snd b)) = LRU_Put (\<lambda>c. Panic) fst (\<lambda>b. int (length (snd b)))"
    by (simp add: BufferLRU_Put_def fun_eq_iff)
  have run: "run_lru (\<lambda>c b. BufferLRU_Put c (fst b) (snd b)) BufferLRU_Get LRU_Clear xs c =
      rbind (run_lru (LRU_Put (\<lambda>c. Panic) fst (\<lambda>b. int (length (snd b)))) LRU_Get LRU_Clear xs c)
        (\<lambda>(as, c'). Ok (map (map_option snd) as, c'))" for c
    unfolding put BufferLRU_Get_def [abs_def] by (rule run_lru_map_get)
  show ?thesis
    using LRU_run_refines [where c = "NewLRU maxSize" and keyOf = fst and sizeOf = "\<lambda>b. int (length (snd b))" and
        onEmpty = "\<lambda>c. Panic" and xs = xs, OF lru_inv_New] assms
    unfolding run lru_values_New by auto
qed

text \<open>What was put last and fits is found.\<close>

lemma lru_find_put:
  assumes "sizeOf v \<le> m"
  shows "lru_find keyOf (keyOf v) (lru_put keyOf sizeOf m v vs) = Some v"
  using trim_keeps_head [of sizeOf v m "filter (\<lambda>w. keyOf w \<noteq> keyOf v) vs", OF assms] assms
  by (auto simp: lru_put_def lru_find_def)

end
