(* ===== verification/Capability.thy ===== *)
theory Capability
  imports GoStrings "HOL-Library.AList"
begin

text \<open>
  Capability lists: \<^verbatim>\<open>plumbing/protocol/packp/capability\<close>. The Go map of a list goes from names to
  values, the slice \<open>cl_sort\<close> holds the names in insertion order. An operation returns the list it
  leaves, also when it fails.
\<close>

type_synonym Capability = string

abbreviation ErrArgumentsRequired :: error where "ErrArgumentsRequired \<equiv> Sentinel ''ErrArgumentsRequired''"
abbreviation ErrArguments :: error where "ErrArguments \<equiv> Sentinel ''ErrArguments''"
abbreviation ErrEmptyArgument :: error where "ErrEmptyArgument \<equiv> Sentinel ''ErrEmptyArgument''"
abbreviation ErrMultipleArguments :: error where "ErrMultipleArguments \<equiv> Sentinel ''ErrMultipleArguments''"

definition known :: "Capability list" where
  "known =
     [''multi_ack'', ''multi_ack_detailed'', ''no-done'', ''thin-pack'', ''side-band'', ''side-band-64k'',
      ''ofs-delta'', ''agent'', ''shallow'', ''deepen-since'', ''deepen-not'', ''deepen-relative'', ''no-progress'',
      ''include-tag'', ''report-status'', ''delete-refs'', ''quiet'', ''atomic'', ''push-options'',
      ''allow-tip-sha1-in-want'', ''allow-reachable-sha1-in-want'', ''push-cert'', ''symref'', ''object-format'', ''filter'']"

definition requiresArgument :: "Capability list" where
  "requiresArgument = [''agent'', ''push-cert'', ''symref'', ''object-format'']"

definition multipleArgument :: "Capability list" where
  "multipleArgument = [''symref'']"

record List =
  cl_m :: "(Capability \<times> string list) list"
  cl_sort :: "string list"

definition NewList :: List where
  "NewList = \<lparr>cl_m = [], cl_sort = []\<rparr>"

definition List_IsEmpty :: "List \<Rightarrow> bool" where
  "List_IsEmpty l \<longleftrightarrow> length (cl_sort l) = 0"

definition Supports :: "List \<Rightarrow> Capability \<Rightarrow> bool" where
  "Supports l c \<longleftrightarrow> map_of (cl_m l) c \<noteq> None"

definition List_Get :: "List \<Rightarrow> Capability \<Rightarrow> string list" where
  "List_Get l c = (case map_of (cl_m l) c of None \<Rightarrow> [] | Some vs \<Rightarrow> vs)"

definition validateNoEmptyArgs :: "string list \<Rightarrow> error option" where
  "validateNoEmptyArgs values = (if list_ex (\<lambda>v. v = []) values then Some ErrEmptyArgument else None)"

definition List_validate :: "Capability \<Rightarrow> string list \<Rightarrow> error option" where
  "List_validate c values =
     (if \<not> List.member known c then validateNoEmptyArgs values
      else if List.member requiresArgument c \<and> length values = 0 then Some ErrArgumentsRequired
      else if \<not> List.member requiresArgument c \<and> length values \<noteq> 0 then Some ErrArguments
      else if \<not> List.member multipleArgument c \<and> length values > 1 then Some ErrMultipleArguments
      else validateNoEmptyArgs values)"

definition List_Add :: "List \<Rightarrow> Capability \<Rightarrow> string list \<Rightarrow> List \<times> unit result" where
  "List_Add l c values =
     (case List_validate c values of
        Some e \<Rightarrow> (l, Error e)
      | None \<Rightarrow>
          let l = (if \<not> Supports l c
                   then l\<lparr>cl_m := AList.update c [] (cl_m l), cl_sort := cl_sort l @ [c]\<rparr> else l)
          in if length values = 0 then (l, Ok ())
             else if List.member known c \<and> \<not> List.member multipleArgument c \<and> length (List_Get l c) > 0
             then (l, Error ErrMultipleArguments)
             else (l\<lparr>cl_m := AList.update c (List_Get l c @ values) (cl_m l)\<rparr>, Ok ()))"

definition List_Set :: "List \<Rightarrow> Capability \<Rightarrow> string list \<Rightarrow> List \<times> unit result" where
  "List_Set l c values =
     (let l = (if map_of (cl_m l) c \<noteq> None then l\<lparr>cl_m := AList.update c [] (cl_m l)\<rparr> else l)
      in List_Add l c values)"

definition List_Delete :: "List \<Rightarrow> Capability \<Rightarrow> List" where
  "List_Delete l c =
     (if \<not> Supports l c then l
      else l\<lparr>cl_m := AList.delete c (cl_m l), cl_sort := remove1 c (cl_sort l)\<rparr>)"

definition List_All :: "List \<Rightarrow> Capability list" where
  "List_All l = cl_sort l"

text \<open>A name in the order without an entry in the map would be a nil pointer.\<close>

fun List_String_loop :: "List \<Rightarrow> string list \<Rightarrow> string list result" where
  "List_String_loop l [] = Ok []"
| "List_String_loop l (key # keys) =
     (case map_of (cl_m l) key of
        None \<Rightarrow> Panic
      | Some values \<Rightarrow>
          rbind (List_String_loop l keys) (\<lambda>parts.
            Ok ((if length values = 0 then [key] else map (\<lambda>v. key @ ''='' @ v) values) @ parts)))"

definition List_String :: "List \<Rightarrow> string result" where
  "List_String l = rbind (List_String_loop l (cl_sort l)) (\<lambda>parts. Ok (JoinChar parts (CHR '' '')))"

fun List_Decode_loop :: "List \<Rightarrow> bytes list \<Rightarrow> List \<times> unit result" where
  "List_Decode_loop l [] = (l, Ok ())"
| "List_Decode_loop l (data # datas) =
     (let (name, val) = SplitN2 data 61
      in case List_Add l (unstr name) (case val of None \<Rightarrow> [] | Some v \<Rightarrow> [unstr v]) of
           (l', Ok u) \<Rightarrow> List_Decode_loop l' datas
         | (l', r) \<Rightarrow> (l', r))"

definition List_Decode :: "List \<Rightarrow> bytes \<Rightarrow> List \<times> unit result" where
  "List_Decode l raw0 =
     (let raw = TrimSpace raw0
      in if length raw = 0 then (l, Ok ()) else List_Decode_loop l (SplitChar raw 32))"

section \<open>The invariant of a list\<close>

definition args_ok :: "Capability \<Rightarrow> string list \<Rightarrow> bool" where
  "args_ok c values \<longleftrightarrow>
     (List.member known c \<longrightarrow>
        (List.member requiresArgument c \<longleftrightarrow> values \<noteq> []) \<and>
        (\<not> List.member multipleArgument c \<longrightarrow> length values \<le> 1)) \<and>
     [] \<notin> set values"

definition caps_inv :: "List \<Rightarrow> bool" where
  "caps_inv l \<longleftrightarrow>
     distinct (cl_sort l) \<and> set (cl_sort l) = dom (map_of (cl_m l)) \<and>
     (\<forall>c values. map_of (cl_m l) c = Some values \<longrightarrow> args_ok c values)"

lemma caps_inv_New: "caps_inv NewList"
  by (simp add: caps_inv_def NewList_def)

lemma List_validate_None:
  "List_validate c values = None \<longleftrightarrow> args_ok c values"
  by (auto simp: List_validate_def validateNoEmptyArgs_def args_ok_def list_ex_iff not_less)

lemma multiple_requires: "List.member multipleArgument c \<Longrightarrow> List.member requiresArgument c"
  by (simp add: multipleArgument_def requiresArgument_def)

definition with_cap :: "List \<Rightarrow> Capability \<Rightarrow> string list \<Rightarrow> List" where
  "with_cap l c vs =
     l\<lparr>cl_m := AList.update c vs (cl_m l), cl_sort := if Supports l c then cl_sort l else cl_sort l @ [c]\<rparr>"

lemma List_Add_eq:
  assumes "args_ok c values"
  shows "List_Add l c values =
    (if values = [] then (if Supports l c then l else with_cap l c [], Ok ())
     else if List.member known c \<and> \<not> List.member multipleArgument c \<and> List_Get l c \<noteq> []
     then (l, Error ErrMultipleArguments)
     else (with_cap l c (List_Get l c @ values), Ok ()))"
proof (cases "Supports l c")
  case True
  with assms show ?thesis by (simp add: List_Add_def List_validate_None [THEN iffD2] with_cap_def)
next
  case False
  then have "List_Get l c = []" by (simp add: Supports_def List_Get_def)
  with False assms show ?thesis
    by (simp add: List_Add_def List_validate_None [THEN iffD2] with_cap_def Let_def List_Get_def update_conv')
qed

lemma caps_inv_with_cap:
  assumes "caps_inv l" and "args_ok c vs"
  shows "caps_inv (with_cap l c vs)"
proof -
  have "set (cl_sort (with_cap l c vs)) = dom (map_of (cl_m (with_cap l c vs)))"
    using assms(1) by (auto simp: caps_inv_def with_cap_def Supports_def update_conv')
  moreover have "distinct (cl_sort (with_cap l c vs))"
    using assms(1) by (auto simp: caps_inv_def with_cap_def Supports_def)
  ultimately show ?thesis using assms by (auto simp: caps_inv_def with_cap_def update_conv')
qed

lemma args_ok_append:
  assumes "args_ok c vs" and "args_ok c ws" and "\<not> (List.member known c \<and> \<not> List.member multipleArgument c \<and> vs \<noteq> [])"
  shows "args_ok c (vs @ ws)"
  using assms by (auto simp: args_ok_def)

lemma caps_inv_Get: "caps_inv l \<Longrightarrow> Supports l c \<Longrightarrow> args_ok c (List_Get l c)"
  by (auto simp: caps_inv_def Supports_def List_Get_def)

text \<open>
  Adding a capability keeps the invariant of a list, whether it succeeds or not: the order holds
  every name of the map once, and every known capability has the arguments it allows. It fails
  exactly when the arguments are not allowed or would be too many.
\<close>

theorem List_Add_invariant:
  assumes "caps_inv l" and "List_Add l c values = (l', r)"
  shows "caps_inv l' \<and>
    (r = Ok () \<longleftrightarrow> args_ok c values \<and> (values \<noteq> [] \<longrightarrow> args_ok c (List_Get l c @ values))) \<and>
    (r = Ok () \<longrightarrow> Supports l' c \<and> List_Get l' c = List_Get l c @ values) \<and>
    (r \<noteq> Ok () \<longrightarrow> l' = l) \<and> (\<forall>c'. c' \<noteq> c \<longrightarrow> map_of (cl_m l') c' = map_of (cl_m l) c')"
proof (cases "args_ok c values")
  case False
  then obtain e where "List_validate c values = Some e" using List_validate_None [of c "values"] by auto
  with False assms show ?thesis by (auto simp: List_Add_def)
next
  case ok: True
  note eq = assms(2) [unfolded List_Add_eq [OF ok]]
  have get: "Supports (with_cap l c vs) c" "List_Get (with_cap l c vs) c = vs"
    "\<forall>c'. c' \<noteq> c \<longrightarrow> map_of (cl_m (with_cap l c vs)) c' = map_of (cl_m l) c'" for vs
    by (simp_all add: with_cap_def Supports_def List_Get_def update_conv')
  have empty: "\<not> Supports l c \<Longrightarrow> List_Get l c = []" by (simp add: Supports_def List_Get_def)
  show ?thesis
  proof (cases "values = []")
    case True
    then show ?thesis
      using eq assms(1) get [of "[]"] empty caps_inv_with_cap [OF assms(1), of c "[]"] ok by (auto split: if_splits)
  next
    case False
    show ?thesis
    proof (cases "List.member known c \<and> \<not> List.member multipleArgument c \<and> List_Get l c \<noteq> []")
      case True
      with False have "\<not> args_ok c (List_Get l c @ values)" by (cases "List_Get l c"; cases "values") (auto simp: args_ok_def)
      with eq False True assms(1) show ?thesis by auto
    next
      case single: False
      have "args_ok c (List_Get l c @ values)"
      proof (cases "Supports l c")
        case True
        from args_ok_append [OF caps_inv_Get [OF assms(1) True] ok single] show ?thesis .
      qed (simp add: empty ok)
      with eq False single ok caps_inv_with_cap [OF assms(1)] get show ?thesis by auto
    qed
  qed
qed


theorem List_Add_invariant_witness:
  "\<exists>l' r. List_Add NewList ''agent'' [''git''] = (l', r) \<and> caps_inv l' \<and> Supports l' ''agent''"
proof -
  obtain l' r where add: "List_Add NewList ''agent'' [''git''] = (l', r)" by fastforce
  have "args_ok ''agent'' [''git'']" by (simp add: args_ok_def known_def requiresArgument_def)
  with List_Add_invariant [OF caps_inv_New add] add show ?thesis by (auto simp: List_Get_def NewList_def)
qed

text \<open>
  Setting a capability with arguments that are refused loses the arguments it had: the list is
  left with a capability that lacks the argument it requires, and its text is refused by decoding.
\<close>

theorem List_Set_error_loses_arguments:
  assumes "caps_inv l" and "map_of (cl_m l) ''agent'' = Some vs"
  shows "\<exists>l'. List_Set l ''agent'' [[]] = (l', Error ErrEmptyArgument) \<and> List_Get l' ''agent'' = [] \<and> \<not> caps_inv l'"
proof -
  let ?l = "l\<lparr>cl_m := AList.update ''agent'' [] (cl_m l)\<rparr>"
  have "List_Set l ''agent'' [[]] = (?l, Error ErrEmptyArgument)"
    using assms(2) by (simp add: List_Set_def List_Add_def List_validate_def validateNoEmptyArgs_def known_def requiresArgument_def)
  moreover have "map_of (cl_m ?l) ''agent'' = Some []" by (simp add: update_conv')
  moreover have "\<not> args_ok ''agent'' []" by (simp add: args_ok_def known_def requiresArgument_def)
  ultimately show ?thesis unfolding caps_inv_def List_Get_def by force
qed

theorem List_Set_error_loses_arguments_witness:
  "\<exists>l'. List_Set \<lparr>cl_m = [(''agent'', [''git''])], cl_sort = [''agent'']\<rparr> ''agent'' [[]] = (l', Error ErrEmptyArgument) \<and>
     List_Get l' ''agent'' = [] \<and> \<not> caps_inv l'"
  by (rule List_Set_error_loses_arguments)
    (simp_all add: caps_inv_def args_ok_def known_def requiresArgument_def)

section \<open>Decoding what was printed\<close>

text \<open>A token: visible ASCII characters, at least one.\<close>

definition token :: "string \<Rightarrow> bool" where
  "token s \<longleftrightarrow> s \<noteq> [] \<and> (\<forall>c \<in> set s. 33 \<le> (of_char c :: nat) \<and> (of_char c :: nat) \<le> 126)"

definition caps_tokens :: "List \<Rightarrow> bool" where
  "caps_tokens l \<longleftrightarrow>
     (\<forall>c \<in> set (cl_sort l). token c \<and> CHR ''='' \<notin> set c \<and> (\<forall>v \<in> set (List_Get l c). token v))"

definition cap_parts :: "Capability \<Rightarrow> string list \<Rightarrow> string list" where
  "cap_parts c vs = (if vs = [] then [c] else map (\<lambda>v. c @ ''='' @ v) vs)"

lemma List_String_parts:
  "set keys \<subseteq> dom (map_of (cl_m l)) \<Longrightarrow>
    List_String_loop l keys = Ok (concat (map (\<lambda>c. cap_parts c (List_Get l c)) keys))"
  by (induction keys) (auto simp: cap_parts_def List_Get_def)

lemma with_cap_again: "with_cap (with_cap l c vs) c ws = with_cap l c ws"
  by (simp add: with_cap_def Supports_def update_conv')

lemma with_cap_simps [simp]:
  "Supports (with_cap l c vs) d \<longleftrightarrow> d = c \<or> Supports l d"
  "List_Get (with_cap l c vs) d = (if d = c then vs else List_Get l d)"
  by (auto simp: with_cap_def Supports_def List_Get_def update_conv')

lemma equals_byte: "CHR ''='' \<notin> set c \<Longrightarrow> (61 :: byte) \<notin> set (str c)"
  using of_char_in_str [of "CHR ''=''" c] by simp

lemma decode_pair:
  assumes "CHR ''='' \<notin> set c"
  shows "List_Decode_loop l (str (c @ ''='' @ v) # rest) =
    (case List_Add l c [v] of (l', Ok u) \<Rightarrow> List_Decode_loop l' rest | (l', r) \<Rightarrow> (l', r))"
  using SplitN2_pair [OF equals_byte [OF assms], of "str v"] by simp

lemma decode_name:
  assumes "CHR ''='' \<notin> set c"
  shows "List_Decode_loop l (str c # rest) =
    (case List_Add l c [] of (l', Ok u) \<Rightarrow> List_Decode_loop l' rest | (l', r) \<Rightarrow> (l', r))"
  using SplitN2_name [OF equals_byte [OF assms]] by simp

lemma decode_values:
  assumes "CHR ''='' \<notin> set c"
  shows "args_ok c (vs @ ws) \<Longrightarrow> ws \<noteq> [] \<Longrightarrow> (vs \<noteq> [] \<longrightarrow> Supports l c) \<Longrightarrow> List_Get l c = vs \<Longrightarrow>
    List_Decode_loop l (map (\<lambda>v. str (c @ ''='' @ v)) ws @ rest) = List_Decode_loop (with_cap l c (vs @ ws)) rest"
proof (induction ws arbitrary: vs l)
  case (Cons v ws)
  have ok: "args_ok c [v]" using Cons.prems(1) by (auto simp: args_ok_def)
  have single: "\<not> (List.member known c \<and> \<not> List.member multipleArgument c \<and> List_Get l c \<noteq> [])"
    using Cons.prems(1,4) by (cases vs) (auto simp: args_ok_def)
  have add: "List_Add l c [v] = (with_cap l c (vs @ [v]), Ok ())"
    using List_Add_eq [OF ok, of l] single Cons.prems(4) by auto
  show ?case
  proof (cases "ws = []")
    case True
    then show ?thesis using decode_pair [OF assms] add by simp
  next
    case False
    with Cons.IH [of "vs @ [v]" "with_cap l c (vs @ [v])"] Cons.prems show ?thesis
      using decode_pair [OF assms] add by (simp add: with_cap_again)
  qed
qed simp

lemma decode_cap:
  assumes "CHR ''='' \<notin> set c" and "args_ok c vs" and "\<not> Supports l c"
  shows "List_Decode_loop l (map str (cap_parts c vs) @ rest) = List_Decode_loop (with_cap l c vs) rest"
proof (cases "vs = []")
  case True
  with assms show ?thesis using decode_name [OF assms(1)] List_Add_eq [of c "[]" l] by (simp add: cap_parts_def)
next
  case False
  have "List_Get l c = []" using assms(3) by (simp add: Supports_def List_Get_def)
  with False assms decode_values [OF assms(1), of "[]" vs l rest] show ?thesis
    by (simp add: cap_parts_def comp_def)
qed

lemma decode_caps:
  "distinct keys \<Longrightarrow> \<forall>c \<in> set keys. CHR ''='' \<notin> set c \<and> args_ok c (g c) \<and> \<not> Supports l c \<Longrightarrow>
    \<exists>l'. List_Decode_loop l (map str (concat (map (\<lambda>c. cap_parts c (g c)) keys))) = (l', Ok ()) \<and>
      cl_sort l' = cl_sort l @ keys \<and>
      (\<forall>c. Supports l' c \<longleftrightarrow> Supports l c \<or> c \<in> set keys) \<and> (\<forall>c. List_Get l' c = (if c \<in> set keys then g c else List_Get l c))"
proof (induction keys arbitrary: l)
  case (Cons c keys)
  have step: "List_Decode_loop l (map str (concat (map (\<lambda>c. cap_parts c (g c)) (c # keys)))) =
      List_Decode_loop (with_cap l c (g c)) (map str (concat (map (\<lambda>c. cap_parts c (g c)) keys)))"
    using decode_cap [of c "g c" l] Cons.prems(2) by simp
  have sort: "cl_sort (with_cap l c (g c)) = cl_sort l @ [c]" using Cons.prems(2) by (simp add: with_cap_def)
  show ?case unfolding step using Cons.IH [of "with_cap l c (g c)"] Cons.prems sort by fastforce
qed simp

lemma token_bytes:
  assumes "token s"
  shows "str s \<noteq> []" and "\<forall>b \<in> set (str s). 33 \<le> unat b \<and> unat b \<le> 126"
  using assms by (cases s; auto simp: token_def set_str)+

lemma cap_parts_tokens:
  assumes "token c" and "\<forall>v \<in> set vs. token v"
  shows "\<forall>p \<in> set (cap_parts c vs). token p" and "cap_parts c vs \<noteq> []"
  using assms by (auto simp: cap_parts_def token_def)

lemma str_JoinChar: "str (JoinChar ps (CHR '' '')) = JoinChar (map str ps) 32"
  by (induction ps rule: induct_list012) simp_all

lemma JoinChar_ends:
  assumes "ps \<noteq> []" and "\<forall>p \<in> set ps. p \<noteq> []"
  shows "JoinChar ps x \<noteq> []" and "hd (JoinChar ps x) = hd (hd ps)" and "last (JoinChar ps x) = last (last ps)"
proof -
  have ne: "JoinChar ps x \<noteq> []" if "ps \<noteq> []" "\<forall>p \<in> set ps. p \<noteq> []" for ps
    using that by (induction ps rule: induct_list012) auto
  with assms show "JoinChar ps x \<noteq> []" by blast
  show "hd (JoinChar ps x) = hd (hd ps)" using assms by (induction ps rule: induct_list012) auto
  show "last (JoinChar ps x) = last (last ps)" using assms
  proof (induction ps rule: induct_list012)
    case (3 p q ps)
    then show ?case using ne [of "q # ps"] by simp
  qed auto
qed

lemma decode_text:
  assumes ne: "parts \<noteq> []" and toks: "\<forall>p \<in> set parts. token p"
  shows "List_Decode l (str (JoinChar parts (CHR '' ''))) = List_Decode_loop l (map str parts)"
proof -
  define bs where "bs = map str parts"
  have bytes: "\<forall>p \<in> set bs. p \<noteq> [] \<and> (\<forall>b \<in> set p. 33 \<le> unat b \<and> unat b \<le> 126)"
    using toks token_bytes by (auto simp: bs_def)
  have "bs \<noteq> []" using ne by (simp add: bs_def)
  note ends = JoinChar_ends [of bs 32, OF this]
  have "hd bs \<in> set bs" "last bs \<in> set bs" using \<open>bs \<noteq> []\<close> by simp_all
  with bytes have "hd bs \<noteq> []" "last bs \<noteq> []" and vis: "\<forall>b \<in> set (hd bs). 33 \<le> unat b \<and> unat b \<le> 126"
    "\<forall>b \<in> set (last bs). 33 \<le> unat b \<and> unat b \<le> 126"
    by blast+
  then have "hd (hd bs) \<in> set (hd bs)" "last (last bs) \<in> set (last bs)" by simp_all
  with vis have "33 \<le> unat (hd (hd bs)) \<and> unat (hd (hd bs)) \<le> 126" "33 \<le> unat (last (last bs)) \<and> unat (last (last bs)) \<le> 126"
    by blast+
  then have trim: "TrimSpace (JoinChar bs 32) = JoinChar bs 32"
    using ends bytes by (intro TrimSpace_visible) auto
  have "\<forall>p \<in> set bs. (32 :: byte) \<notin> set p" using bytes by fastforce
  then have "SplitChar (JoinChar bs 32) 32 = bs" using \<open>bs \<noteq> []\<close> by (intro SplitChar_JoinChar)
  with trim ends(1) bytes show ?thesis by (simp add: List_Decode_def str_JoinChar flip: bs_def)
qed

lemma List_text:
  assumes inv: "caps_inv l" and tok: "caps_tokens l"
  shows "\<exists>s l'. List_String l = Ok s \<and> List_Decode NewList (str s) = (l', Ok ()) \<and>
    cl_sort l' = cl_sort l \<and> (\<forall>c. Supports l' c \<longleftrightarrow> Supports l c) \<and> (\<forall>c. List_Get l' c = List_Get l c)"
proof -
  let ?parts = "concat (map (\<lambda>c. cap_parts c (List_Get l c)) (cl_sort l))"
  have sort: "distinct (cl_sort l)" "\<And>c. c \<in> set (cl_sort l) \<longleftrightarrow> Supports l c"
    using inv by (auto simp: caps_inv_def Supports_def)
  have str: "List_String l = Ok (JoinChar ?parts (CHR '' ''))"
    using List_String_parts [of "cl_sort l" l] inv by (simp add: List_String_def caps_inv_def)
  have ok: "\<forall>c \<in> set (cl_sort l). CHR ''='' \<notin> set c \<and> args_ok c (List_Get l c) \<and> \<not> Supports NewList c"
    using tok sort caps_inv_Get [OF inv] by (auto simp: caps_tokens_def NewList_def Supports_def)
  obtain l' where l': "List_Decode_loop NewList (map str ?parts) = (l', Ok ())" "cl_sort l' = cl_sort l"
    "\<And>c. Supports l' c \<longleftrightarrow> c \<in> set (cl_sort l)" "\<And>c. List_Get l' c = (if c \<in> set (cl_sort l) then List_Get l c else [])"
    using decode_caps [OF sort(1) ok] by (auto simp: NewList_def Supports_def List_Get_def)
  have "List_Decode NewList (str (JoinChar ?parts (CHR '' ''))) = (l', Ok ())"
  proof (cases "cl_sort l = []")
    case True
    with l'(1) show ?thesis by (simp add: List_Decode_def TrimSpace_def TrimLeftSpace_Nil)
  next
    case False
    have tok': "token c \<and> (\<forall>v \<in> set (List_Get l c). token v)" if "c \<in> set (cl_sort l)" for c
      using tok that by (simp add: caps_tokens_def)
    have toks: "token p" if p: "p \<in> set ?parts" for p
    proof -
      from p obtain c where "c \<in> set (cl_sort l)" "p \<in> set (cap_parts c (List_Get l c))" by auto
      with tok' cap_parts_tokens(1) [of c "List_Get l c"] show ?thesis by blast
    qed
    obtain c cs where "cl_sort l = c # cs" using False by (cases "cl_sort l") auto
    with tok' [of c] cap_parts_tokens(2) [of c "List_Get l c"] have ne: "?parts \<noteq> []" by simp
    have "\<forall>p \<in> set ?parts. token p" using toks by blast
    from decode_text [OF ne this, of NewList] l'(1) show ?thesis by (rule trans)
  qed
  with str l' sort(2) show ?thesis by (auto simp: List_Get_def Supports_def)
qed

text \<open>
  C21. The text of a capability list is decoded to the same list: the same capabilities in the same
  order with the same arguments, when the list keeps the invariant of the operations and names and
  arguments are not empty and of visible characters (an agent with a space in it is not) and names
  have no equals sign.
\<close>

theorem List_String_Decode:
  assumes inv: "caps_inv l" and tok: "caps_tokens l"
  shows "\<exists>s l'. List_String l = Ok s \<and> List_Decode NewList (str s) = (l', Ok ()) \<and>
    cl_sort l' = cl_sort l \<and> (\<forall>c. Supports l' c \<longleftrightarrow> Supports l c) \<and> (\<forall>c. List_Get l' c = List_Get l c)"
  using inv tok by (rule List_text)

theorem List_String_Decode_witness:
  "\<exists>s l'. List_String \<lparr>cl_m = [(''agent'', [''git'']), (''ofs-delta'', [])], cl_sort = [''agent'', ''ofs-delta'']\<rparr> = Ok s \<and>
     List_Decode NewList (str s) = (l', Ok ()) \<and> cl_sort l' = [''agent'', ''ofs-delta''] \<and> List_Get l' ''agent'' = [''git'']"
proof -
  let ?l = "\<lparr>cl_m = [(''agent'', [''git'']), (''ofs-delta'', [])], cl_sort = [''agent'', ''ofs-delta'']\<rparr>"
  have "caps_inv ?l" by (auto simp: caps_inv_def args_ok_def known_def requiresArgument_def)
  moreover have "caps_tokens ?l" by (simp add: caps_tokens_def token_def List_Get_def)
  ultimately show ?thesis using List_String_Decode [of ?l] by (auto simp: List_Get_def [of ?l])
qed

end
