(* ===== verification/Packp.thy ===== *)
theory Packp
  imports Pktline Capability ObjectId
begin

text \<open>
  What the protocol messages of \<^verbatim>\<open>plumbing/protocol/packp\<close> share: \<^verbatim>\<open>common.go\<close>, reading packets one
  after the other, writing formatted packets and sorting hashes.
\<close>

section \<open>Reading\<close>

text \<open>
  A connection is what is left to read together with the buffer of the pool that \<^verbatim>\<open>ReadLine\<close> reads into.
  A payload that is nil in the sources is only ever used as an empty slice, and is one here.
\<close>

type_synonym conn = "reader \<times> bytes"

definition next_packet :: "conn \<Rightarrow> (int \<times> bytes \<times> error option \<times> conn) result" where
  "next_packet c =
     rbind (ReadLine (fst c) (snd c)) (\<lambda>(l, p, err, r', buf').
       Ok (l, case p of None \<Rightarrow> [] | Some b \<Rightarrow> b, err, (r', buf')))"

definition conn_ok :: "conn \<Rightarrow> bool" where
  "conn_ok c \<longleftrightarrow> length (snd c) = MaxSize"

lemma next_packet_plain:
  assumes "plain_payload p" and "conn_ok c" and "fst c = packet p @ rest"
  shows "\<exists>buf. next_packet c = Ok (int (length p + 4), p, None, (rest, buf)) \<and> conn_ok (rest, buf)"
proof -
  have "p = [] \<or> \<not> HasPrefix (p @ drop (length p + 4) (snd c)) errPrefix"
    using assms(1) not_error_prefix [of p] by (auto simp: plain_payload_def)
  then show ?thesis
    using assms ReadLine_packet [of p "snd c" rest] length_filled [of p "snd c"]
    by (auto simp: next_packet_def plain_payload_def conn_ok_def)
qed

lemma next_packet_flush:
  assumes "conn_ok c" and "fst c = flushPkt @ rest"
  shows "\<exists>buf. next_packet c = Ok (0, [], None, (rest, buf)) \<and> conn_ok (rest, buf)"
  using assms ReadLine_flush [of "snd c" rest] by (simp add: next_packet_def conn_ok_def flushPkt_def)

lemma next_packet_eof:
  assumes "conn_ok c" and "fst c = []"
  shows "\<exists>c'. next_packet c = Ok (Err, [], Some EOF, c')"
  using assms by (simp add: next_packet_def ReadLine_def pktline_Read_def conn_ok_def readFull_def)

lemma next_packet_shrinks [shrinks]:
  assumes "next_packet c = Ok (l, p, None, c')"
  shows "length (fst c') < length (fst c)"
proof -
  obtain buf' where "pktline_Read (fst c) (snd c) = Ok (l, None, fst c', buf')"
    using assms by (auto simp: next_packet_def ReadLine_def split: if_splits)
  then show ?thesis
    by (auto simp: pktline_Read_def Let_def readFull_Ok_iff split: result.splits if_splits prod.splits)
qed

section \<open>Writing\<close>

text \<open>A writer holds what was written so far, also when writing fails later.\<close>

type_synonym written = "bytes \<times> unit result"

definition wbind :: "written \<Rightarrow> (bytes \<Rightarrow> written) \<Rightarrow> written" where
  "wbind w k = (case w of (out, Ok u) \<Rightarrow> k out | (out, r) \<Rightarrow> (out, r))"

definition Writef :: "bytes \<Rightarrow> bytes \<Rightarrow> written" where
  "Writef out p =
     (case pktline_Write (Some out) p of
        Ok (n, Some out') \<Rightarrow> (out', Ok ())
      | Ok (n, None) \<Rightarrow> (out, Ok ())
      | Error e \<Rightarrow> (out, Error e)
      | Panic \<Rightarrow> (out, Panic))"

lemma wbind_Ok [simp]: "wbind (out, Ok u) k = k out"
  by (simp add: wbind_def)

lemma Writef_packet: "length p \<le> MaxPayloadSize \<Longrightarrow> Writef out p = (out @ packet p, Ok ())"
  using pktline_Write_packet [of p out] by (simp add: Writef_def)

section \<open>Hashes and numbers\<close>

definition hashSize :: nat where "hashSize = 40"

definition eol :: bytes where "eol = str [char_of (10 :: nat)]"
definition sp :: bytes where "sp = str '' ''"
definition want :: bytes where "want = str ''want ''"
definition shallow :: bytes where "shallow = str ''shallow ''"
definition deepen :: bytes where "deepen = str ''deepen''"
definition deepenCommits :: bytes where "deepenCommits = str ''deepen ''"
definition deepenSince :: bytes where "deepenSince = str ''deepen-since ''"
definition deepenReference :: bytes where "deepenReference = str ''deepen-not ''"
definition unshallow :: bytes where "unshallow = str ''unshallow ''"

definition isFlush :: "bytes \<Rightarrow> bool" where
  "isFlush payload \<longleftrightarrow> length payload = 0"

text \<open>An error with the data that was not expected; the data is left out.\<close>

abbreviation NewErrUnexpectedData :: "string \<Rightarrow> error" where
  "NewErrUnexpectedData msg \<equiv> Wrapped msg (Sentinel ''ErrUnexpectedData'')"

text \<open>\<^verbatim>\<open>sort.Sort\<close> with \<^verbatim>\<open>HashSlice.Less\<close>.\<close>

definition hash_le :: "ObjectID \<Rightarrow> ObjectID \<Rightarrow> bool" where
  "hash_le a b \<longleftrightarrow> \<not> ObjectID_Compare b (ObjectID_Bytes a) < 0"

fun insert_hash :: "ObjectID \<Rightarrow> ObjectID list \<Rightarrow> ObjectID list" where
  "insert_hash h [] = [h]"
| "insert_hash h (x # xs) = (if hash_le h x then h # x # xs else x # insert_hash h xs)"

definition HashesSort :: "ObjectID list \<Rightarrow> ObjectID list" where
  "HashesSort a = foldr insert_hash a []"

section \<open>Sorted hashes\<close>

lemma sha1_Compare_0:
  assumes "sha1_id a" and "sha1_id b"
  shows "ObjectID_Compare a (ObjectID_Bytes b) = 0 \<longleftrightarrow> a = b"
proof -
  have "ObjectID_Bytes a = ObjectID_Bytes b \<Longrightarrow> a = b"
    using assms ObjectID_Write_Bytes_sha1 by (metis sha1_id_def)
  then show ?thesis by (auto simp: ObjectID_Compare_def ObjectID_Bytes_def Compare_eq_0_iff)
qed

lemma hash_le_Compare: "hash_le a b \<longleftrightarrow> Compare (ObjectID_Bytes a) (ObjectID_Bytes b) \<le> 0"
  using Compare_antisym [of "ObjectID_Bytes a" "ObjectID_Bytes b"]
  by (auto simp: hash_le_def ObjectID_Compare_def ObjectID_Bytes_def)

lemma Compare_refl: "Compare xs xs = 0"
  by (simp add: Compare_eq_0_iff)

lemma hash_le_trans: "hash_le a b \<Longrightarrow> hash_le b c \<Longrightarrow> hash_le a c"
proof -
  assume "hash_le a b" "hash_le b c"
  then have ab: "Compare (ObjectID_Bytes a) (ObjectID_Bytes b) < 0 \<or> ObjectID_Bytes a = ObjectID_Bytes b"
    and bc: "Compare (ObjectID_Bytes b) (ObjectID_Bytes c) < 0 \<or> ObjectID_Bytes b = ObjectID_Bytes c"
    by (auto simp: hash_le_Compare le_less Compare_eq_0_iff)
  then have "Compare (ObjectID_Bytes a) (ObjectID_Bytes c) < 0 \<or> ObjectID_Bytes a = ObjectID_Bytes c"
    by (metis Compare_less_trans)
  then show ?thesis by (auto simp: hash_le_Compare Compare_refl)
qed

lemma hash_le_total: "\<not> hash_le a b \<Longrightarrow> hash_le b a"
  using Compare_antisym [of "ObjectID_Bytes a" "ObjectID_Bytes b"] by (auto simp: hash_le_Compare)

lemma set_insert_hash [simp]: "set (insert_hash h hs) = insert h (set hs)"
  by (induction hs) auto

lemma sorted_insert_hash: "sorted_wrt hash_le hs \<Longrightarrow> sorted_wrt hash_le (insert_hash h hs)"
  by (induction hs) (auto dest: hash_le_total intro: hash_le_trans)

lemma set_HashesSort [simp]: "set (HashesSort hs) = set hs"
  by (induction hs) (simp_all add: HashesSort_def)

lemma sorted_HashesSort: "sorted_wrt hash_le (HashesSort hs)"
  by (induction hs) (simp_all add: HashesSort_def sorted_insert_hash)

lemma length_insert_hash [simp]: "length (insert_hash h hs) = Suc (length hs)"
  by (induction hs) auto

lemma length_HashesSort [simp]: "length (HashesSort hs) = length hs"
  by (induction hs) (simp_all add: HashesSort_def)

text \<open>What is left when equal neighbours are written once.\<close>

fun dedup :: "ObjectID \<Rightarrow> ObjectID list \<Rightarrow> ObjectID list" where
  "dedup l [] = []"
| "dedup l (w # ws) = (if ObjectID_Compare l (ObjectID_Bytes w) = 0 then dedup l ws else w # dedup w ws)"

lemma dedup_subset: "set (dedup l ws) \<subseteq> set ws"
  by (induction l ws rule: dedup.induct) auto

lemma dedup_sorted: "sorted_wrt hash_le ws \<Longrightarrow> sorted_wrt hash_le (dedup l ws)"
proof (induction l ws rule: dedup.induct)
  case (2 l w ws)
  then show ?case using dedup_subset [of w ws] by auto
qed simp

lemma hash_le_antisym:
  assumes "sha1_id a" and "sha1_id b" and "hash_le a b" and "hash_le b a"
  shows "a = b"
proof -
  have "Compare (ObjectID_Bytes a) (ObjectID_Bytes b) \<le> 0" "Compare (ObjectID_Bytes b) (ObjectID_Bytes a) \<le> 0"
    using assms(3,4) by (simp_all only: hash_le_Compare)
  moreover have "Compare (ObjectID_Bytes b) (ObjectID_Bytes a) = - Compare (ObjectID_Bytes a) (ObjectID_Bytes b)"
    by (rule Compare_antisym)
  ultimately have "Compare (ObjectID_Bytes a) (ObjectID_Bytes b) = 0" by linarith
  then have "ObjectID_Compare a (ObjectID_Bytes b) = 0" by (simp only: ObjectID_Compare_def ObjectID_Bytes_def)
  then show ?thesis using sha1_Compare_0 [OF assms(1,2)] by blast
qed

lemma dedup_distinct:
  "sorted_wrt hash_le (l # ws) \<Longrightarrow> \<forall>h \<in> set (l # ws). sha1_id h \<Longrightarrow>
    distinct (l # dedup l ws) \<and> set (l # dedup l ws) = set (l # ws)"
proof (induction l ws rule: dedup.induct)
  case (2 l w ws)
  show ?case
  proof (cases "l = w")
    case True
    with 2 show ?thesis by (auto simp: sha1_Compare_0)
  next
    case False
    with 2 have IH: "distinct (w # dedup w ws)" "set (w # dedup w ws) = set (w # ws)" by (auto simp: sha1_Compare_0)
    have "l \<notin> set (w # ws)"
    proof
      assume "l \<in> set (w # ws)"
      with False "2.prems"(1) have "hash_le w l" "hash_le l w" by auto
      with "2.prems"(2) hash_le_antisym [of l w] False show False by simp
    qed
    with IH False "2.prems"(2) show ?thesis by (auto simp: sha1_Compare_0)
  qed
qed simp

section \<open>Messages\<close>

text \<open>A message: packets, a flush packet, and what follows.\<close>

definition message :: "bytes list \<Rightarrow> bytes \<Rightarrow> bytes" where
  "message ps rest = concat (map packet ps) @ flushPkt @ rest"

lemma message_simps: "message [] rest = flushPkt @ rest" "message (p # ps) rest = packet p @ message ps rest"
  by (simp_all add: message_def)

lemma TrimSuffix_eol [simp]: "TrimSuffix (s @ eol) eol = s"
  by (simp add: TrimSuffix_def)

lemma TrimPrefix_append [simp]: "TrimPrefix (p @ s) p = s"
  by (simp add: TrimPrefix_def)

lemma label_lengths [simp]:
  "length want = 5" "length shallow = 8" "length eol = 1" "length sp = 1" "length deepenCommits = 7"
  "length deepenSince = 13" "length deepenReference = 11"
  by (simp_all add: want_def shallow_def eol_def sp_def deepenCommits_def deepenSince_def deepenReference_def)

text \<open>
  The loop of the decoders that read packet after packet: \<open>body\<close> handles the length and the payload of
  a packet and either goes on with a changed state or leaves the loop with an outcome. A reading
  error leaves the loop too.
\<close>

function packet_loop :: "('s \<Rightarrow> int \<Rightarrow> bytes \<Rightarrow> 's \<times> 'o option) \<Rightarrow> 's \<Rightarrow> conn \<Rightarrow> ('s \<times> conn \<times> (error + 'o)) result" where
  "packet_loop body s c =
     (case next_packet c of
        Ok (l, p, Some e, c') \<Rightarrow> Ok (s, c', Inl e)
      | Ok (l, p, None, c') \<Rightarrow>
          (case body s l p of
             (s', None) \<Rightarrow> packet_loop body s' c'
           | (s', Some outcome) \<Rightarrow> Ok (s', c', Inr outcome))
      | Error e \<Rightarrow> Error e
      | Panic \<Rightarrow> Panic)"
  by pat_completeness auto
termination
  by (relation "measure (\<lambda>(body, s, c). length (fst c))") (auto dest: next_packet_shrinks)

declare packet_loop.simps [simp del]

lemma packet_loop_packets:
  assumes "\<forall>p \<in> set ps. plain_payload p" and "conn_ok c" and "fst c = concat (map packet ps) @ rest"
    and "\<And>s p. p \<in> set ps \<Longrightarrow> body s (int (length p + 4)) p = (step s p, None)"
  shows "\<exists>buf. packet_loop body s c = packet_loop body (foldl step s ps) (rest, buf) \<and> conn_ok (rest, buf)"
  using assms
proof (induction ps arbitrary: s c)
  case Nil
  then show ?case by (cases c) auto
next
  case (Cons p ps)
  obtain buf where np: "next_packet c = Ok (int (length p + 4), p, None, (concat (map packet ps) @ rest, buf))"
    and ok: "conn_ok (concat (map packet ps) @ rest, buf)"
    using next_packet_plain [of p c "concat (map packet ps) @ rest"] Cons.prems(1-3) by auto
  have "packet_loop body s c = packet_loop body (step s p) (concat (map packet ps) @ rest, buf)"
    using np Cons.prems(4) [of p s] by (subst packet_loop.simps) simp
  moreover have "\<exists>buf'. packet_loop body (step s p) (concat (map packet ps) @ rest, buf) =
      packet_loop body (foldl step (step s p) ps) (rest, buf') \<and> conn_ok (rest, buf')"
    using Cons.IH [of "(concat (map packet ps) @ rest, buf)" "step s p"] Cons.prems(1,4) ok by auto
  ultimately show ?case by auto
qed

lemma packet_loop_message:
  assumes "\<forall>p \<in> set ps. plain_payload p" and "conn_ok c" and "fst c = message ps rest"
    and "\<And>s p. p \<in> set ps \<Longrightarrow> body s (int (length p + 4)) p = (step s p, None)"
    and "\<And>s. body s 0 [] = (s, Some outcome)"
  shows "\<exists>buf. packet_loop body s c = Ok (foldl step s ps, (rest, buf), Inr outcome) \<and> conn_ok (rest, buf)"
proof -
  obtain buf where loop: "packet_loop body s c = packet_loop body (foldl step s ps) (flushPkt @ rest, buf)"
    and ok: "conn_ok (flushPkt @ rest, buf)"
    using packet_loop_packets [of ps c "flushPkt @ rest" body step s] assms(1-4) by (auto simp: message_def)
  obtain buf' where np: "next_packet (flushPkt @ rest, buf) = Ok (0, [], None, (rest, buf'))" and ok': "conn_ok (rest, buf')"
    using next_packet_flush [OF ok, of rest] by auto
  have "packet_loop body (foldl step s ps) (flushPkt @ rest, buf) = Ok (foldl step s ps, (rest, buf'), Inr outcome)"
    using np assms(5) [of "foldl step s ps"] by (subst packet_loop.simps) simp
  with loop ok' show ?thesis by auto
qed

end
