(* ===== verification/UpdateReq.thy ===== *)
theory UpdateReq
  imports Packp Reference
begin

text \<open>
  The update request of a push: \<^verbatim>\<open>updreq.go\<close>, \<^verbatim>\<open>updreq_encode.go\<close> and \<^verbatim>\<open>updreq_decode.go\<close>. Decoding
  returns what was decoded before an error together with the error.
\<close>

section \<open>Update requests\<close>

abbreviation ErrEmptyCommands :: error where "ErrEmptyCommands \<equiv> Sentinel ''ErrEmptyCommands''"
abbreviation ErrMalformedCommand :: error where "ErrMalformedCommand \<equiv> Sentinel ''ErrMalformedCommand''"
abbreviation errMalformedRequest :: "string \<Rightarrow> error" where
  "errMalformedRequest reason \<equiv> Wrapped reason (Sentinel ''malformed request'')"

record Command =
  cmd_Name :: ReferenceName
  cmd_Old :: ObjectID
  cmd_New :: ObjectID

datatype Action = Create | Update | Delete | Invalid

definition Command_Action :: "Command \<Rightarrow> Action" where
  "Command_Action c =
     (if cmd_Old c = ZeroHash \<and> cmd_New c = ZeroHash then Invalid
      else if cmd_Old c = ZeroHash then Create
      else if cmd_New c = ZeroHash then Delete
      else Update)"

definition Command_validate :: "Command \<Rightarrow> error option" where
  "Command_validate c = (if Command_Action c = Invalid then Some ErrMalformedCommand else None)"

record UpdateRequests =
  up_Capabilities :: List
  up_Commands :: "Command list"
  up_Shallow :: "ObjectID option"

definition NewUpdateRequests :: UpdateRequests where
  "NewUpdateRequests = \<lparr>up_Capabilities = NewList, up_Commands = [], up_Shallow = None\<rparr>"

definition UpdateRequests_validate :: "UpdateRequests \<Rightarrow> error option" where
  "UpdateRequests_validate req =
     (if length (up_Commands req) = 0 then Some ErrEmptyCommands
      else Option.bind (List.find (\<lambda>c. Command_validate c \<noteq> None) (up_Commands req)) Command_validate)"

definition formatCommand :: "Command \<Rightarrow> string" where
  "formatCommand cmd = ObjectID_String (cmd_Old cmd) @ '' '' @ ObjectID_String (cmd_New cmd) @ '' '' @ cmd_Name cmd"

definition up_encodeShallow :: "ObjectID option \<Rightarrow> bytes \<Rightarrow> written" where
  "up_encodeShallow h out =
     (case h of None \<Rightarrow> (out, Ok ()) | Some x \<Rightarrow> Writef out (shallow @ str (ObjectID_String x)))"

fun encodeCommands_loop :: "Command list \<Rightarrow> bytes \<Rightarrow> written" where
  "encodeCommands_loop [] out = (WriteFlush out, Ok ())"
| "encodeCommands_loop (cmd # cmds) out = wbind (Writef out (str (formatCommand cmd))) (encodeCommands_loop cmds)"

definition encodeCommands :: "Command list \<Rightarrow> List \<Rightarrow> bytes \<Rightarrow> written" where
  "encodeCommands cmds caps out =
     (case cmds of
        [] \<Rightarrow> (out, Panic)
      | cmd # rest \<Rightarrow>
          (case List_String caps of
             Ok s \<Rightarrow> wbind (Writef out (str (formatCommand cmd) @ [0] @ str s)) (encodeCommands_loop rest)
           | Error e \<Rightarrow> (out, Error e)
           | Panic \<Rightarrow> (out, Panic)))"

definition UpdateRequests_Encode :: "UpdateRequests \<Rightarrow> bytes \<Rightarrow> written" where
  "UpdateRequests_Encode req out =
     (case UpdateRequests_validate req of
        Some e \<Rightarrow> (out, Error e)
      | None \<Rightarrow> wbind (up_encodeShallow (up_Shallow req) out) (encodeCommands (up_Commands req) (up_Capabilities req)))"

definition shallowLineLength :: nat where "shallowLineLength = length shallow + hashSize"
definition minCommandLength :: nat where "minCommandLength = hashSize * 2 + 2 + 1"
definition minCommandAndCapsLength :: nat where "minCommandAndCapsLength = minCommandLength + 1"

abbreviation ErrEmpty :: error where "ErrEmpty \<equiv> Sentinel ''ErrEmpty''"
abbreviation errNoCommands :: error where "errNoCommands \<equiv> Sentinel ''errNoCommands''"
abbreviation errMissingCapabilitiesDelimiter :: error where
  "errMissingCapabilitiesDelimiter \<equiv> Sentinel ''errMissingCapabilitiesDelimiter''"
abbreviation errNoFlush :: error where "errNoFlush \<equiv> Sentinel ''errNoFlush''"

definition parseHash :: "string \<Rightarrow> ObjectID result" where
  "parseHash s =
     (if length s \<noteq> hashSize then Error (Sentinel ''invalid hash size'')
      else case FromHex s of (h, ok) \<Rightarrow> if \<not> ok then Error (Sentinel ''invalid hash'') else Ok h)"

definition parseCommand :: "bytes \<Rightarrow> Command result" where
  "parseCommand b =
     (if length b < minCommandLength then Error (errMalformedRequest ''invalid command line length'')
      else case Sscanf3 (unstr b) of
             None \<Rightarrow> Error (errMalformedRequest ''malformed command'')
           | Some (os, ns, n) \<Rightarrow>
               (case parseHash os of
                  Ok oh \<Rightarrow>
                    (case parseHash ns of
                       Ok nh \<Rightarrow> Ok \<lparr>cmd_Name = n, cmd_Old = oh, cmd_New = nh\<rparr>
                     | Error e \<Rightarrow> Error (errMalformedRequest ''invalid new object id'')
                     | Panic \<Rightarrow> Panic)
                | Error e \<Rightarrow> Error (errMalformedRequest ''invalid old object id'')
                | Panic \<Rightarrow> Panic))"

record updReqDecoder =
  pd_conn :: conn
  pd_req :: UpdateRequests
  pd_payload :: bytes
  pd_length :: int

type_synonym upd_outcome = "(updReqDecoder \<times> error option) result"

definition pd_bind :: "upd_outcome \<Rightarrow> (updReqDecoder \<Rightarrow> upd_outcome) \<Rightarrow> upd_outcome" where
  "pd_bind m k = rbind m (\<lambda>(d, e). case e of None \<Rightarrow> k d | Some x \<Rightarrow> Ok (d, Some x))"

definition pd_readLine :: "error \<Rightarrow> updReqDecoder \<Rightarrow> upd_outcome" where
  "pd_readLine eof d =
     rbind (next_packet (pd_conn d)) (\<lambda>(l, p, err, c).
       let d = d\<lparr>pd_conn := c\<rparr>
       in case err of
            Some e \<Rightarrow> Ok (d, Some (if errors_Is e EOF then eof else e))
          | None \<Rightarrow> Ok (d\<lparr>pd_payload := p, pd_length := l\<rparr>, None))"

definition pd_decodeShallow :: "updReqDecoder \<Rightarrow> upd_outcome" where
  "pd_decodeShallow d =
     (let b = pd_payload d
      in if \<not> HasPrefix b (str ''shallow'') then Ok (d, None)
         else if length b \<noteq> shallowLineLength then Ok (d, Some (errMalformedRequest ''invalid shallow line length''))
         else case parseHash (unstr (drop (length shallow) b)) of
                Error e \<Rightarrow> Ok (d, Some (errMalformedRequest ''invalid shallow object id''))
              | Panic \<Rightarrow> Panic
              | Ok h \<Rightarrow> pd_bind (pd_readLine errNoCommands d) (\<lambda>d.
                  Ok (d\<lparr>pd_req := (pd_req d)\<lparr>up_Shallow := Some h\<rparr>\<rparr>, None)))"

lemma pd_readLine_shrinks:
  "pd_readLine e d = Ok (d', None) \<Longrightarrow> length (fst (pd_conn d')) < length (fst (pd_conn d))"
  by (auto simp: pd_readLine_def Let_def dest: next_packet_shrinks split: option.splits)

lemma pd_bind_cong [fundef_cong]:
  "m = m' \<Longrightarrow> (\<And>d. m' = Ok (d, None) \<Longrightarrow> k d = k' d) \<Longrightarrow> pd_bind m k = pd_bind m' k'"
  by (cases m') (auto simp: pd_bind_def split: option.splits)

function decodeCommands_loop :: "bytes \<Rightarrow> updReqDecoder \<Rightarrow> upd_outcome" where
  "decodeCommands_loop payload d =
     (case parseCommand payload of
        Error e \<Rightarrow> Ok (d, Some e)
      | Panic \<Rightarrow> Panic
      | Ok cmd \<Rightarrow>
          pd_bind (pd_readLine errNoFlush (d\<lparr>pd_req := (pd_req d)\<lparr>up_Commands := up_Commands (pd_req d) @ [cmd]\<rparr>\<rparr>)) (\<lambda>d.
            if pd_length d = Flush then Ok (d, None) else decodeCommands_loop (pd_payload d) d))"
  by pat_completeness auto
termination
  by (relation "measure (\<lambda>(payload, d). length (fst (pd_conn d)))") (auto dest: pd_readLine_shrinks)

declare decodeCommands_loop.simps [simp del]

definition decodeCommands :: "updReqDecoder \<Rightarrow> upd_outcome" where
  "decodeCommands d =
     (let payload = pd_payload d
      in case Index payload [0] of
           None \<Rightarrow> Ok (d, Some errMissingCapabilitiesDelimiter)
         | Some sep \<Rightarrow>
             if length payload < minCommandAndCapsLength
             then Ok (d, Some (errMalformedRequest ''invalid command and capabilities line length''))
             else let (caps, r) = List_Decode (up_Capabilities (pd_req d)) (drop (sep + 1) payload);
                      d = d\<lparr>pd_req := (pd_req d)\<lparr>up_Capabilities := caps\<rparr>\<rparr>
                  in case r of
                       Error e \<Rightarrow> Ok (d, Some e)
                     | Panic \<Rightarrow> Panic
                     | Ok u \<Rightarrow> decodeCommands_loop (take sep payload) d)"

definition pd_decodeFlush :: "updReqDecoder \<Rightarrow> upd_outcome" where
  "pd_decodeFlush d =
     (if length (pd_payload d) \<noteq> 0 \<or> pd_length d \<noteq> Flush
      then Ok (d, Some (errMalformedRequest ''unexpected data after flush'')) else Ok (d, None))"

definition UpdateRequests_Decode :: "UpdateRequests \<Rightarrow> conn \<Rightarrow> (UpdateRequests \<times> conn \<times> error option) result" where
  "UpdateRequests_Decode req c =
     rbind (pd_bind (pd_bind (pd_bind (pd_bind
         (pd_readLine ErrEmpty \<lparr>pd_conn = c, pd_req = req, pd_payload = [], pd_length = 0\<rparr>)
         pd_decodeShallow) decodeCommands) pd_decodeFlush)
         (\<lambda>d. Ok (d, UpdateRequests_validate (pd_req d))))
       (\<lambda>(d, e). Ok (pd_req d, pd_conn d, e))"

section \<open>Commands\<close>

lemma hexEncode_chars: "c \<in> set (hexEncode bs) \<Longrightarrow> \<exists>d < 16. c = digit d"
proof (induction bs)
  case (Cons b bs)
  have "unat b div 16 < 16" "unat b mod 16 < 16" using unat_byte_less [of b] by (simp_all add: less_mult_imp_div_less)
  moreover have "c = digit (unat b div 16) \<or> c = digit (unat b mod 16) \<or> c \<in> set (hexEncode bs)" using Cons.prems by auto
  ultimately show ?case using Cons.IH by (elim disjE) (blast | assumption)+
qed simp

lemma digit_visible:
  "d < 16 \<Longrightarrow> 32 < (of_char (digit d) :: nat) \<and> (of_char (digit d) :: nat) < 127 \<and> digit d \<noteq> char_of (0 :: nat) \<and> digit d \<noteq> CHR ''E''"
proof -
  assume "d < 16"
  then have "(of_char (digit d) :: nat) = (if d < 10 then 48 + d else 87 + d)" by (simp add: digit_def)
  then show ?thesis using \<open>d < 16\<close> by (auto split: if_splits)
qed

lemma plain_hash: "sha1_id h \<Longrightarrow> plain_name (ObjectID_String h)"
proof -
  assume h: "sha1_id h"
  then have "ObjectID_String h \<noteq> []" using sha1_id_text(1) [OF h] by auto
  moreover have "\<forall>c \<in> set (ObjectID_String h). 32 < (of_char c :: nat) \<and> (of_char c :: nat) < 127"
    using hexEncode_chars digit_visible by (metis ObjectID_String_def)
  ultimately show ?thesis by (simp add: plain_name_def plain_text_visible)
qed

lemma hash_no_nul: "char_of (0 :: nat) \<notin> set (ObjectID_String h)"
  using hexEncode_chars digit_visible by (metis ObjectID_String_def)

definition command_ok :: "Command \<Rightarrow> bool" where
  "command_ok c \<longleftrightarrow> sha1_id (cmd_Old c) \<and> sha1_id (cmd_New c) \<and> plain_name (cmd_Name c) \<and>
     char_of (0 :: nat) \<notin> set (cmd_Name c) \<and> length (cmd_Name c) \<le> 60000 \<and>
     \<not> (cmd_Old c = ZeroHash \<and> cmd_New c = ZeroHash)"

lemma formatCommand_length: "command_ok c \<Longrightarrow> length (formatCommand c) = 82 + length (cmd_Name c)"
  by (simp add: command_ok_def formatCommand_def sha1_id_text(1))

lemma parseCommand_format:
  assumes "command_ok c"
  shows "parseCommand (str (formatCommand c)) = Ok c"
proof -
  have n: "cmd_Name c \<noteq> []" using assms by (simp add: command_ok_def plain_name_def)
  have "Sscanf3 (formatCommand c) = Some (ObjectID_String (cmd_Old c), ObjectID_String (cmd_New c), cmd_Name c)"
    using assms by (simp add: formatCommand_def command_ok_def plain_hash Sscanf3_plain del: append.simps)
  then show ?thesis using assms n formatCommand_length [OF assms]
    by (simp add: parseCommand_def parseHash_def command_ok_def sha1_id_text minCommandLength_def hashSize_def)
qed

section \<open>Requests round trip\<close>

definition update_ok :: "UpdateRequests \<Rightarrow> bool" where
  "update_ok req \<longleftrightarrow>
     up_Commands req \<noteq> [] \<and> (\<forall>c \<in> set (up_Commands req). command_ok c) \<and>
     (\<forall>h. up_Shallow req = Some h \<longrightarrow> sha1_id h) \<and>
     caps_inv (up_Capabilities req) \<and> caps_tokens (up_Capabilities req) \<and>
     (\<forall>s. List_String (up_Capabilities req) = Ok s \<longrightarrow> length s \<le> 5000)"

definition command_line :: "Command \<Rightarrow> string \<Rightarrow> bytes" where
  "command_line c s = str (formatCommand c) @ 0 # str s"

definition shallow_lines :: "ObjectID option \<Rightarrow> bytes list" where
  "shallow_lines h = (case h of None \<Rightarrow> [] | Some x \<Rightarrow> [shallow @ str (ObjectID_String x)])"

definition pd_at :: "bytes \<Rightarrow> UpdateRequests \<Rightarrow> updReqDecoder \<Rightarrow> bool" where
  "pd_at s req d \<longleftrightarrow> conn_ok (pd_conn d) \<and> fst (pd_conn d) = s \<and> pd_req d = req"

lemma plain_command:
  assumes "command_ok c"
  shows "plain_payload (str (formatCommand c))" and "length s \<le> 5000 \<Longrightarrow> plain_payload (command_line c s)"
    and "\<not> HasPrefix (str (formatCommand c) @ b) (str ''shallow'')"
proof -
  obtain x xs where f: "formatCommand c = x # xs" and x: "x \<in> set (ObjectID_String (cmd_Old c))"
    using assms sha1_id_text(1) [of "cmd_Old c"] unfolding formatCommand_def command_ok_def
    by (cases "ObjectID_String (cmd_Old c)") auto
  from x obtain d where d: "d < 16" "x = digit d" using hexEncode_chars by (metis ObjectID_String_def)
  then have n: "(of_char x :: nat) = (if d < 10 then 48 + d else 87 + d)" by (simp add: digit_def)
  have "unat (of_char x :: byte) \<noteq> 69" "unat (of_char x :: byte) \<noteq> 115" using d n by (auto split: if_splits)
  then have ne: "(of_char x :: byte) \<noteq> 69" "(of_char x :: byte) \<noteq> 115" by (auto simp del: unat_of_char)
  have len: "length (formatCommand c) \<le> 60082" using assms formatCommand_length [OF assms] by (simp add: command_ok_def)
  show "plain_payload (str (formatCommand c))"
    using ne len by (simp add: plain_payload_def f HasPrefix_def errPrefix_def of_char_def MaxPayloadSize_def)
  show "length s \<le> 5000 \<Longrightarrow> plain_payload (command_line c s)"
    using ne len by (simp add: plain_payload_def command_line_def f HasPrefix_def errPrefix_def of_char_def MaxPayloadSize_def)
  show "\<not> HasPrefix (str (formatCommand c) @ b) (str ''shallow'')" using ne by (simp add: f of_char_def)
qed

lemma readLine_packet:
  assumes "pd_at (packet p @ t) req d" and "plain_payload p"
  shows "\<exists>d'. pd_readLine e d = Ok (d', None) \<and> pd_at t req d' \<and> pd_payload d' = p \<and> pd_length d' = int (length p + 4)"
  using assms next_packet_plain [of p "pd_conn d" t] by (fastforce simp: pd_at_def pd_readLine_def)

lemma readLine_flush:
  assumes "pd_at (flushPkt @ t) req d"
  shows "\<exists>d'. pd_readLine e d = Ok (d', None) \<and> pd_at t req d' \<and> pd_payload d' = [] \<and> pd_length d' = 0"
  using assms next_packet_flush [of "pd_conn d" t] by (fastforce simp: pd_at_def pd_readLine_def)

lemma decodeCommands_loop_message:
  assumes "command_ok c" and "\<forall>c \<in> set cs. command_ok c"
    and "pd_at (message (map (\<lambda>c. str (formatCommand c)) cs) rest) req d"
  shows "\<exists>d'. decodeCommands_loop (str (formatCommand c)) d = Ok (d', None) \<and>
    pd_at rest (req\<lparr>up_Commands := up_Commands req @ c # cs\<rparr>) d' \<and> pd_payload d' = [] \<and> pd_length d' = 0"
  using assms
proof (induction cs arbitrary: c d req)
  case Nil
  let ?d = "d\<lparr>pd_req := (pd_req d)\<lparr>up_Commands := up_Commands (pd_req d) @ [c]\<rparr>\<rparr>"
  have "pd_at (flushPkt @ rest) (req\<lparr>up_Commands := up_Commands req @ [c]\<rparr>) ?d"
    using Nil.prems(3) by (simp add: pd_at_def message_simps)
  from readLine_flush [OF this, of errNoFlush] obtain d' where d':
    "pd_readLine errNoFlush ?d = Ok (d', None)" "pd_at rest (req\<lparr>up_Commands := up_Commands req @ [c]\<rparr>) d'"
    "pd_payload d' = []" "pd_length d' = 0" by blast
  then show ?case using parseCommand_format [OF Nil.prems(1)]
    by (subst decodeCommands_loop.simps) (simp add: pd_bind_def Flush_def)
next
  case (Cons c2 cs)
  let ?d = "d\<lparr>pd_req := (pd_req d)\<lparr>up_Commands := up_Commands (pd_req d) @ [c]\<rparr>\<rparr>"
  let ?t = "message (map (\<lambda>c. str (formatCommand c)) cs) rest"
  have "pd_at (packet (str (formatCommand c2)) @ ?t) (req\<lparr>up_Commands := up_Commands req @ [c]\<rparr>) ?d"
    using Cons.prems(3) by (simp add: pd_at_def message_simps)
  from readLine_packet [OF this plain_command(1), of errNoFlush] Cons.prems(2) obtain d1 where d1:
    "pd_readLine errNoFlush ?d = Ok (d1, None)" "pd_at ?t (req\<lparr>up_Commands := up_Commands req @ [c]\<rparr>) d1"
    "pd_payload d1 = str (formatCommand c2)" "pd_length d1 = int (length (formatCommand c2) + 4)" by auto
  obtain d' where d': "decodeCommands_loop (str (formatCommand c2)) d1 = Ok (d', None)"
    "pd_at rest ((req\<lparr>up_Commands := up_Commands req @ [c]\<rparr>)\<lparr>up_Commands := (up_Commands req @ [c]) @ c2 # cs\<rparr>) d'"
    "pd_payload d' = []" "pd_length d' = 0"
    using Cons.IH [OF _ _ d1(2)] Cons.prems(2) by auto
  have "decodeCommands_loop (str (formatCommand c)) d = decodeCommands_loop (str (formatCommand c2)) d1"
    using parseCommand_format [OF Cons.prems(1)] d1(1,3,4)
    by (subst decodeCommands_loop.simps) (simp add: pd_bind_def Flush_def)
  with d' show ?case by simp
qed

lemma pd_bind_Ok [simp]: "pd_bind (Ok (d, None)) k = k d"
  by (simp add: pd_bind_def)

lemma update_ok_validate:
  assumes "update_ok req"
  shows "UpdateRequests_validate (req\<lparr>up_Capabilities := caps\<rparr>) = None"
proof -
  have "List.find (\<lambda>c. Command_validate c \<noteq> None) (up_Commands req) = None"
    using assms by (auto simp: find_None_iff update_ok_def command_ok_def Command_validate_def Command_Action_def)
  then show ?thesis using assms by (simp add: UpdateRequests_validate_def update_ok_def)
qed

lemma encodeCommands_loop_message:
  "\<forall>c \<in> set cs. command_ok c \<Longrightarrow>
    encodeCommands_loop cs out = (out @ message (map (\<lambda>c. str (formatCommand c)) cs) [], Ok ())"
proof (induction cs arbitrary: out)
  case (Cons c cs)
  then have "length (str (formatCommand c)) \<le> MaxPayloadSize" using plain_command(1) [of c] by (simp add: plain_payload_def)
  with Cons show ?case by (simp add: Writef_packet message_simps)
qed (simp add: message_simps WriteFlush_def)

lemma UpdateRequests_Encode_message:
  assumes ok: "update_ok req" and cmds: "up_Commands req = c # cs" and s: "List_String (up_Capabilities req) = Ok s"
  shows "UpdateRequests_Encode req out =
    (out @ message (shallow_lines (up_Shallow req) @ command_line c s # map (\<lambda>c. str (formatCommand c)) cs) [], Ok ())"
proof -
  have c: "command_ok c" "\<forall>c \<in> set cs. command_ok c" using ok cmds by (auto simp: update_ok_def)
  have "length (command_line c s) \<le> MaxPayloadSize"
    using plain_command(2) [OF c(1), of s] ok s by (simp add: plain_payload_def update_ok_def)
  then have cmd: "encodeCommands (up_Commands req) (up_Capabilities req) out1 =
      (out1 @ message (command_line c s # map (\<lambda>c. str (formatCommand c)) cs) [], Ok ())" for out1
    using s c(2) cmds encodeCommands_loop_message
    by (simp add: encodeCommands_def Writef_packet message_simps command_line_def)
  have "UpdateRequests_validate req = None" using update_ok_validate [OF ok, of "up_Capabilities req"] by simp
  moreover have "up_encodeShallow (up_Shallow req) out = (out @ concat (map packet (shallow_lines (up_Shallow req))), Ok ())"
    using ok by (auto simp: up_encodeShallow_def shallow_lines_def update_ok_def Writef_packet sha1_id_text(1) MaxPayloadSize_def
      split: option.splits)
  ultimately show ?thesis by (simp add: UpdateRequests_Encode_def cmd message_def)
qed

lemma decodeCommands_message:
  assumes c: "command_ok c" "\<forall>c \<in> set cs. command_ok c"
    and caps: "List_Decode (up_Capabilities req) (str s) = (caps, Ok ())"
    and at: "pd_at (message (map (\<lambda>c. str (formatCommand c)) cs) rest) req d" and line: "pd_payload d = command_line c s"
  shows "\<exists>d'. decodeCommands d = Ok (d', None) \<and>
    pd_at rest (req\<lparr>up_Capabilities := caps, up_Commands := up_Commands req @ c # cs\<rparr>) d' \<and> pd_payload d' = [] \<and> pd_length d' = 0"
proof -
  have "char_of (0 :: nat) \<notin> set (formatCommand c)"
    using c(1) hash_no_nul by (auto simp: formatCommand_def command_ok_def char_of_def)
  then have "(0 :: byte) \<notin> set (str (formatCommand c))"
    using of_char_in_str [of "char_of (0 :: nat)" "formatCommand c"] by (simp add: char_of_def of_char_def)
  then have "takeWhile (\<lambda>x. x \<noteq> 0) (str (formatCommand c) @ 0 # str s) = str (formatCommand c)"
    by (subst takeWhile_append2) auto
  then have idx: "Index (command_line c s) [0] = Some (length (formatCommand c))"
    by (simp add: Index_char command_line_def)
  have "cmd_Name c \<noteq> []" using c(1) by (simp add: command_ok_def plain_name_def)
  then have len: "\<not> length (command_line c s) < minCommandAndCapsLength"
    using formatCommand_length [OF c(1)] by (cases "cmd_Name c")
      (simp_all add: command_line_def minCommandAndCapsLength_def minCommandLength_def hashSize_def)
  let ?d = "d\<lparr>pd_req := (pd_req d)\<lparr>up_Capabilities := caps\<rparr>\<rparr>"
  have "pd_at (message (map (\<lambda>c. str (formatCommand c)) cs) rest) (req\<lparr>up_Capabilities := caps\<rparr>) ?d"
    using at by (simp add: pd_at_def)
  from decodeCommands_loop_message [OF c this] obtain d' where d':
    "decodeCommands_loop (str (formatCommand c)) ?d = Ok (d', None)"
    "pd_at rest (req\<lparr>up_Capabilities := caps, up_Commands := up_Commands req @ c # cs\<rparr>) d'"
    "pd_payload d' = []" "pd_length d' = 0" by auto
  have "decodeCommands d = decodeCommands_loop (str (formatCommand c)) ?d"
    using idx len caps at by (simp add: decodeCommands_def line Let_def pd_at_def) (simp add: command_line_def)
  with d' show ?thesis by auto
qed

lemma pd_decodeShallow_message:
  assumes "command_ok c" and "length s \<le> 5000" and "\<forall>h. sh = Some h \<longrightarrow> sha1_id h"
    and "pd_at (message (shallow_lines sh @ command_line c s # ps) rest) (req\<lparr>up_Shallow := None\<rparr>) d"
  shows "\<exists>d'. pd_bind (pd_readLine ErrEmpty d) pd_decodeShallow = Ok (d', None) \<and>
    pd_at (message ps rest) (req\<lparr>up_Shallow := sh\<rparr>) d' \<and> pd_payload d' = command_line c s"
proof (cases sh)
  case None
  have "\<not> HasPrefix (command_line c s) (str ''shallow'')" using plain_command(3) [OF assms(1)] by (simp add: command_line_def)
  moreover obtain d' where "pd_readLine ErrEmpty d = Ok (d', None)" "pd_payload d' = command_line c s"
    "pd_at (message ps rest) (req\<lparr>up_Shallow := None\<rparr>) d'"
    using readLine_packet [of "command_line c s" "message ps rest" "req\<lparr>up_Shallow := None\<rparr>" d ErrEmpty]
      plain_command(2) [OF assms(1,2)] assms(4) None by (auto simp: shallow_lines_def message_simps)
  ultimately show ?thesis using None by (auto simp: pd_bind_def pd_decodeShallow_def simp del: str_Cons)
next
  case (Some h)
  then have h: "sha1_id h" using assms(3) by simp
  let ?l = "shallow @ str (ObjectID_String h)"
  have "plain_payload ?l"
    using sha1_id_text(1) [OF h] by (simp add: plain_payload_def MaxPayloadSize_def shallow_def errPrefix_def HasPrefix_def of_char_def)
  with Some readLine_packet [of ?l "message (command_line c s # ps) rest" "req\<lparr>up_Shallow := None\<rparr>" d ErrEmpty] assms(4)
  obtain d1 where d1: "pd_readLine ErrEmpty d = Ok (d1, None)" "pd_payload d1 = ?l"
    "pd_at (message (command_line c s # ps) rest) (req\<lparr>up_Shallow := None\<rparr>) d1"
    by (auto simp: shallow_lines_def message_simps)
  obtain d2 where d2: "pd_readLine errNoCommands d1 = Ok (d2, None)" "pd_payload d2 = command_line c s"
    "pd_at (message ps rest) (req\<lparr>up_Shallow := None\<rparr>) d2"
    using readLine_packet [of "command_line c s" "message ps rest" "req\<lparr>up_Shallow := None\<rparr>" d1 errNoCommands] d1(3)
      plain_command(2) [OF assms(1,2)] by (auto simp: message_simps)
  have "HasPrefix ?l (str ''shallow'')" by (simp add: shallow_def)
  moreover have "length ?l = shallowLineLength" using sha1_id_text(1) [OF h] by (simp add: shallowLineLength_def hashSize_def)
  moreover have "parseHash (ObjectID_String h) = Ok h" using sha1_id_text [OF h] by (simp add: parseHash_def hashSize_def)
  ultimately have "pd_decodeShallow d1 = Ok (d2\<lparr>pd_req := (pd_req d2)\<lparr>up_Shallow := Some h\<rparr>\<rparr>, None)"
    using d1(2) d2(1) by (simp add: pd_decodeShallow_def Let_def pd_bind_def)
  with Some d1 d2 show ?thesis by (simp add: pd_bind_def pd_at_def)
qed

text \<open>
  C23. An update request is decoded as it was encoded: the same commands in the same order, the same
  shallow commit and the same capabilities in the same order, with the reader at what follows the
  message. It must have a command; the name of each command is not empty, valid UTF-8 and free of
  white space and of NUL, the two ids of a command are not both zero, the names of the capabilities
  are visible text without an equals sign and their arguments visible text, and the texts fit a
  packet.
\<close>

theorem UpdateRequests_roundtrip:
  assumes ok: "update_ok req" and buf: "length buf = MaxSize"
  shows "\<exists>out caps buf'. UpdateRequests_Encode req out0 = (out0 @ out, Ok ()) \<and>
    UpdateRequests_Decode NewUpdateRequests (out @ rest, buf) = Ok (req\<lparr>up_Capabilities := caps\<rparr>, (rest, buf'), None) \<and>
    cl_sort caps = cl_sort (up_Capabilities req) \<and> (\<forall>c. List_Get caps c = List_Get (up_Capabilities req) c)"
proof -
  obtain s caps where s: "List_String (up_Capabilities req) = Ok s"
    and caps: "List_Decode NewList (str s) = (caps, Ok ())" "cl_sort caps = cl_sort (up_Capabilities req)"
      "\<forall>c. List_Get caps c = List_Get (up_Capabilities req) c"
    using List_text [of "up_Capabilities req"] ok by (auto simp: update_ok_def)
  obtain c cs where cmds: "up_Commands req = c # cs" using ok by (cases "up_Commands req") (simp_all add: update_ok_def)
  have c: "command_ok c" "\<forall>c \<in> set cs. command_ok c" "length s \<le> 5000" "\<forall>h. up_Shallow req = Some h \<longrightarrow> sha1_id h"
    using ok cmds s by (auto simp: update_ok_def)
  define lines where "lines = shallow_lines (up_Shallow req) @ command_line c s # map (\<lambda>c. str (formatCommand c)) cs"
  note enc = UpdateRequests_Encode_message [OF ok cmds s, of out0, folded lines_def]
  define d0 where "d0 = \<lparr>pd_conn = (message lines [] @ rest, buf), pd_req = NewUpdateRequests, pd_payload = [], pd_length = 0\<rparr>"
  have "pd_at (message lines rest) (NewUpdateRequests\<lparr>up_Shallow := None\<rparr>) d0"
    using buf by (simp add: pd_at_def d0_def conn_ok_def message_def NewUpdateRequests_def)
  from pd_decodeShallow_message [OF c(1,3,4) this [unfolded lines_def]] obtain d1 where d1:
    "pd_bind (pd_readLine ErrEmpty d0) pd_decodeShallow = Ok (d1, None)"
    "pd_at (message (map (\<lambda>c. str (formatCommand c)) cs) rest) (NewUpdateRequests\<lparr>up_Shallow := up_Shallow req\<rparr>) d1"
    "pd_payload d1 = command_line c s" by auto
  from decodeCommands_message [OF c(1,2) _ d1(2,3)] caps(1) obtain d2 where d2: "decodeCommands d1 = Ok (d2, None)"
    "pd_at rest (NewUpdateRequests\<lparr>up_Shallow := up_Shallow req, up_Capabilities := caps, up_Commands := c # cs\<rparr>) d2"
    "pd_payload d2 = []" "pd_length d2 = 0" by (auto simp: NewUpdateRequests_def)
  have req: "pd_req d2 = req\<lparr>up_Capabilities := caps\<rparr>" using d2(2) cmds by (simp add: pd_at_def NewUpdateRequests_def)
  have conn: "pd_conn d2 = (rest, snd (pd_conn d2))" using d2(2) by (auto simp: pd_at_def)
  have "UpdateRequests_validate (pd_req d2) = None" using update_ok_validate [OF ok] by (simp add: req)
  then have "UpdateRequests_Decode NewUpdateRequests (message lines [] @ rest, buf) =
      Ok (req\<lparr>up_Capabilities := caps\<rparr>, (rest, snd (pd_conn d2)), None)"
    using d1(1) d2(1,3,4) req conn by (simp add: UpdateRequests_Decode_def pd_decodeFlush_def Flush_def flip: d0_def)
  with enc caps(2,3) show ?thesis by blast
qed

theorem UpdateRequests_roundtrip_witness:
  "\<exists>out caps buf'. UpdateRequests_Encode
       (NewUpdateRequests\<lparr>up_Commands := [\<lparr>cmd_Name = ''refs/heads/a'', cmd_Old = ZeroHash, cmd_New = NewHash ''01''\<rparr>]\<rparr>) [7] =
       ([7] @ out, Ok ()) \<and>
     UpdateRequests_Decode NewUpdateRequests (out @ [9], replicate 65520 0) =
       Ok (NewUpdateRequests\<lparr>up_Commands := [\<lparr>cmd_Name = ''refs/heads/a'', cmd_Old = ZeroHash, cmd_New = NewHash ''01''\<rparr>],
         up_Capabilities := caps\<rparr>, ([9], buf'), None)"
proof -
  let ?cmd = "\<lparr>cmd_Name = ''refs/heads/a'', cmd_Old = ZeroHash, cmd_New = NewHash ''01''\<rparr>"
  have new: "sha1_id (NewHash ''01'')" "NewHash ''01'' \<noteq> ZeroHash"
    by (code_simp)+
  have "command_ok ?cmd" using new sha1_id_ZeroHash
    by (simp add: command_ok_def plain_name_def plain_text_visible char_of_def)
  then have "update_ok (NewUpdateRequests\<lparr>up_Commands := [?cmd]\<rparr>)"
    using caps_inv_New by (simp add: update_ok_def NewUpdateRequests_def caps_tokens_def List_String_def NewList_def)
  from UpdateRequests_roundtrip [OF this, of "replicate 65520 0" "[7]" "[9]"] show ?thesis by auto
qed

end
