(* ===== verification/UploadReq.thy ===== *)
theory UploadReq
  imports Packp
begin

text \<open>
  The upload request: \<^verbatim>\<open>ulreq.go\<close>, \<^verbatim>\<open>ulreq_encode.go\<close> and \<^verbatim>\<open>ulreq_decode.go\<close>. The decoder is a machine
  whose states are the functions the sources return; \<open>ulreq_step\<close> runs one of them and the loop of
  \<^verbatim>\<open>Decode\<close> runs them until there is none. A point in time is its Unix seconds, which is what is sent.
\<close>

section \<open>Requests\<close>

datatype Depth = DepthCommits int | DepthSince int | DepthReference string

fun Depth_IsZero :: "Depth \<Rightarrow> bool" where
  "Depth_IsZero (DepthCommits d) \<longleftrightarrow> d = 0"
| "Depth_IsZero (DepthSince t) \<longleftrightarrow> t = -62135596800"
| "Depth_IsZero (DepthReference r) \<longleftrightarrow> r = []"

record UploadRequest =
  ur_Capabilities :: List
  ur_Wants :: "ObjectID list"
  ur_Shallows :: "ObjectID list"
  ur_Depth :: "Depth option"
  ur_Filter :: string

definition NewUploadRequest :: UploadRequest where
  "NewUploadRequest =
     \<lparr>ur_Capabilities = NewList, ur_Wants = [], ur_Shallows = [], ur_Depth = Some (DepthCommits 0), ur_Filter = []\<rparr>"

section \<open>Encoding\<close>

definition hash_line :: "bytes \<Rightarrow> ObjectID \<Rightarrow> bytes" where
  "hash_line label h = label @ str (ObjectID_String h) @ eol"

definition with_err :: "string \<Rightarrow> written \<Rightarrow> written" where
  "with_err msg w = (case w of (out, Error e) \<Rightarrow> (out, Error (Sentinel msg)) | _ \<Rightarrow> w)"

definition encodeFirstWant :: "UploadRequest \<Rightarrow> bytes \<Rightarrow> written" where
  "encodeFirstWant v out =
     (case ur_Wants v of
        [] \<Rightarrow> (out, Panic)
      | w # ws \<Rightarrow>
          with_err ''encoding first want line''
            (if List_IsEmpty (ur_Capabilities v) then Writef out (hash_line want w)
             else case List_String (ur_Capabilities v) of
                    Ok s \<Rightarrow> Writef out (want @ str (ObjectID_String w) @ sp @ str s @ eol)
                  | Error e \<Rightarrow> (out, Error e)
                  | Panic \<Rightarrow> (out, Panic)))"

text \<open>The loops over wants and shallows: equal neighbours are written once.\<close>

fun encodeHashes :: "bytes \<Rightarrow> string \<Rightarrow> ObjectID \<Rightarrow> ObjectID list \<Rightarrow> bytes \<Rightarrow> written" where
  "encodeHashes label msg l [] out = (out, Ok ())"
| "encodeHashes label msg l (w # ws) out =
     (if ObjectID_Compare l (ObjectID_Bytes w) = 0 then encodeHashes label msg l ws out
      else wbind (with_err msg (Writef out (hash_line label w))) (encodeHashes label msg w ws))"

definition encodeAdditionalWants :: "UploadRequest \<Rightarrow> bytes \<Rightarrow> written" where
  "encodeAdditionalWants v out =
     (case ur_Wants v of [] \<Rightarrow> (out, Panic) | w # ws \<Rightarrow> encodeHashes want ''encoding want'' w ws out)"

definition encodeShallows :: "UploadRequest \<Rightarrow> bytes \<Rightarrow> written" where
  "encodeShallows v out = encodeHashes shallow ''encoding shallow'' ZeroHash (ur_Shallows v) out"

definition encodeDepth :: "UploadRequest \<Rightarrow> bytes \<Rightarrow> written" where
  "encodeDepth v out =
     (case ur_Depth v of
        Some (DepthCommits d) \<Rightarrow>
          if d \<noteq> 0 then with_err ''encoding depth'' (Writef out (deepenCommits @ str (FormatInt d) @ eol)) else (out, Ok ())
      | Some (DepthSince t) \<Rightarrow> with_err ''encoding depth'' (Writef out (deepenSince @ str (FormatInt t) @ eol))
      | Some (DepthReference r) \<Rightarrow> with_err ''encoding depth'' (Writef out (deepenReference @ str r @ eol))
      | None \<Rightarrow> (out, Error (Sentinel ''unsupported depth type'')))"

definition encodeFilter :: "UploadRequest \<Rightarrow> bytes \<Rightarrow> written" where
  "encodeFilter v out =
     (if ur_Filter v \<noteq> [] then with_err ''encoding filter'' (Writef out (str ''filter '' @ str (ur_Filter v) @ eol))
      else (out, Ok ()))"

definition encodeFlush :: "bytes \<Rightarrow> written" where
  "encodeFlush out = (WriteFlush out, Ok ())"

text \<open>\<^verbatim>\<open>Encode\<close> sorts the slices of the request in place: the request is returned as it is left.\<close>

definition UploadRequest_Encode :: "UploadRequest \<Rightarrow> bytes \<Rightarrow> UploadRequest \<times> written" where
  "UploadRequest_Encode v0 out =
     (if length (ur_Wants v0) = 0 then (v0, out, Error (Sentinel ''empty wants provided''))
      else let v1 = v0\<lparr>ur_Wants := HashesSort (ur_Wants v0)\<rparr>
           in case wbind (encodeFirstWant v1 out) (encodeAdditionalWants v1) of
                (out, Ok u) \<Rightarrow>
                  let v2 = v1\<lparr>ur_Shallows := HashesSort (ur_Shallows v1)\<rparr>
                  in (v2, wbind (wbind (wbind (encodeShallows v2 out) (encodeDepth v2)) (encodeFilter v2)) encodeFlush)
              | (out, r) \<Rightarrow> (v1, out, r))"

section \<open>Decoding\<close>

record ulReqDecoder =
  ud_conn :: conn
  ud_line :: bytes
  ud_nLine :: nat
  ud_err :: "error option"
  ud_data :: UploadRequest

datatype ulState =
  DecodeFirstWant | DecodeCaps | DecodeOtherWants | DecodeShallow | DecodeDeepen |
  DecodeDeepenCommits | DecodeDeepenSince | DecodeDeepenReference | DecodeFlush

definition ud_error :: "string \<Rightarrow> ulReqDecoder \<Rightarrow> ulReqDecoder" where
  "ud_error msg d = d\<lparr>ud_err := Some (NewErrUnexpectedData msg)\<rparr>"

definition ud_nextLine :: "ulReqDecoder \<Rightarrow> (bool \<times> ulReqDecoder) result" where
  "ud_nextLine d0 =
     (let d = d0\<lparr>ud_nLine := ud_nLine d0 + 1\<rparr>
      in rbind (next_packet (ud_conn d)) (\<lambda>(l, p, err, c).
           let d = d\<lparr>ud_conn := c\<rparr>
           in case err of
                Some e \<Rightarrow> if e = EOF then Ok (False, ud_error ''EOF'' d) else Ok (False, d\<lparr>ud_err := Some e\<rparr>)
              | None \<Rightarrow> Ok (True, d\<lparr>ud_line := TrimSuffix p eol\<rparr>)))"

definition ud_readHash :: "ulReqDecoder \<Rightarrow> ObjectID option \<times> ulReqDecoder" where
  "ud_readHash d =
     (if length (ud_line d) < hashSize then (None, d\<lparr>ud_err := Some (Sentinel ''malformed hash'')\<rparr>)
      else case FromHex (unstr (take hashSize (ud_line d))) of
             (h, ok) \<Rightarrow> if \<not> ok then (None, ud_error ''invalid hash text'' d)
                        else (Some h, d\<lparr>ud_line := drop hashSize (ud_line d)\<rparr>))"

definition add_want :: "ObjectID \<Rightarrow> ulReqDecoder \<Rightarrow> ulReqDecoder" where
  "add_want h d = d\<lparr>ud_data := (ud_data d)\<lparr>ur_Wants := ur_Wants (ud_data d) @ [h]\<rparr>\<rparr>"

definition add_shallow :: "ObjectID \<Rightarrow> ulReqDecoder \<Rightarrow> ulReqDecoder" where
  "add_shallow h d = d\<lparr>ud_data := (ud_data d)\<lparr>ur_Shallows := ur_Shallows (ud_data d) @ [h]\<rparr>\<rparr>"

definition set_depth :: "Depth \<Rightarrow> ulReqDecoder \<Rightarrow> ulReqDecoder" where
  "set_depth dep d = d\<lparr>ud_data := (ud_data d)\<lparr>ur_Depth := Some dep\<rparr>\<rparr>"

definition decodeFirstWant :: "ulReqDecoder \<Rightarrow> (ulState option \<times> ulReqDecoder) result" where
  "decodeFirstWant d =
     rbind (ud_nextLine d) (\<lambda>(ok, d).
       if \<not> ok then Ok (None, d)
       else if \<not> HasPrefix (ud_line d) want then Ok (None, ud_error ''missing want prefix'' d)
       else case ud_readHash (d\<lparr>ud_line := TrimPrefix (ud_line d) want\<rparr>) of
              (None, d) \<Rightarrow> Ok (None, d)
            | (Some h, d) \<Rightarrow> Ok (Some DecodeCaps, add_want h d))"

definition decodeCaps :: "ulReqDecoder \<Rightarrow> (ulState option \<times> ulReqDecoder) result" where
  "decodeCaps d0 =
     (let d = d0\<lparr>ud_line := TrimPrefix (ud_line d0) sp\<rparr>;
          (caps, r) = List_Decode (ur_Capabilities (ud_data d)) (ud_line d);
          d = d\<lparr>ud_data := (ud_data d)\<lparr>ur_Capabilities := caps\<rparr>\<rparr>
      in case r of
           Ok u \<Rightarrow> Ok (Some DecodeOtherWants, d)
         | Error e \<Rightarrow> Ok (Some DecodeOtherWants, ud_error ''invalid capabilities'' d)
         | Panic \<Rightarrow> Panic)"

definition decodeOtherWants :: "ulReqDecoder \<Rightarrow> (ulState option \<times> ulReqDecoder) result" where
  "decodeOtherWants d =
     rbind (ud_nextLine d) (\<lambda>(ok, d).
       if \<not> ok then Ok (None, d)
       else if HasPrefix (ud_line d) shallow then Ok (Some DecodeShallow, d)
       else if HasPrefix (ud_line d) deepen then Ok (Some DecodeDeepen, d)
       else if length (ud_line d) = 0 then Ok (None, d)
       else if \<not> HasPrefix (ud_line d) want then Ok (None, ud_error ''unexpected payload while expecting a want'' d)
       else case ud_readHash (d\<lparr>ud_line := TrimPrefix (ud_line d) want\<rparr>) of
              (None, d) \<Rightarrow> Ok (None, d)
            | (Some h, d) \<Rightarrow> Ok (Some DecodeOtherWants, add_want h d))"

definition decodeShallow :: "ulReqDecoder \<Rightarrow> (ulState option \<times> ulReqDecoder) result" where
  "decodeShallow d =
     (if HasPrefix (ud_line d) deepen then Ok (Some DecodeDeepen, d)
      else if length (ud_line d) = 0 then Ok (None, d)
      else if \<not> HasPrefix (ud_line d) shallow
      then Ok (None, ud_error ''unexpected payload while expecting a shallow'' d)
      else case ud_readHash (d\<lparr>ud_line := TrimPrefix (ud_line d) shallow\<rparr>) of
             (None, d) \<Rightarrow> Ok (None, d)
           | (Some h, d) \<Rightarrow>
               rbind (ud_nextLine (add_shallow h d)) (\<lambda>(ok, d).
                 if \<not> ok then Ok (None, d) else Ok (Some DecodeShallow, d)))"

definition decodeDeepen :: "ulReqDecoder \<Rightarrow> (ulState option \<times> ulReqDecoder) result" where
  "decodeDeepen d =
     (if HasPrefix (ud_line d) deepenCommits then Ok (Some DecodeDeepenCommits, d)
      else if HasPrefix (ud_line d) deepenSince then Ok (Some DecodeDeepenSince, d)
      else if HasPrefix (ud_line d) deepenReference then Ok (Some DecodeDeepenReference, d)
      else if length (ud_line d) = 0 then Ok (None, d)
      else Ok (None, ud_error ''unexpected deepen specification'' d))"

text \<open>Parsing the number overwrites the sticky error, with nil when it succeeds.\<close>

definition decodeDeepenCommits :: "ulReqDecoder \<Rightarrow> (ulState option \<times> ulReqDecoder) result" where
  "decodeDeepenCommits d0 =
     (let d = d0\<lparr>ud_line := TrimPrefix (ud_line d0) deepenCommits\<rparr>
      in case ParseInt (unstr (ud_line d)) of
           Error e \<Rightarrow> Ok (None, d\<lparr>ud_err := Some e\<rparr>)
         | Panic \<Rightarrow> Panic
         | Ok n \<Rightarrow>
             if n < 0 then Ok (None, d\<lparr>ud_err := Some (Sentinel ''negative depth'')\<rparr>)
             else Ok (Some DecodeFlush, set_depth (DepthCommits n) (d\<lparr>ud_err := None\<rparr>)))"

definition decodeDeepenSince :: "ulReqDecoder \<Rightarrow> (ulState option \<times> ulReqDecoder) result" where
  "decodeDeepenSince d0 =
     (let d = d0\<lparr>ud_line := TrimPrefix (ud_line d0) deepenSince\<rparr>
      in case ParseInt (unstr (ud_line d)) of
           Error e \<Rightarrow> Ok (None, d\<lparr>ud_err := Some e\<rparr>)
         | Panic \<Rightarrow> Panic
         | Ok secs \<Rightarrow> Ok (Some DecodeFlush, set_depth (DepthSince secs) (d\<lparr>ud_err := None\<rparr>)))"

definition decodeDeepenReference :: "ulReqDecoder \<Rightarrow> (ulState option \<times> ulReqDecoder) result" where
  "decodeDeepenReference d0 =
     (let d = d0\<lparr>ud_line := TrimPrefix (ud_line d0) deepenReference\<rparr>
      in Ok (Some DecodeFlush, set_depth (DepthReference (unstr (ud_line d))) d))"

definition decodeFlush :: "ulReqDecoder \<Rightarrow> (ulState option \<times> ulReqDecoder) result" where
  "decodeFlush d =
     rbind (ud_nextLine d) (\<lambda>(ok, d).
       if \<not> ok then Ok (None, d)
       else if length (ud_line d) \<noteq> 0
       then Ok (None, d\<lparr>ud_err := Some (Sentinel ''unexpected payload while expecting a flush-pkt'')\<rparr>)
       else Ok (None, d))"

fun ulreq_step :: "ulState \<Rightarrow> ulReqDecoder \<Rightarrow> (ulState option \<times> ulReqDecoder) result" where
  "ulreq_step DecodeFirstWant = decodeFirstWant"
| "ulreq_step DecodeCaps = decodeCaps"
| "ulreq_step DecodeOtherWants = decodeOtherWants"
| "ulreq_step DecodeShallow = decodeShallow"
| "ulreq_step DecodeDeepen = decodeDeepen"
| "ulreq_step DecodeDeepenCommits = decodeDeepenCommits"
| "ulreq_step DecodeDeepenSince = decodeDeepenSince"
| "ulreq_step DecodeDeepenReference = decodeDeepenReference"
| "ulreq_step DecodeFlush = decodeFlush"

subsection \<open>The machine stops\<close>

fun ulreq_rank :: "ulState \<Rightarrow> nat" where
  "ulreq_rank DecodeFirstWant = 6"
| "ulreq_rank DecodeCaps = 5"
| "ulreq_rank DecodeOtherWants = 4"
| "ulreq_rank DecodeShallow = 3"
| "ulreq_rank DecodeDeepen = 2"
| "ulreq_rank DecodeFlush = 0"
| "ulreq_rank _ = 1"

lemma ud_nextLine_Ok:
  assumes "ud_nextLine d = Ok (True, d')"
  obtains l p c where "next_packet (ud_conn d) = Ok (l, p, None, c)"
    and "d' = d\<lparr>ud_nLine := ud_nLine d + 1, ud_conn := c, ud_line := TrimSuffix p eol\<rparr>"
proof -
  obtain l p err c where np: "next_packet (ud_conn d) = Ok (l, p, err, c)"
    using assms by (auto simp: ud_nextLine_def)
  with assms that [of l p c] show ?thesis by (cases err) (auto simp: ud_nextLine_def Let_def split: if_splits)
qed

lemma ud_nextLine_shrinks:
  "ud_nextLine d = Ok (True, d') \<Longrightarrow> length (fst (ud_conn d')) < length (fst (ud_conn d))"
  by (erule ud_nextLine_Ok) (simp add: next_packet_shrinks)

lemma ud_readHash_conn: "ud_readHash d = (h, d') \<Longrightarrow> ud_conn d' = ud_conn d"
  by (auto simp: ud_readHash_def ud_error_def split: if_splits prod.splits)

lemma ud_ops_conn [simp]:
  "ud_conn (add_want h d) = ud_conn d" "ud_conn (add_shallow h d) = ud_conn d" "ud_conn (set_depth dep d) = ud_conn d"
  "ud_conn (ud_error msg d) = ud_conn d"
  by (simp_all add: add_want_def add_shallow_def set_depth_def ud_error_def)

lemmas decode_defs = decodeFirstWant_def decodeCaps_def decodeOtherWants_def decodeShallow_def decodeDeepen_def
  decodeDeepenCommits_def decodeDeepenSince_def decodeDeepenReference_def decodeFlush_def

lemma ulreq_step_decreases:
  assumes "ulreq_step s d = Ok (Some s', d')"
  shows "length (fst (ud_conn d')) < length (fst (ud_conn d)) \<or>
    ud_conn d' = ud_conn d \<and> ulreq_rank s' < ulreq_rank s"
proof (cases s)
  case DecodeFirstWant
  with assms show ?thesis
    by (fastforce simp: decodeFirstWant_def dest: ud_nextLine_shrinks ud_readHash_conn split: if_splits option.splits prod.splits)
next
  case DecodeCaps
  with assms show ?thesis by (auto simp: decodeCaps_def Let_def split: result.splits prod.splits)
next
  case DecodeOtherWants
  with assms show ?thesis
    by (fastforce simp: decodeOtherWants_def dest: ud_nextLine_shrinks ud_readHash_conn split: if_splits option.splits prod.splits)
next
  case DecodeShallow
  with assms show ?thesis
    by (fastforce simp: decodeShallow_def dest: ud_nextLine_shrinks ud_readHash_conn split: if_splits option.splits prod.splits)
next
  case DecodeFlush
  with assms show ?thesis by (auto simp: decodeFlush_def split: if_splits)
qed (use assms in \<open>auto simp: decode_defs Let_def split: if_splits result.splits\<close>)

function ulreq_run :: "ulState \<Rightarrow> ulReqDecoder \<Rightarrow> ulReqDecoder result" where
  "ulreq_run s d =
     (case ulreq_step s d of
        Ok (None, d') \<Rightarrow> Ok d'
      | Ok (Some s', d') \<Rightarrow> ulreq_run s' d'
      | Error e \<Rightarrow> Error e
      | Panic \<Rightarrow> Panic)"
  by pat_completeness auto
termination
proof (relation "measures [\<lambda>(s, d). length (fst (ud_conn d)), \<lambda>(s, d). ulreq_rank s]", goal_cases)
  case 1
  show ?case by simp
next
  case (2 s d x o' s' d')
  then show ?case using ulreq_step_decreases [of s d] by (auto simp: mlex_prod_def)
qed


declare ulreq_run.simps [simp del]

definition UploadRequest_Decode :: "UploadRequest \<Rightarrow> conn \<Rightarrow> (UploadRequest \<times> conn \<times> error option) result" where
  "UploadRequest_Decode req c =
     rbind (ulreq_run DecodeFirstWant \<lparr>ud_conn = c, ud_line = [], ud_nLine = 0, ud_err = None, ud_data = req\<rparr>)
       (\<lambda>d. Ok (ud_data d, ud_conn d, ud_err d))"

section \<open>Encoding writes packets\<close>

lemma wbind_with_err_Ok [simp]: "with_err msg (out, Ok u) = (out, Ok u)"
  by (simp add: with_err_def)

lemma length_hash_line: "sha1_id h \<Longrightarrow> length (hash_line label h) = length label + 41"
  by (simp add: hash_line_def sha1_id_text(1))

lemma encodeHashes_packets:
  "\<forall>h \<in> set ws. sha1_id h \<Longrightarrow> length label \<le> 8 \<Longrightarrow>
    encodeHashes label msg l ws out = (out @ concat (map (\<lambda>h. packet (hash_line label h)) (dedup l ws)), Ok ())"
  by (induction label msg l ws out rule: encodeHashes.induct) (auto simp: Writef_packet length_hash_line)


section \<open>Decoding reads them\<close>

text \<open>A decoder behind another one: at \<open>s\<close> in the input, with the current line \<open>l\<close> and the data \<open>v\<close>.\<close>

definition at :: "bytes \<Rightarrow> bytes \<Rightarrow> UploadRequest \<Rightarrow> ulReqDecoder \<Rightarrow> bool" where
  "at s l v d \<longleftrightarrow> conn_ok (ud_conn d) \<and> fst (ud_conn d) = s \<and> ud_line d = l \<and> ud_data d = v \<and> ud_err d = None"

lemma nextLine_packet:
  assumes "at (message (p # ps) rest) l v d" and "plain_payload p"
  shows "\<exists>d'. ud_nextLine d = Ok (True, d') \<and> at (message ps rest) (TrimSuffix p eol) v d'"
  using assms next_packet_plain [of p "ud_conn d" "message ps rest"]
  by (auto simp: at_def message_simps ud_nextLine_def conn_ok_def Let_def)

lemma nextLine_flush:
  assumes "at (message [] rest) l v d"
  shows "\<exists>d'. ud_nextLine d = Ok (True, d') \<and> at rest [] v d'"
  using assms next_packet_flush [of "ud_conn d" rest]
  by (auto simp: at_def message_simps ud_nextLine_def conn_ok_def Let_def TrimSuffix_def HasSuffix_def)

lemma readHash_at:
  assumes "at s (str (ObjectID_String h) @ t) v d" and "sha1_id h"
  shows "\<exists>d'. ud_readHash d = (Some h, d') \<and> at s t v d'"
  using assms sha1_id_text [OF assms(2)] by (auto simp: at_def ud_readHash_def hashSize_def)

lemma plain_hash_line:
  assumes "sha1_id h" and "label = want \<or> label = shallow"
  shows "plain_payload (hash_line label h)"
proof -
  have "length (hash_line label h) \<le> MaxPayloadSize" using assms length_hash_line [OF assms(1), of label] by auto
  moreover have "\<not> HasPrefix errPrefix (take 4 (hash_line label h))"
    using assms(2) by (auto simp: hash_line_def want_def shallow_def errPrefix_def HasPrefix_def of_char_def)
  ultimately show ?thesis by (simp add: plain_payload_def)
qed

lemma labels_differ:
  "HasPrefix (want @ s) want" "\<not> HasPrefix (want @ s) shallow" "\<not> HasPrefix (want @ s) deepen"
  "HasPrefix (shallow @ s) shallow" "\<not> HasPrefix (shallow @ s) deepen"
  "HasPrefix (deepenCommits @ s) deepen" "HasPrefix (deepenSince @ s) deepen" "HasPrefix (deepenReference @ s) deepen"
  "\<not> HasPrefix (deepenCommits @ s) shallow" "\<not> HasPrefix (deepenSince @ s) shallow" "\<not> HasPrefix (deepenReference @ s) shallow"
  "\<not> HasPrefix (deepenSince @ s) deepenCommits" "\<not> HasPrefix (deepenReference @ s) deepenCommits"
  "\<not> HasPrefix (deepenReference @ s) deepenSince" "HasPrefix (deepenCommits @ s) deepenCommits"
  "HasPrefix (deepenSince @ s) deepenSince" "HasPrefix (deepenReference @ s) deepenReference"
  "want @ s \<noteq> []" "shallow @ s \<noteq> []"
  by (simp_all add: HasPrefix_def want_def shallow_def deepen_def deepenCommits_def deepenSince_def deepenReference_def of_char_def)

lemma TrimSuffix_hash_line: "TrimSuffix (hash_line label h) eol = label @ str (ObjectID_String h)"
  using TrimSuffix_eol [of "label @ str (ObjectID_String h)"] by (simp add: hash_line_def)

lemma nextLine_hash:
  assumes "at (message (hash_line label h # ps) rest) l v d" and "sha1_id h" and "label = want \<or> label = shallow"
  shows "\<exists>d'. ud_nextLine d = Ok (True, d') \<and> at (message ps rest) (label @ str (ObjectID_String h)) v d'"
  using nextLine_packet [OF assms(1) plain_hash_line [OF assms(2,3)]] by (simp add: TrimSuffix_hash_line)

lemma readHash_label:
  assumes "at s (label @ str (ObjectID_String h)) v d" and "sha1_id h"
  shows "\<exists>d'. ud_readHash (d\<lparr>ud_line := TrimPrefix (ud_line d) label\<rparr>) = (Some h, d') \<and> at s [] v d'"
  using assms readHash_at [of s h "[]" v "d\<lparr>ud_line := TrimPrefix (ud_line d) label\<rparr>"] by (simp add: at_def)

lemma run_wants:
  assumes "\<forall>h \<in> set hs. sha1_id h" and "at (message (map (hash_line want) hs @ ps) rest) l v d"
  shows "\<exists>d' l'. ulreq_run DecodeOtherWants d = ulreq_run DecodeOtherWants d' \<and>
    at (message ps rest) l' (v\<lparr>ur_Wants := ur_Wants v @ hs\<rparr>) d'"
  using assms
proof (induction hs arbitrary: l v d)
  case (Cons h hs)
  let ?s = "message (map (hash_line want) hs @ ps) rest"
  have h: "sha1_id h" using Cons.prems by simp
  obtain d1 where d1: "ud_nextLine d = Ok (True, d1)" "at ?s (want @ str (ObjectID_String h)) v d1"
    using nextLine_hash [OF _ h, of want] Cons.prems(2) by force
  obtain d2 where d2: "ud_readHash (d1\<lparr>ud_line := TrimPrefix (ud_line d1) want\<rparr>) = (Some h, d2)" "at ?s [] v d2"
    using readHash_label [OF d1(2) h] by blast
  have line: "ud_line d1 = want @ str (ObjectID_String h)" using d1(2) by (simp add: at_def)
  have "ulreq_step DecodeOtherWants d = Ok (Some DecodeOtherWants, add_want h d2)"
    using d1(1) d2(1) by (simp add: decodeOtherWants_def line labels_differ)
  then have run: "ulreq_run DecodeOtherWants d = ulreq_run DecodeOtherWants (add_want h d2)"
    by (subst ulreq_run.simps) simp
  have "at ?s [] (v\<lparr>ur_Wants := ur_Wants v @ [h]\<rparr>) (add_want h d2)"
    using d2(2) by (simp add: at_def add_want_def)
  from Cons.IH [OF _ this] Cons.prems(1) run show ?case by auto
qed (auto simp: at_def)

lemma shallow_step:
  assumes "at s (shallow @ str (ObjectID_String h)) v d" and "sha1_id h"
  shows "\<exists>d'. at s [] (v\<lparr>ur_Shallows := ur_Shallows v @ [h]\<rparr>) d' \<and>
    (\<forall>d''. ud_nextLine d' = Ok (True, d'') \<longrightarrow> ulreq_run DecodeShallow d = ulreq_run DecodeShallow d'')"
proof -
  obtain d1 where d1: "ud_readHash (d\<lparr>ud_line := TrimPrefix (ud_line d) shallow\<rparr>) = (Some h, d1)" "at s [] v d1"
    using readHash_label [OF assms] by blast
  have line: "ud_line d = shallow @ str (ObjectID_String h)" using assms(1) by (simp add: at_def)
  have "ulreq_step DecodeShallow d = rbind (ud_nextLine (add_shallow h d1)) (\<lambda>(ok, d).
      if \<not> ok then Ok (None, d) else Ok (Some DecodeShallow, d))"
    using d1(1) by (simp add: decodeShallow_def line labels_differ)
  then have "ud_nextLine (add_shallow h d1) = Ok (True, d'') \<Longrightarrow> ulreq_run DecodeShallow d = ulreq_run DecodeShallow d''" for d''
    by (subst ulreq_run.simps) simp
  moreover have "at s [] (v\<lparr>ur_Shallows := ur_Shallows v @ [h]\<rparr>) (add_shallow h d1)"
    using d1(2) by (simp add: at_def add_shallow_def)
  ultimately show ?thesis by blast
qed

lemma run_shallows:
  assumes "\<forall>x \<in> set (h # hs). sha1_id x" and "\<forall>p \<in> set ps. plain_payload p"
    and "at (message (map (hash_line shallow) hs @ ps) rest) (shallow @ str (ObjectID_String h)) v d"
  shows "\<exists>d'. ulreq_run DecodeShallow d = ulreq_run DecodeShallow d' \<and>
    (case ps of
       [] \<Rightarrow> at rest [] (v\<lparr>ur_Shallows := ur_Shallows v @ h # hs\<rparr>) d'
     | p # ps' \<Rightarrow> at (message ps' rest) (TrimSuffix p eol) (v\<lparr>ur_Shallows := ur_Shallows v @ h # hs\<rparr>) d')"
  using assms
proof (induction hs arbitrary: h v d)
  case Nil
  obtain d1 where d1: "at (message ps rest) [] (v\<lparr>ur_Shallows := ur_Shallows v @ [h]\<rparr>) d1"
    "\<And>d''. ud_nextLine d1 = Ok (True, d'') \<Longrightarrow> ulreq_run DecodeShallow d = ulreq_run DecodeShallow d''"
    using shallow_step [OF Nil.prems(3)] Nil.prems(1) by auto
  show ?case
  proof (cases ps)
    case Nil
    with d1 nextLine_flush [of rest] show ?thesis by fastforce
  next
    case (Cons p ps')
    with Nil.prems(2) have "plain_payload p" by simp
    from nextLine_packet [OF _ this] d1 Cons show ?thesis by fastforce
  qed
next
  case (Cons h' hs)
  let ?s = "message (map (hash_line shallow) hs @ ps) rest"
  obtain d1 where d1: "at (message (map (hash_line shallow) (h' # hs) @ ps) rest) [] (v\<lparr>ur_Shallows := ur_Shallows v @ [h]\<rparr>) d1"
    "\<And>d''. ud_nextLine d1 = Ok (True, d'') \<Longrightarrow> ulreq_run DecodeShallow d = ulreq_run DecodeShallow d''"
    using shallow_step [OF Cons.prems(3)] Cons.prems(1) by auto
  obtain d2 where d2: "ud_nextLine d1 = Ok (True, d2)"
    "at ?s (shallow @ str (ObjectID_String h')) (v\<lparr>ur_Shallows := ur_Shallows v @ [h]\<rparr>) d2"
    using nextLine_hash [of shallow h' "map (hash_line shallow) hs @ ps"] d1(1) Cons.prems(1) by force
  from Cons.IH [OF _ Cons.prems(2) d2(2)] Cons.prems(1) d1(2) [OF d2(1)] show ?case by (cases ps) auto
qed

text \<open>The line that asks for a depth, if there is one.\<close>

definition depth_lines :: "Depth option \<Rightarrow> bytes list" where
  "depth_lines dep =
     (case dep of
        Some (DepthCommits n) \<Rightarrow> if n \<noteq> 0 then [deepenCommits @ str (FormatInt n) @ eol] else []
      | Some (DepthSince t) \<Rightarrow> [deepenSince @ str (FormatInt t) @ eol]
      | Some (DepthReference r) \<Rightarrow> [deepenReference @ str r @ eol]
      | None \<Rightarrow> [])"

definition depth_ok :: "Depth option \<Rightarrow> bool" where
  "depth_ok dep =
     (case dep of
        Some (DepthCommits n) \<Rightarrow> 0 \<le> n \<and> n < 2 ^ 63
      | Some (DepthSince t) \<Rightarrow> - (2 ^ 63) \<le> t \<and> t < 2 ^ 63
      | Some (DepthReference r) \<Rightarrow> length r < 65000
      | None \<Rightarrow> False)"

lemma depth_line_cases:
  assumes "depth_lines dep = [p]" and "depth_ok dep"
  obtains (commits) n where "dep = Some (DepthCommits n)" "p = deepenCommits @ str (FormatInt n) @ eol" "0 \<le> n" "n < 2 ^ 63"
    | (since) t where "dep = Some (DepthSince t)" "p = deepenSince @ str (FormatInt t) @ eol" "- (2 ^ 63) \<le> t" "t < 2 ^ 63"
    | (ref) r where "dep = Some (DepthReference r)" "p = deepenReference @ str r @ eol" "length r < 65000"
  using assms by (cases dep) (auto simp: depth_lines_def depth_ok_def split: Depth.splits if_splits)

lemma run_deepen_flush:
  assumes "at (message [] rest) l v d"
  shows "\<exists>d'. ulreq_run DecodeFlush d = Ok d' \<and> at rest [] v d'"
proof -
  obtain d1 where "ud_nextLine d = Ok (True, d1)" "at rest [] v d1" using nextLine_flush [OF assms] by blast
  then show ?thesis by (subst ulreq_run.simps) (simp add: decodeFlush_def at_def)
qed

lemma run_deepen:
  assumes "depth_lines dep = [p]" and "depth_ok dep" and "at (message [] rest) (TrimSuffix p eol) v d"
  shows "\<exists>d'. ulreq_run DecodeDeepen d = Ok d' \<and> at rest [] (v\<lparr>ur_Depth := dep\<rparr>) d'"
proof -
  have line: "ud_line d = TrimSuffix p eol" using assms(3) by (simp add: at_def)
  have trim: "TrimSuffix (lab @ s @ eol) eol = lab @ s" for lab s :: bytes using TrimSuffix_eol [of "lab @ s"] by simp
  from assms(1,2) obtain d1 where "ulreq_run DecodeDeepen d = ulreq_run DecodeFlush d1"
    and "\<exists>l. at (message [] rest) l (v\<lparr>ur_Depth := dep\<rparr>) d1"
  proof (cases rule: depth_line_cases)
    case (commits n)
    let ?d1 = "set_depth (DepthCommits n) (d\<lparr>ud_line := str (FormatInt n), ud_err := None\<rparr>)"
    have "ulreq_run DecodeDeepen d = ulreq_run DecodeDeepenCommits d"
      by (subst ulreq_run.simps) (simp add: decodeDeepen_def line trim commits(2) labels_differ)
    also have "\<dots> = ulreq_run DecodeFlush ?d1"
      using commits(3,4) by (subst ulreq_run.simps) (simp add: decodeDeepenCommits_def line trim commits(2) ParseInt_FormatInt)
    finally show ?thesis using that [of ?d1] assms(3) commits(1) by (auto simp: at_def set_depth_def)
  next
    case (since t)
    let ?d1 = "set_depth (DepthSince t) (d\<lparr>ud_line := str (FormatInt t), ud_err := None\<rparr>)"
    have "ulreq_run DecodeDeepen d = ulreq_run DecodeDeepenSince d"
      by (subst ulreq_run.simps) (simp add: decodeDeepen_def line trim since(2) labels_differ)
    also have "\<dots> = ulreq_run DecodeFlush ?d1"
      using since(3,4) by (subst ulreq_run.simps) (simp add: decodeDeepenSince_def line trim since(2) ParseInt_FormatInt)
    finally show ?thesis using that [of ?d1] assms(3) since(1) by (auto simp: at_def set_depth_def)
  next
    case (ref r)
    let ?d1 = "set_depth (DepthReference r) (d\<lparr>ud_line := str r\<rparr>)"
    have "ulreq_run DecodeDeepen d = ulreq_run DecodeDeepenReference d"
      by (subst ulreq_run.simps) (simp add: decodeDeepen_def line trim ref(2) labels_differ)
    also have "\<dots> = ulreq_run DecodeFlush ?d1"
      by (subst ulreq_run.simps) (simp add: decodeDeepenReference_def line trim ref(2))
    finally show ?thesis using that [of ?d1] assms(3) ref(1) by (auto simp: at_def set_depth_def)
  qed
  then show ?thesis using run_deepen_flush by metis
qed

lemma length_FormatNat: "n < 10 ^ Suc k \<Longrightarrow> length (FormatNat 10 n) \<le> Suc k"
proof (induction k arbitrary: n)
  case (Suc k)
  then have "n div 10 < 10 ^ Suc k" by (simp add: less_mult_imp_div_less)
  with Suc.IH [of "n div 10"] show ?case by (subst FormatNat.simps) simp
qed (subst FormatNat.simps, simp)

lemma length_FormatInt:
  assumes "- (2 ^ 63) \<le> i" and "i < 2 ^ 63"
  shows "length (FormatInt i) \<le> 20"
proof -
  have "nat i < 10 ^ Suc 18" "nat (- i) < 10 ^ Suc 18" using assms by simp_all
  then have "length (FormatNat 10 (nat i)) \<le> 19" "length (FormatNat 10 (nat (- i))) \<le> 19"
    using length_FormatNat [of "nat i" 18] length_FormatNat [of "nat (- i)" 18] by simp_all
  then show ?thesis by (simp add: FormatInt_def)
qed

lemma depth_lines_plain:
  assumes "depth_ok dep" and "depth_lines dep = [p]"
  shows "plain_payload p" and "HasPrefix (TrimSuffix p eol) deepen" and "\<not> HasPrefix (TrimSuffix p eol) shallow"
proof -
  from assms(2,1) obtain lab s where p: "p = lab @ s @ eol"
    and lab: "lab = deepenCommits \<or> lab = deepenSince \<or> lab = deepenReference" and len: "length s \<le> 65000"
  proof (cases rule: depth_line_cases)
    case (commits n)
    then show ?thesis using that [of deepenCommits "str (FormatInt n)"] length_FormatInt [of n] by simp
  next
    case (since t)
    then show ?thesis using that [of deepenSince "str (FormatInt t)"] length_FormatInt [of t] by simp
  next
    case (ref r)
    then show ?thesis using that [of deepenReference "str r"] by simp
  qed
  have "TrimSuffix p eol = lab @ s" unfolding p using TrimSuffix_eol [of "lab @ s"] by simp
  with lab show "HasPrefix (TrimSuffix p eol) deepen" "\<not> HasPrefix (TrimSuffix p eol) shallow"
    by (auto simp: labels_differ)
  have "\<not> HasPrefix errPrefix (take 4 p)"
    unfolding p using lab by (auto simp: deepenCommits_def deepenSince_def deepenReference_def errPrefix_def HasPrefix_def of_char_def)
  moreover have "length p \<le> MaxPayloadSize" using p lab len by auto
  ultimately show "plain_payload p" by (simp add: plain_payload_def)
qed

lemma depth_lines_cases: "depth_ok dep \<Longrightarrow> depth_lines dep = [] \<and> dep = Some (DepthCommits 0) \<or> (\<exists>p. depth_lines dep = [p])"
  by (cases dep) (auto simp: depth_lines_def depth_ok_def split: Depth.splits)

lemma encodeDepth_packets:
  assumes "depth_ok (ur_Depth v)"
  shows "encodeDepth v out = (out @ concat (map packet (depth_lines (ur_Depth v))), Ok ())"
proof (cases "depth_lines (ur_Depth v) = []")
  case True
  with assms show ?thesis
    by (auto simp: encodeDepth_def depth_lines_def depth_ok_def split: option.splits Depth.splits if_splits)
next
  case False
  then obtain p where p: "depth_lines (ur_Depth v) = [p]" using depth_lines_cases [OF assms] by blast
  with depth_lines_plain(1) [OF assms p] have "length p \<le> MaxPayloadSize" by (simp add: plain_payload_def)
  with assms p show ?thesis
    by (auto simp: encodeDepth_def depth_lines_def depth_ok_def Writef_packet split: option.splits Depth.splits if_splits)
qed

lemma run_tail:
  assumes "\<forall>h \<in> set hs. sha1_id h" and "depth_ok dep"
    and "at (message (map (hash_line shallow) hs @ depth_lines dep) rest) l v d" and "ur_Depth v = Some (DepthCommits 0)"
  shows "\<exists>d'. ulreq_run DecodeOtherWants d = Ok d' \<and> at rest [] (v\<lparr>ur_Shallows := ur_Shallows v @ hs, ur_Depth := dep\<rparr>) d'"
proof (cases hs)
  case Nil
  show ?thesis
  proof (cases "depth_lines dep = []")
    case True
    with depth_lines_cases [OF assms(2)] have dep: "dep = Some (DepthCommits 0)" by auto
    obtain d1 where d1: "ud_nextLine d = Ok (True, d1)" "at rest [] v d1"
      using nextLine_flush [of rest l v d] assms(3) Nil True by auto
    then have "ud_line d1 = []" by (simp add: at_def)
    with d1 have "ulreq_run DecodeOtherWants d = Ok d1"
      by (subst ulreq_run.simps) (simp add: decodeOtherWants_def HasPrefix_def shallow_def deepen_def)
    with d1(2) dep assms(4) Nil show ?thesis by (simp add: at_def)
  next
    case False
    then obtain p where p: "depth_lines dep = [p]" using depth_lines_cases [OF assms(2)] by blast
    note plain = depth_lines_plain [OF assms(2) p]
    obtain d1 where d1: "ud_nextLine d = Ok (True, d1)" "at (message [] rest) (TrimSuffix p eol) v d1"
      using nextLine_packet [OF _ plain(1), of "[]" rest l v d] assms(3) Nil p by auto
    then have "ulreq_run DecodeOtherWants d = ulreq_run DecodeDeepen d1"
      using plain by (subst ulreq_run.simps) (simp add: decodeOtherWants_def at_def)
    with run_deepen [OF p assms(2) d1(2)] Nil show ?thesis by simp
  qed
next
  case (Cons h hs')
  obtain d1 where d1: "ud_nextLine d = Ok (True, d1)"
    "at (message (map (hash_line shallow) hs' @ depth_lines dep) rest) (shallow @ str (ObjectID_String h)) v d1"
    using nextLine_hash [of shallow h "map (hash_line shallow) hs' @ depth_lines dep"] assms(1,3) Cons by force
  then have run: "ulreq_run DecodeOtherWants d = ulreq_run DecodeShallow d1"
    by (subst ulreq_run.simps) (simp add: decodeOtherWants_def at_def labels_differ)
  have plain: "\<forall>p \<in> set (depth_lines dep). plain_payload p"
    using depth_lines_cases [OF assms(2)] depth_lines_plain(1) [OF assms(2)] by auto
  obtain d2 where d2: "ulreq_run DecodeShallow d1 = ulreq_run DecodeShallow d2"
    "case depth_lines dep of
       [] \<Rightarrow> at rest [] (v\<lparr>ur_Shallows := ur_Shallows v @ h # hs'\<rparr>) d2
     | p # ps' \<Rightarrow> at (message ps' rest) (TrimSuffix p eol) (v\<lparr>ur_Shallows := ur_Shallows v @ h # hs'\<rparr>) d2"
    using run_shallows [OF _ plain d1(2)] assms(1) Cons by auto
  show ?thesis
  proof (cases "depth_lines dep = []")
    case True
    with depth_lines_cases [OF assms(2)] have dep: "dep = Some (DepthCommits 0)" by auto
    have at: "at rest [] (v\<lparr>ur_Shallows := ur_Shallows v @ h # hs'\<rparr>) d2" using d2(2) True by simp
    then have "ulreq_run DecodeShallow d2 = Ok d2"
      by (subst ulreq_run.simps) (simp add: decodeShallow_def at_def HasPrefix_def deepen_def)
    with run d2(1) at dep assms(4) Cons show ?thesis by (simp add: at_def)
  next
    case False
    then obtain p where p: "depth_lines dep = [p]" using depth_lines_cases [OF assms(2)] by blast
    with d2(2) have at: "at (message [] rest) (TrimSuffix p eol) (v\<lparr>ur_Shallows := ur_Shallows v @ h # hs'\<rparr>) d2" by simp
    then have "ulreq_run DecodeShallow d2 = ulreq_run DecodeDeepen d2"
      using depth_lines_plain(2) [OF assms(2) p] by (subst ulreq_run.simps) (simp add: decodeShallow_def at_def)
    with run d2(1) run_deepen [OF p assms(2) at] Cons show ?thesis by simp
  qed
qed


section \<open>The round trip\<close>

lemma Compare_zeros: "n \<le> length bs \<Longrightarrow> Compare (replicate n (0 :: byte)) bs \<le> 0"
proof (induction n arbitrary: bs)
  case 0
  then show ?case by (cases bs) auto
next
  case (Suc n)
  then obtain b cs where "bs = b # cs" by (cases bs) auto
  with Suc show ?case by (simp add: word_gt_0)
qed

lemma hash_le_ZeroHash:
  assumes "sha1_id h"
  shows "hash_le ZeroHash h"
proof -
  have "length (ObjectID_Bytes h) = 20"
    using assms by (simp add: sha1_id_def wf_oid_def ObjectID_Bytes_def ObjectID_Size_def SHA1Size_def SHA256Size_def)
  moreover have "ObjectID_Bytes ZeroHash = replicate 20 0"
    by (simp add: ObjectID_Bytes_def ObjectID_Size_def ZeroHash_def empty_hash_def SHA1Size_def SHA256Size_def)
  ultimately show ?thesis using Compare_zeros [of 20 "ObjectID_Bytes h"] by (simp add: hash_le_Compare)
qed

lemma dedup_Zero:
  assumes "\<forall>h \<in> set hs. sha1_id h"
  shows "distinct (dedup ZeroHash (HashesSort hs))" and "set (dedup ZeroHash (HashesSort hs)) = set hs - {ZeroHash}"
proof -
  have "sorted_wrt hash_le (ZeroHash # HashesSort hs)" using assms hash_le_ZeroHash sorted_HashesSort by simp
  from dedup_distinct [OF this] assms sha1_id_ZeroHash
  have "distinct (ZeroHash # dedup ZeroHash (HashesSort hs))"
    "set (ZeroHash # dedup ZeroHash (HashesSort hs)) = insert ZeroHash (set hs)"
    by auto
  then show "distinct (dedup ZeroHash (HashesSort hs))" "set (dedup ZeroHash (HashesSort hs)) = set hs - {ZeroHash}"
    using dedup_subset [of ZeroHash "HashesSort hs"] by auto
qed

definition request_ok :: "UploadRequest \<Rightarrow> bool" where
  "request_ok v \<longleftrightarrow>
     ur_Wants v \<noteq> [] \<and> (\<forall>h \<in> set (ur_Wants v) \<union> set (ur_Shallows v). sha1_id h) \<and>
     caps_inv (ur_Capabilities v) \<and> caps_tokens (ur_Capabilities v) \<and>
     (\<forall>s. List_String (ur_Capabilities v) = Ok s \<longrightarrow> length s \<le> 65000) \<and> depth_ok (ur_Depth v)"

text \<open>The first line: a want with the capabilities, when there are any.\<close>

definition first_line :: "ObjectID \<Rightarrow> string \<Rightarrow> bytes" where
  "first_line w s = want @ str (ObjectID_String w) @ (if s = [] then [] else sp @ str s) @ eol"

lemma plain_first_line: "sha1_id w \<Longrightarrow> length s \<le> 65000 \<Longrightarrow> plain_payload (first_line w s)"
  by (simp add: plain_payload_def first_line_def sha1_id_text(1) want_def errPrefix_def HasPrefix_def of_char_def eol_def sp_def)

lemma List_String_empty:
  assumes "caps_inv l" and "caps_tokens l" and "List_String l = Ok s"
  shows "s = [] \<longleftrightarrow> List_IsEmpty l"
proof -
  let ?parts = "concat (map (\<lambda>c. cap_parts c (List_Get l c)) (cl_sort l))"
  have s: "s = JoinChar ?parts (CHR '' '')"
    using List_String_parts [of "cl_sort l" l] assms by (auto simp: List_String_def caps_inv_def)
  show ?thesis
  proof (cases "cl_sort l")
    case Nil
    then show ?thesis by (simp add: s List_IsEmpty_def)
  next
    case (Cons c cs)
    have toks: "token c \<and> (\<forall>v \<in> set (List_Get l c). token v)" if "c \<in> set (cl_sort l)" for c
      using assms(2) that by (simp add: caps_tokens_def)
    have ne: "p \<noteq> []" if "p \<in> set ?parts" for p
    proof -
      from that obtain c where "c \<in> set (cl_sort l)" "p \<in> set (cap_parts c (List_Get l c))" by auto
      with toks cap_parts_tokens(1) [of c "List_Get l c"] show ?thesis by (auto simp: token_def)
    qed
    have "?parts \<noteq> []" using Cons cap_parts_tokens(2) [of c "List_Get l c"] toks [of c] by simp
    from JoinChar_ends(1) [OF this] ne have "s \<noteq> []" unfolding s by blast
    with Cons show ?thesis by (simp add: List_IsEmpty_def)
  qed
qed

lemma encodeFirstWant_packet:
  assumes "request_ok v" and "ur_Wants v = w # ws" and "List_String (ur_Capabilities v) = Ok s"
  shows "encodeFirstWant v out = (out @ packet (first_line w s), Ok ())"
proof -
  have "sha1_id w" "length s \<le> 65000" using assms by (auto simp: request_ok_def)
  from plain_first_line [OF this] have len: "length (first_line w s) \<le> MaxPayloadSize" by (simp add: plain_payload_def)
  have "s = [] \<longleftrightarrow> List_IsEmpty (ur_Capabilities v)" using assms List_String_empty by (auto simp: request_ok_def)
  then show ?thesis using assms len
    by (auto simp: encodeFirstWant_def first_line_def hash_line_def Writef_packet)
qed

lemma run_first_caps:
  assumes "sha1_id w" and "length s \<le> 65000" and "List_Decode (ur_Capabilities v) (str s) = (caps, r)" and "r \<noteq> Panic"
    and "at (message (first_line w s # ps) rest) l v d"
  shows "\<exists>d' l'. ulreq_run DecodeFirstWant d =
      ulreq_run DecodeOtherWants (if r = Ok () then d' else d'\<lparr>ud_err := Some (NewErrUnexpectedData ''invalid capabilities'')\<rparr>) \<and>
    at (message ps rest) l' (v\<lparr>ur_Wants := ur_Wants v @ [w], ur_Capabilities := caps\<rparr>) d'"
proof -
  let ?t = "if s = [] then [] else sp @ str s"
  have trim: "TrimSuffix (first_line w s) eol = want @ str (ObjectID_String w) @ ?t"
    using TrimSuffix_eol [of "want @ str (ObjectID_String w) @ ?t"] by (simp add: first_line_def)
  obtain d1 where d1: "ud_nextLine d = Ok (True, d1)" "at (message ps rest) (want @ str (ObjectID_String w) @ ?t) v d1"
    using nextLine_packet [OF assms(5) plain_first_line [OF assms(1,2)]] trim by auto
  then have "at (message ps rest) (str (ObjectID_String w) @ ?t) v (d1\<lparr>ud_line := TrimPrefix (ud_line d1) want\<rparr>)"
    by (simp add: at_def)
  from readHash_at [OF this assms(1)] obtain d2 where
    d2: "ud_readHash (d1\<lparr>ud_line := TrimPrefix (ud_line d1) want\<rparr>) = (Some w, d2)" "at (message ps rest) ?t v d2"
    by blast
  have line: "ud_line d1 = want @ str (ObjectID_String w) @ ?t" using d1(2) by (simp add: at_def)
  define d3 where "d3 = add_want w d2"
  define d4 where "d4 = d3\<lparr>ud_line := str s, ud_data := (ud_data d3)\<lparr>ur_Capabilities := caps\<rparr>\<rparr>"
  let ?d5 = "if r = Ok () then d4 else d4\<lparr>ud_err := Some (NewErrUnexpectedData ''invalid capabilities'')\<rparr>"
  have "ulreq_run DecodeFirstWant d = ulreq_run DecodeCaps d3"
    using d1(1) d2(1) labels_differ(1) by (subst ulreq_run.simps) (simp add: decodeFirstWant_def line d3_def)
  also have "ulreq_step DecodeCaps d3 = Ok (Some DecodeOtherWants, ?d5)"
  proof -
    have "TrimPrefix ?t sp = str s" by (simp add: TrimPrefix_def HasPrefix_def sp_def)
    moreover have "ud_line d3 = ?t" "ur_Capabilities (ud_data d3) = ur_Capabilities v"
      using d2(2) by (auto simp: at_def d3_def add_want_def)
    ultimately show ?thesis using assms(3,4) by (cases r) (simp_all add: decodeCaps_def d4_def ud_error_def)
  qed
  then have "ulreq_run DecodeCaps d3 = ulreq_run DecodeOtherWants ?d5" by (subst ulreq_run.simps) simp
  finally have run: "ulreq_run DecodeFirstWant d = ulreq_run DecodeOtherWants ?d5" .
  have "at (message ps rest) (str s) (v\<lparr>ur_Wants := ur_Wants v @ [w], ur_Capabilities := caps\<rparr>) d4"
    using d2(2) by (auto simp: at_def d3_def d4_def add_want_def)
  with run show ?thesis by blast
qed

lemma run_first:
  assumes "sha1_id w" and "length s \<le> 65000" and "List_Decode (ur_Capabilities v) (str s) = (caps, Ok ())"
    and "at (message (first_line w s # ps) rest) l v d"
  shows "\<exists>d' l'. ulreq_run DecodeFirstWant d = ulreq_run DecodeOtherWants d' \<and>
    at (message ps rest) l' (v\<lparr>ur_Wants := ur_Wants v @ [w], ur_Capabilities := caps\<rparr>) d'"
  using run_first_caps [OF assms(1,2,3) _ assms(4)] by simp

definition request_lines :: "ObjectID list \<Rightarrow> ObjectID list \<Rightarrow> Depth option \<Rightarrow> bytes list" where
  "request_lines ws sh dep = map (hash_line want) ws @ map (hash_line shallow) sh @ depth_lines dep"

definition filter_lines :: "string \<Rightarrow> bytes list" where
  "filter_lines f = (if f = [] then [] else [str ''filter '' @ str f @ eol])"

lemma UploadRequest_Encode_message:
  assumes ok: "request_ok v" and flen: "length (ur_Filter v) \<le> 65000"
    and sort: "HashesSort (ur_Wants v) = w # ws" and s: "List_String (ur_Capabilities v) = Ok s"
  shows "\<exists>v'. UploadRequest_Encode v out0 =
    (v', out0 @ message (first_line w s #
       request_lines (dedup w ws) (dedup ZeroHash (HashesSort (ur_Shallows v))) (ur_Depth v) @ filter_lines (ur_Filter v)) [], Ok ())"
proof -
  define v1 where "v1 = v\<lparr>ur_Wants := w # ws\<rparr>"
  define v2 where "v2 = v1\<lparr>ur_Shallows := HashesSort (ur_Shallows v1)\<rparr>"
  have wset: "set (w # ws) = set (ur_Wants v)" using set_HashesSort [of "ur_Wants v"] sort by simp
  have ok1: "request_ok v1" using ok wset by (auto simp: request_ok_def v1_def)
  then have ws: "\<forall>h \<in> set ws. sha1_id h" by (auto simp: request_ok_def v1_def)
  have first: "encodeFirstWant v1 out0 = (out0 @ packet (first_line w s), Ok ())"
    using encodeFirstWant_packet [OF ok1] s by (simp add: v1_def)
  have wants: "encodeAdditionalWants v1 out = (out @ concat (map packet (map (hash_line want) (dedup w ws))), Ok ())" for out
    using encodeHashes_packets [OF ws, of want] by (simp add: encodeAdditionalWants_def v1_def comp_def)
  have shallows: "encodeShallows v2 out =
      (out @ concat (map packet (map (hash_line shallow) (dedup ZeroHash (HashesSort (ur_Shallows v))))), Ok ())" for out
    using encodeHashes_packets [of "HashesSort (ur_Shallows v)" shallow] ok
    by (simp add: request_ok_def encodeShallows_def v1_def v2_def comp_def)
  have dep: "encodeDepth v2 out = (out @ concat (map packet (depth_lines (ur_Depth v))), Ok ())" for out
    using encodeDepth_packets [of v2] ok by (simp add: request_ok_def v1_def v2_def)
  have filt: "encodeFilter v2 out = (out @ concat (map packet (filter_lines (ur_Filter v))), Ok ())" for out
    using flen by (simp add: encodeFilter_def filter_lines_def Writef_packet v1_def v2_def eol_def)
  have "UploadRequest_Encode v out0 = (v2, wbind (wbind (wbind (encodeShallows v2
      (out0 @ packet (first_line w s) @ concat (map packet (map (hash_line want) (dedup w ws)))))
      (encodeDepth v2)) (encodeFilter v2)) encodeFlush)"
    using first wants ok by (simp add: UploadRequest_Encode_def sort request_ok_def Let_def flip: v1_def v2_def)
  then show ?thesis
    by (simp only: shallows dep filt wbind_Ok encodeFlush_def WriteFlush_def message_def request_lines_def) simp
qed

lemma UploadRequest_run_message:
  assumes ids: "sha1_id w" "\<forall>h \<in> set ws. sha1_id h" "\<forall>h \<in> set sh. sha1_id h" and depth: "depth_ok dep"
    and s: "length s \<le> 65000" "List_Decode NewList (str s) = (caps, Ok ())"
    and at0: "at (message (first_line w s # request_lines ws sh dep) rest) [] NewUploadRequest d"
  shows "\<exists>d'. ulreq_run DecodeFirstWant d = Ok d' \<and>
    at rest [] (NewUploadRequest\<lparr>ur_Wants := w # ws, ur_Capabilities := caps, ur_Shallows := sh, ur_Depth := dep\<rparr>) d'"
proof -
  let ?v1 = "NewUploadRequest\<lparr>ur_Wants := w # ws, ur_Capabilities := caps\<rparr>"
  obtain d1 l1 where d1: "ulreq_run DecodeFirstWant d = ulreq_run DecodeOtherWants d1"
    "at (message (request_lines ws sh dep) rest) l1 (NewUploadRequest\<lparr>ur_Wants := [w], ur_Capabilities := caps\<rparr>) d1"
    using run_first [OF ids(1) s(1) _ at0, of caps] s(2) by (auto simp: NewUploadRequest_def)
  obtain d2 l2 where d2: "ulreq_run DecodeOtherWants d1 = ulreq_run DecodeOtherWants d2"
    "at (message (map (hash_line shallow) sh @ depth_lines dep) rest) l2 ?v1 d2"
    using run_wants [OF ids(2) d1(2) [unfolded request_lines_def]] by (auto simp: NewUploadRequest_def)
  show ?thesis using run_tail [OF ids(3) depth d2(2)] d1(1) d2(1) by (auto simp: NewUploadRequest_def)
qed

text \<open>
  C22. An upload request without a filter is decoded as it was encoded: the same wants, sorted and
  each once, the same shallow commits except the zero hash, sorted and each once, the same
  capabilities in the same order and the same depth (a point in time by its seconds).
\<close>

theorem UploadRequest_roundtrip:
  assumes ok: "request_ok v" and filter: "ur_Filter v = []" and buf: "length buf = MaxSize"
  shows "\<exists>v' out r buf'. UploadRequest_Encode v out0 = (v', out0 @ out, Ok ()) \<and>
    UploadRequest_Decode NewUploadRequest (out @ rest, buf) = Ok (r, (rest, buf'), None) \<and>
    set (ur_Wants r) = set (ur_Wants v) \<and> distinct (ur_Wants r) \<and> sorted_wrt hash_le (ur_Wants r) \<and>
    set (ur_Shallows r) = set (ur_Shallows v) - {ZeroHash} \<and> distinct (ur_Shallows r) \<and>
    sorted_wrt hash_le (ur_Shallows r) \<and>
    cl_sort (ur_Capabilities r) = cl_sort (ur_Capabilities v) \<and>
    (\<forall>c. List_Get (ur_Capabilities r) c = List_Get (ur_Capabilities v) c) \<and>
    ur_Depth r = ur_Depth v \<and> ur_Filter r = []"
proof -
  have sh: "\<forall>h \<in> set (ur_Shallows v). sha1_id h" and depth: "depth_ok (ur_Depth v)" using ok by (auto simp: request_ok_def)
  obtain s caps where s: "List_String (ur_Capabilities v) = Ok s"
    and caps: "List_Decode NewList (str s) = (caps, Ok ())" "cl_sort caps = cl_sort (ur_Capabilities v)"
      "\<forall>c. List_Get caps c = List_Get (ur_Capabilities v) c"
    using List_text [of "ur_Capabilities v"] ok by (auto simp: request_ok_def)
  have "length (HashesSort (ur_Wants v)) \<noteq> 0" using ok by (simp add: request_ok_def)
  then obtain w ws where sort: "HashesSort (ur_Wants v) = w # ws" by (cases "HashesSort (ur_Wants v)") auto
  have wset: "set (w # ws) = set (ur_Wants v)" using set_HashesSort [of "ur_Wants v"] sort by simp
  then have w: "\<forall>h \<in> set (w # ws). sha1_id h" using ok by (auto simp: request_ok_def)
  have ord: "sorted_wrt hash_le (w # ws)" using sorted_HashesSort [of "ur_Wants v"] sort by simp
  note wd = dedup_distinct [OF ord w]
  have ordered: "sorted_wrt hash_le (w # dedup w ws)" "sorted_wrt hash_le (dedup ZeroHash (HashesSort (ur_Shallows v)))"
    using ord dedup_sorted [of ws w] dedup_subset [of w ws] dedup_sorted [OF sorted_HashesSort]
    by auto
  define sh' where "sh' = dedup ZeroHash (HashesSort (ur_Shallows v))"
  let ?msg = "message (first_line w s # request_lines (dedup w ws) sh' (ur_Depth v))"
  obtain v' where enc: "UploadRequest_Encode v out0 = (v', out0 @ ?msg [], Ok ())"
    using UploadRequest_Encode_message [OF ok _ sort s, of out0] filter by (auto simp: sh'_def filter_lines_def)
  define d0 where "d0 = \<lparr>ud_conn = (?msg rest, buf), ud_line = [], ud_nLine = 0, ud_err = None, ud_data = NewUploadRequest\<rparr>"
  have at0: "at (?msg rest) [] NewUploadRequest d0" using buf by (simp add: at_def d0_def conn_ok_def)
  have ids: "sha1_id w" "\<forall>h \<in> set (dedup w ws). sha1_id h" "\<forall>h \<in> set sh'. sha1_id h" "length s \<le> 65000"
    using w sh ok s dedup_subset [of w ws] dedup_subset [of ZeroHash "HashesSort (ur_Shallows v)"]
    by (auto simp: sh'_def request_ok_def)
  obtain d where d: "ulreq_run DecodeFirstWant d0 = Ok d"
    "at rest [] (NewUploadRequest\<lparr>ur_Wants := w # dedup w ws, ur_Capabilities := caps, ur_Shallows := sh', ur_Depth := ur_Depth v\<rparr>) d"
    using UploadRequest_run_message [OF ids(1,2,3) depth ids(4) caps(1) at0] by blast
  then have dec: "UploadRequest_Decode NewUploadRequest (?msg [] @ rest, buf) =
      Ok (NewUploadRequest\<lparr>ur_Wants := w # dedup w ws, ur_Capabilities := caps, ur_Shallows := sh', ur_Depth := ur_Depth v\<rparr>,
        (rest, snd (ud_conn d)), None)"
    using prod.collapse [of "ud_conn d"] by (auto simp: UploadRequest_Decode_def message_def d0_def at_def)
  show ?thesis
    using enc dec wd wset ordered dedup_Zero [OF sh] caps(2,3) by (auto simp: sh'_def NewUploadRequest_def)
qed


lemma request_ok_example: "request_ok (NewUploadRequest\<lparr>ur_Wants := [ZeroHash]\<rparr>)"
  using sha1_id_ZeroHash caps_inv_New
  by (simp add: request_ok_def NewUploadRequest_def caps_tokens_def List_String_def depth_ok_def NewList_def)

theorem UploadRequest_roundtrip_witness:
  "\<exists>v' out r buf'. UploadRequest_Encode (NewUploadRequest\<lparr>ur_Wants := [ZeroHash]\<rparr>) [7] = (v', [7] @ out, Ok ()) \<and>
    UploadRequest_Decode NewUploadRequest (out @ [9], replicate 65520 0) = Ok (r, ([9], buf'), None) \<and>
    set (ur_Wants r) = {ZeroHash} \<and> ur_Depth r = Some (DepthCommits 0)"
proof -
  have "ur_Filter (NewUploadRequest\<lparr>ur_Wants := [ZeroHash]\<rparr>) = []" "length (replicate 65520 (0 :: byte)) = MaxSize"
    by (simp_all add: NewUploadRequest_def)
  from UploadRequest_roundtrip [OF request_ok_example this, of "[7]" "[9]"] show ?thesis
    by (fastforce simp: NewUploadRequest_def)
qed

section \<open>What is not decoded as it was encoded\<close>

text \<open>
  A filter is encoded but never decoded: the line that the encoder writes for it is refused, so
  a request with a filter, here one without shallow commits and without a depth, fails to decode.
\<close>

theorem UploadRequest_filter_refused:
  assumes ok: "request_ok v" and plain: "ur_Shallows v = []" "ur_Depth v = Some (DepthCommits 0)"
    and filter: "ur_Filter v \<noteq> []" "length (ur_Filter v) \<le> 65000" and buf: "length buf = MaxSize"
  shows "\<exists>v' out r c e. UploadRequest_Encode v out0 = (v', out0 @ out, Ok ()) \<and>
    UploadRequest_Decode NewUploadRequest (out @ rest, buf) = Ok (r, c, Some e)"
proof -
  obtain s caps where s: "List_String (ur_Capabilities v) = Ok s" and caps: "List_Decode NewList (str s) = (caps, Ok ())"
    using List_text [of "ur_Capabilities v"] ok by (auto simp: request_ok_def)
  have "length (HashesSort (ur_Wants v)) \<noteq> 0" using ok by (simp add: request_ok_def)
  then obtain w ws where sort: "HashesSort (ur_Wants v) = w # ws" by (cases "HashesSort (ur_Wants v)") auto
  have "set (w # ws) = set (ur_Wants v)" using set_HashesSort [of "ur_Wants v"] sort by simp
  then have ids: "sha1_id w" "\<forall>h \<in> set (dedup w ws). sha1_id h" "length s \<le> 65000"
    using ok s dedup_subset [of w ws] by (auto simp: request_ok_def)
  define f where "f = str ''filter '' @ str (ur_Filter v) @ eol"
  let ?msg = "message (first_line w s # map (hash_line want) (dedup w ws) @ [f])"
  obtain v' where enc: "UploadRequest_Encode v out0 = (v', out0 @ ?msg [], Ok ())"
    using UploadRequest_Encode_message [OF ok filter(2) sort s, of out0] plain filter(1)
    by (auto simp: request_lines_def depth_lines_def filter_lines_def HashesSort_def f_def)
  define d0 where "d0 = \<lparr>ud_conn = (?msg rest, buf), ud_line = [], ud_nLine = 0, ud_err = None, ud_data = NewUploadRequest\<rparr>"
  have at0: "at (?msg rest) [] NewUploadRequest d0" using buf by (simp add: at_def d0_def conn_ok_def)
  obtain d1 l1 v1 where d1: "ulreq_run DecodeFirstWant d0 = ulreq_run DecodeOtherWants d1" "at (message (map (hash_line want) (dedup w ws) @ [f]) rest) l1 v1 d1"
    using run_first [OF ids(1,3) _ at0, of caps] caps by (auto simp: NewUploadRequest_def)
  obtain d2 l2 v2 where d2: "ulreq_run DecodeOtherWants d1 = ulreq_run DecodeOtherWants d2" "at (message [f] rest) l2 v2 d2"
    using run_wants [OF ids(2) d1(2)] by blast
  have "plain_payload f"
    using filter(2) by (simp add: plain_payload_def f_def errPrefix_def HasPrefix_def of_char_def eol_def)
  then obtain d3 where d3: "ud_nextLine d2 = Ok (True, d3)" "ud_line d3 = str ''filter '' @ str (ur_Filter v)"
    using nextLine_packet [OF d2(2)] TrimSuffix_eol [of "str ''filter '' @ str (ur_Filter v)"] by (auto simp: at_def f_def)
  then have "ulreq_run DecodeOtherWants d2 = Ok (ud_error ''unexpected payload while expecting a want'' d3)"
    by (subst ulreq_run.simps) (simp add: decodeOtherWants_def HasPrefix_def want_def shallow_def deepen_def of_char_def)
  with enc d1(1) d2(1) show ?thesis
    by (auto simp: UploadRequest_Decode_def d0_def message_def ud_error_def)
qed

theorem UploadRequest_filter_refused_witness:
  "\<exists>v' out r c e. UploadRequest_Encode (NewUploadRequest\<lparr>ur_Wants := [ZeroHash], ur_Filter := ''blob:none''\<rparr>) [] = (v', [] @ out, Ok ()) \<and>
    UploadRequest_Decode NewUploadRequest (out @ [], replicate 65520 0) = Ok (r, c, Some e)"
  by (rule UploadRequest_filter_refused) (use request_ok_example in \<open>simp_all add: request_ok_def NewUploadRequest_def\<close>)

lemma nextLine_keeps_err:
  "ud_nextLine d = Ok (True, d') \<Longrightarrow> ud_nextLine (d\<lparr>ud_err := e\<rparr>) = Ok (True, d'\<lparr>ud_err := e\<rparr>)"
  by (erule ud_nextLine_Ok) (simp add: ud_nextLine_def)

text \<open>
  The error for capabilities that are refused is lost when the request asks for a depth: parsing
  the depth overwrites it. The same first line without a depth is reported.
\<close>

theorem UploadRequest_caps_error_lost:
  assumes w: "sha1_id w" and s: "s \<noteq> []" "length s \<le> 65000" "List_Decode NewList (str s) = (caps, Error e)"
    and n: "0 < n" "n < 2 ^ 63" and buf: "length buf = MaxSize"
  shows "\<exists>r1 c1 e1 r2 c2.
    UploadRequest_Decode NewUploadRequest (message [first_line w s] rest, buf) = Ok (r1, c1, Some e1) \<and>
    UploadRequest_Decode NewUploadRequest (message [first_line w s, deepenCommits @ str (FormatInt n) @ eol] rest, buf) = Ok (r2, c2, None)"
proof -
  let ?p = "deepenCommits @ str (FormatInt n) @ eol" and ?e = "Some (NewErrUnexpectedData ''invalid capabilities'')"
  define d0 where "d0 ps = \<lparr>ud_conn = (message (first_line w s # ps) rest, buf), ud_line = [], ud_nLine = 0, ud_err = None,
      ud_data = NewUploadRequest\<rparr>" for ps
  have caps: "List_Decode (ur_Capabilities NewUploadRequest) (str s) = (caps, Error e)" using s(3) by (simp add: NewUploadRequest_def)
  have "at (message (first_line w s # ps) rest) [] NewUploadRequest (d0 ps)" for ps
    using buf by (simp add: at_def d0_def conn_ok_def)
  note first = run_first_caps [OF w s(2) caps _ this, simplified]
  obtain d1 l1 v1 where d1: "ulreq_run DecodeFirstWant (d0 []) = ulreq_run DecodeOtherWants (d1\<lparr>ud_err := ?e\<rparr>)"
    "at (message [] rest) l1 v1 d1"
    using first [of "[]"] by blast
  obtain d2 where d2: "ud_nextLine d1 = Ok (True, d2)" "at rest [] v1 d2" using nextLine_flush [OF d1(2)] by blast
  have one: "ulreq_run DecodeFirstWant (d0 []) = Ok (d2\<lparr>ud_err := ?e\<rparr>)"
    unfolding d1(1) using nextLine_keeps_err [OF d2(1)] d2(2)
    by (subst ulreq_run.simps) (simp add: decodeOtherWants_def at_def HasPrefix_def shallow_def deepen_def)
  obtain d3 l3 v3 where d3: "ulreq_run DecodeFirstWant (d0 [?p]) = ulreq_run DecodeOtherWants (d3\<lparr>ud_err := ?e\<rparr>)"
    "at (message [?p] rest) l3 v3 d3"
    using first [of "[?p]"] by blast
  have dep: "depth_lines (Some (DepthCommits n)) = [?p]" "depth_ok (Some (DepthCommits n))"
    using n by (simp_all add: depth_lines_def depth_ok_def)
  note plain = depth_lines_plain [OF dep(2,1)]
  obtain d4 where d4: "ud_nextLine d3 = Ok (True, d4)" "at (message [] rest) (TrimSuffix ?p eol) v3 d4"
    using nextLine_packet [OF d3(2) plain(1)] by blast
  have "ulreq_run DecodeOtherWants (d3\<lparr>ud_err := ?e\<rparr>) = ulreq_run DecodeDeepen (d4\<lparr>ud_err := ?e\<rparr>)"
    using nextLine_keeps_err [OF d4(1)] d4(2) plain(2,3) by (subst ulreq_run.simps) (simp add: decodeOtherWants_def at_def)
  also have "\<dots> = ulreq_run DecodeDeepen d4"
  proof -
    have line: "ud_line d4 = deepenCommits @ str (FormatInt n)"
      using d4(2) TrimSuffix_eol [of "deepenCommits @ str (FormatInt n)"] by (simp add: at_def)
    have skip: "ulreq_run DecodeDeepen d = ulreq_run DecodeDeepenCommits d" if "ud_line d = deepenCommits @ str (FormatInt n)" for d
      using that by (subst ulreq_run.simps) (simp add: decodeDeepen_def labels_differ)
    have "ulreq_step DecodeDeepenCommits (d4\<lparr>ud_err := ?e\<rparr>) = ulreq_step DecodeDeepenCommits d4"
      using n by (simp add: decodeDeepenCommits_def line ParseInt_FormatInt)
    then have "ulreq_run DecodeDeepenCommits (d4\<lparr>ud_err := ?e\<rparr>) = ulreq_run DecodeDeepenCommits d4"
      by (subst (1 2) ulreq_run.simps) simp
    with skip line show ?thesis by simp
  qed
  finally obtain d5 where two: "ulreq_run DecodeFirstWant (d0 [?p]) = Ok d5" "ud_err d5 = None"
    using run_deepen [OF dep d4(2)] d3(1) by (auto simp: at_def)
  from one two show ?thesis by (simp add: UploadRequest_Decode_def d0_def)
qed

theorem UploadRequest_caps_error_lost_witness:
  "\<exists>r1 c1 e1 r2 c2.
    UploadRequest_Decode NewUploadRequest (message [first_line ZeroHash ''agent''] [], replicate 65520 0) = Ok (r1, c1, Some e1) \<and>
    UploadRequest_Decode NewUploadRequest (message [first_line ZeroHash ''agent'', deepenCommits @ str (FormatInt 1) @ eol] [], replicate 65520 0) =
      Ok (r2, c2, None)"
proof -
  have "List_Add NewList ''agent'' [] = (NewList, Error ErrArgumentsRequired)"
    by (simp add: List_Add_def List_validate_def known_def requiresArgument_def)
  moreover have "token ''agent''" "CHR ''='' \<notin> set ''agent''" by (simp_all add: token_def)
  ultimately have "List_Decode NewList (str ''agent'') = (NewList, Error ErrArgumentsRequired)"
    using decode_text [of "[''agent'']" NewList] decode_name [of "''agent''" NewList "[]"]
    by (simp only: JoinChar.simps list.map list.set) simp
  from UploadRequest_caps_error_lost [OF sha1_id_ZeroHash _ _ this, of 1 "replicate 65520 0" "[]"] show ?thesis by simp
qed

end
