(* ===== verification/Messages.thy ===== *)
theory Messages
  imports UploadReq Reference
begin

text \<open>
  The short messages of \<^verbatim>\<open>plumbing/protocol/packp\<close>: the report of a push (\<^verbatim>\<open>report_status.go\<close>), shallow
  updates (\<^verbatim>\<open>shallowupd.go\<close>), the first request of the git protocol (\<^verbatim>\<open>gitproto.go\<close>), haves
  (\<^verbatim>\<open>uphav.go\<close>), acknowledgements (\<^verbatim>\<open>srvresp.go\<close>), smart replies (\<^verbatim>\<open>smart.go\<close>) and push options
  (\<^verbatim>\<open>pushopts.go\<close>). A decoder returns what it decoded before an error together with the error. A
  reader that gives an error leaves the loop, and what happens then is the decoder's.
\<close>

section \<open>Report status\<close>

text \<open>\<^verbatim>\<open>strings.SplitN\<close> in at most three parts.\<close>

definition SplitN3 :: "'a list \<Rightarrow> 'a \<Rightarrow> 'a list list" where
  "SplitN3 s c =
     (case SplitN2 s c of
        (a, None) \<Rightarrow> [a]
      | (a, Some t) \<Rightarrow> (case SplitN2 t c of (b, None) \<Rightarrow> [a, b] | (b, Some u) \<Rightarrow> [a, b, u]))"

definition ok_status :: string where "ok_status = ''ok''"

record CommandStatus =
  cs_ReferenceName :: ReferenceName
  cs_Status :: string

record ReportStatus =
  rs_UnpackStatus :: string
  rs_CommandStatuses :: "CommandStatus list"

definition NewReportStatus :: ReportStatus where
  "NewReportStatus = \<lparr>rs_UnpackStatus = [], rs_CommandStatuses = []\<rparr>"

text \<open>The errors carry what \<^verbatim>\<open>Error\<close> prints.\<close>

definition CommandStatus_Error :: "CommandStatus \<Rightarrow> error option" where
  "CommandStatus_Error s =
     (if cs_Status s = ok_status then None
      else Some (Sentinel (''command error on '' @ cs_ReferenceName s @ '': '' @ cs_Status s)))"

definition ReportStatus_Error :: "ReportStatus \<Rightarrow> error option" where
  "ReportStatus_Error s =
     (if rs_UnpackStatus s \<noteq> ok_status then Some (Sentinel (''unpack error: '' @ rs_UnpackStatus s))
      else Option.bind (List.find (\<lambda>cs. CommandStatus_Error cs \<noteq> None) (rs_CommandStatuses s)) CommandStatus_Error)"

definition CommandStatus_encode :: "CommandStatus \<Rightarrow> bytes \<Rightarrow> written" where
  "CommandStatus_encode s out =
     (if CommandStatus_Error s = None then Writef out (str ''ok '' @ str (cs_ReferenceName s) @ eol)
      else Writef out (str ''ng '' @ str (cs_ReferenceName s) @ sp @ str (cs_Status s) @ eol))"

fun ReportStatus_Encode_loop :: "CommandStatus list \<Rightarrow> bytes \<Rightarrow> written" where
  "ReportStatus_Encode_loop [] out = (WriteFlush out, Ok ())"
| "ReportStatus_Encode_loop (cs # css) out = wbind (CommandStatus_encode cs out) (ReportStatus_Encode_loop css)"

definition ReportStatus_Encode :: "ReportStatus \<Rightarrow> bytes \<Rightarrow> written" where
  "ReportStatus_Encode s out =
     wbind (Writef out (str ''unpack '' @ str (rs_UnpackStatus s) @ eol)) (ReportStatus_Encode_loop (rs_CommandStatuses s))"

definition scanFirstLine :: "conn \<Rightarrow> (bytes \<times> error option \<times> conn) result" where
  "scanFirstLine c =
     rbind (next_packet c) (\<lambda>(l, p, err, c').
       case err of
         Some e \<Rightarrow> if errors_Is e EOF then Ok (p, Some ErrUnexpectedEOF, c') else Ok ([], Some e, c')
       | None \<Rightarrow> Ok (p, None, c'))"

definition decodeReportStatus :: "ReportStatus \<Rightarrow> bytes \<Rightarrow> ReportStatus \<times> error option" where
  "decodeReportStatus s b =
     (if isFlush b then (s, Some (Sentinel ''premature flush''))
      else case SplitN2 (unstr (TrimSuffix b eol)) (CHR '' '') of
             (f, Some status) \<Rightarrow>
               if f \<noteq> ''unpack'' then (s, Some (Sentinel ''malformed unpack status''))
               else (s\<lparr>rs_UnpackStatus := status\<rparr>, None)
           | (f, None) \<Rightarrow> (s, Some (Sentinel ''malformed unpack status'')))"

definition decodeCommandStatus :: "ReportStatus \<Rightarrow> bytes \<Rightarrow> ReportStatus \<times> error option" where
  "decodeCommandStatus s b =
     (let fields = SplitN3 (unstr (TrimSuffix b eol)) (CHR '' '');
          add = (\<lambda>status. (s\<lparr>rs_CommandStatuses := rs_CommandStatuses s @ [\<lparr>cs_ReferenceName = fields ! 1, cs_Status = status\<rparr>]\<rparr>, None))
      in if length fields = 3 \<and> fields ! 0 = ''ng'' then add (fields ! 2)
         else if length fields \<noteq> 2 \<or> fields ! 0 \<noteq> ''ok'' then (s, Some (Sentinel ''malformed command status''))
         else add ok_status)"

definition ReportStatus_body :: "ReportStatus \<Rightarrow> int \<Rightarrow> bytes \<Rightarrow> ReportStatus \<times> error option option" where
  "ReportStatus_body s l b =
     (if l = Flush then (s, Some None)
      else case decodeCommandStatus s b of
             (s', None) \<Rightarrow> (s', None)
           | (s', Some e) \<Rightarrow> (s', Some (Some e)))"

definition ReportStatus_Decode :: "ReportStatus \<Rightarrow> conn \<Rightarrow> (ReportStatus \<times> conn \<times> error option) result" where
  "ReportStatus_Decode s c =
     rbind (scanFirstLine c) (\<lambda>(b, err, c).
       case err of
         Some e \<Rightarrow> Ok (s, c, Some e)
       | None \<Rightarrow>
           (case decodeReportStatus s b of
              (s, Some e) \<Rightarrow> Ok (s, c, Some e)
            | (s, None) \<Rightarrow>
                rbind (packet_loop ReportStatus_body s c) (\<lambda>(s, c, cause).
                  case cause of
                    Inl e \<Rightarrow> Ok (s, c, Some (Wrapped ''missing flush'' e))
                  | Inr err \<Rightarrow> Ok (s, c, err))))"

section \<open>Shallow updates\<close>

definition shallowLineLen :: nat where "shallowLineLen = 48"
definition unshallowLineLen :: nat where "unshallowLineLen = 50"

record ShallowUpdate =
  su_Shallows :: "ObjectID list"
  su_Unshallows :: "ObjectID list"

definition su_decodeLine :: "bytes \<Rightarrow> nat \<Rightarrow> ObjectID result" where
  "su_decodeLine line expLen =
     (if length line \<noteq> expLen then Error (Sentinel ''malformed'')
      else Ok (NewHash (unstr (take 40 (drop (expLen - 40) line)))))"

definition decodeShallowLine :: "ShallowUpdate \<Rightarrow> bytes \<Rightarrow> ShallowUpdate \<times> error option" where
  "decodeShallowLine r line =
     (case su_decodeLine line shallowLineLen of
        Ok h \<Rightarrow> (r\<lparr>su_Shallows := su_Shallows r @ [h]\<rparr>, None)
      | Error e \<Rightarrow> (r, Some e)
      | Panic \<Rightarrow> (r, None))"

definition decodeUnshallowLine :: "ShallowUpdate \<Rightarrow> bytes \<Rightarrow> ShallowUpdate \<times> error option" where
  "decodeUnshallowLine r line =
     (case su_decodeLine line unshallowLineLen of
        Ok h \<Rightarrow> (r\<lparr>su_Unshallows := su_Unshallows r @ [h]\<rparr>, None)
      | Error e \<Rightarrow> (r, Some e)
      | Panic \<Rightarrow> (r, None))"

definition ShallowUpdate_body :: "ShallowUpdate \<Rightarrow> int \<Rightarrow> bytes \<Rightarrow> ShallowUpdate \<times> error option option" where
  "ShallowUpdate_body r l p =
     (let line = TrimSpace p;
          go_on = (\<lambda>(r, err). (r, case err of None \<Rightarrow> None | Some e \<Rightarrow> Some (Some e)))
      in if HasPrefix line shallow then go_on (decodeShallowLine r line)
         else if HasPrefix line unshallow then go_on (decodeUnshallowLine r line)
         else if l = Flush then (r, Some None)
         else (r, Some (Some (Sentinel ''unexpected shallow line''))))"

definition ShallowUpdate_Decode :: "ShallowUpdate \<Rightarrow> conn \<Rightarrow> (ShallowUpdate \<times> conn \<times> error option) result" where
  "ShallowUpdate_Decode r c =
     rbind (packet_loop ShallowUpdate_body r c) (\<lambda>(r, c, cause).
       case cause of
         Inl e \<Rightarrow> Ok (r, c, if e \<noteq> EOF then Some e else None)
       | Inr err \<Rightarrow> Ok (r, c, err))"

fun su_encodeHashes :: "bytes \<Rightarrow> ObjectID list \<Rightarrow> bytes \<Rightarrow> written" where
  "su_encodeHashes label [] out = (out, Ok ())"
| "su_encodeHashes label (h # hs) out = wbind (Writef out (label @ str (ObjectID_String h) @ eol)) (su_encodeHashes label hs)"

definition ShallowUpdate_Encode :: "ShallowUpdate \<Rightarrow> bytes \<Rightarrow> written" where
  "ShallowUpdate_Encode r out =
     wbind (wbind (su_encodeHashes shallow (su_Shallows r) out) (su_encodeHashes unshallow (su_Unshallows r)))
       (\<lambda>out. (WriteFlush out, Ok ()))"

section \<open>Requests of the git protocol\<close>

abbreviation ErrInvalidGitProtoRequest :: error where "ErrInvalidGitProtoRequest \<equiv> Sentinel ''ErrInvalidGitProtoRequest''"

record GitProtoRequest =
  gp_RequestCommand :: string
  gp_Pathname :: string
  gp_Host :: string
  gp_ExtraParams :: "string list"

definition GitProtoRequest_validate :: "GitProtoRequest \<Rightarrow> error option" where
  "GitProtoRequest_validate g =
     (if gp_RequestCommand g = [] then Some (Wrapped ''empty request command'' ErrInvalidGitProtoRequest)
      else if gp_Pathname g = [] then Some (Wrapped ''empty pathname'' ErrInvalidGitProtoRequest)
      else None)"

definition NUL :: string where "NUL = [char_of (0 :: nat)]"

definition GitProtoRequest_Encode :: "GitProtoRequest \<Rightarrow> bytes \<Rightarrow> written" where
  "GitProtoRequest_Encode g out =
     (case GitProtoRequest_validate g of
        Some e \<Rightarrow> (out, Error e)
      | None \<Rightarrow>
          let req0 = gp_RequestCommand g @ '' '' @ gp_Pathname g @ NUL;
              req1 = (if gp_Host g \<noteq> [] then req0 @ ''host='' @ gp_Host g @ NUL else req0);
              req2 = (if length (gp_ExtraParams g) > 0 then req1 @ NUL @ concat (map (\<lambda>p. p @ NUL) (gp_ExtraParams g)) else req1)
          in Writef out (str req2))"

definition GitProtoRequest_Decode :: "GitProtoRequest \<Rightarrow> conn \<Rightarrow> (GitProtoRequest \<times> conn \<times> error option) result" where
  "GitProtoRequest_Decode g c =
     rbind (next_packet c) (\<lambda>(l, p, err, c).
       case err of
         Some e \<Rightarrow> Ok (g, c, Some (if errors_Is e EOF then ErrInvalidGitProtoRequest else e))
       | None \<Rightarrow>
           let line = unstr p
           in if length line = 0 then Ok (g, c, Some EOF)
              else if List.last line \<noteq> char_of (0 :: nat) then Ok (g, c, Some (Wrapped ''missing null terminator'' ErrInvalidGitProtoRequest))
              else case SplitN2 line (CHR '' '') of
                     (a, None) \<Rightarrow> Ok (g, c, Some (Wrapped ''short request'' ErrInvalidGitProtoRequest))
                   | (a, Some b) \<Rightarrow>
                       let params = SplitChar b (char_of (0 :: nat));
                           g = g\<lparr>gp_RequestCommand := a\<rparr>;
                           g = g\<lparr>gp_Pathname := hd params\<rparr>;
                           g = (if length params > 1 then g\<lparr>gp_Host := TrimPrefix (params ! 1) ''host=''\<rparr> else g);
                           g = (if length params > 2
                                then g\<lparr>gp_ExtraParams := gp_ExtraParams g @ filter (\<lambda>p. p \<noteq> []) (drop 2 params)\<rparr> else g)
                       in Ok (g, c, None))"

section \<open>Haves\<close>

record UploadHaves =
  uh_Haves :: "ObjectID list"
  uh_Done :: bool

fun encodeHaves :: "ObjectID \<Rightarrow> ObjectID list \<Rightarrow> bytes \<Rightarrow> written" where
  "encodeHaves l [] out = (out, Ok ())"
| "encodeHaves l (h # hs) out =
     (if ObjectID_Compare l (ObjectID_Bytes h) = 0 then encodeHaves l hs out
      else wbind (Writef out (str ''have '' @ str (ObjectID_String h) @ eol)) (encodeHaves h hs))"

definition UploadHaves_Encode :: "UploadHaves \<Rightarrow> bytes \<Rightarrow> UploadHaves \<times> written" where
  "UploadHaves_Encode u out =
     (let u = u\<lparr>uh_Haves := HashesSort (uh_Haves u)\<rparr>
      in (u, wbind (encodeHaves ZeroHash (uh_Haves u) out)
               (\<lambda>out. if uh_Done u then Writef out (str ''done'' @ eol) else (WriteFlush out, Ok ()))))"

definition UploadHaves_body :: "UploadHaves \<Rightarrow> int \<Rightarrow> bytes \<Rightarrow> UploadHaves \<times> error option option" where
  "UploadHaves_body u l line =
     (if l = Flush then (u, Some None)
      else if HasPrefix line (str ''done'') then (u\<lparr>uh_Done := True\<rparr>, Some None)
      else if \<not> HasPrefix line (str ''have '') then (u, Some (Some (Sentinel ''invalid have line'')))
      else (u\<lparr>uh_Haves := uh_Haves u @ [NewHash (unstr (TrimSpace (drop 5 line)))]\<rparr>, None))"

definition UploadHaves_Decode :: "UploadHaves \<Rightarrow> conn \<Rightarrow> (UploadHaves \<times> conn \<times> error option) result" where
  "UploadHaves_Decode u c =
     rbind (packet_loop UploadHaves_body (u\<lparr>uh_Haves := []\<rparr>) c) (\<lambda>(u, c, cause).
       case cause of
         Inl e \<Rightarrow> Ok (u, c, if e = EOF then None else Some (Wrapped ''decoding haves'' e))
       | Inr err \<Rightarrow> Ok (u, c, err))"

section \<open>Server responses\<close>

type_synonym ACKStatus = byte

definition ACKContinue :: ACKStatus where "ACKContinue = 1"
definition ACKCommon :: ACKStatus where "ACKCommon = 2"
definition ACKReady :: ACKStatus where "ACKReady = 3"

definition ACKStatus_String :: "ACKStatus \<Rightarrow> string" where
  "ACKStatus_String s =
     (if s = ACKContinue then ''continue'' else if s = ACKCommon then ''common'' else if s = ACKReady then ''ready'' else [])"

record ACK =
  ack_Hash :: ObjectID
  ack_Status :: ACKStatus

definition ackLineLen :: nat where "ackLineLen = 44"
definition ack :: bytes where "ack = str ''ACK''"
definition nak :: bytes where "nak = str ''NAK''"

definition decodeACKLine :: "ACK list \<Rightarrow> bytes \<Rightarrow> ACK list \<times> error option" where
  "decodeACKLine acks line =
     (let parts = SplitChar line 32
      in if length line < ackLineLen \<or> length parts < 2 then (acks, Some (Sentinel ''malformed ACK''))
         else let h = NewHash (unstr (TrimSuffix (parts ! 1) eol))
              in if length parts > 2
                 then let status = unstr (TrimSpace (parts ! 2))
                      in (acks @ [\<lparr>ack_Hash = h,
                            ack_Status = (if status = ''continue'' then ACKContinue else if status = ''common'' then ACKCommon
                              else if status = ''ready'' then ACKReady else 0)\<rparr>], None)
                 else (acks @ [\<lparr>ack_Hash = h, ack_Status = 0\<rparr>], Some EOF))"

definition sr_decodeLine :: "ACK list \<Rightarrow> bytes \<Rightarrow> ACK list \<times> error option" where
  "sr_decodeLine acks line =
     (if length line = 0 then (acks, Some (Sentinel ''unexpected flush''))
      else if length line \<ge> 3 \<and> take 3 line = ack then decodeACKLine acks line
      else if length line \<ge> 3 \<and> take 3 line = nak then (acks, Some EOF)
      else (acks, Some (Sentinel ''unexpected content'')))"

definition ServerResponse_Decode :: "ACK list \<Rightarrow> conn \<Rightarrow> (ACK list \<times> conn \<times> error option) result" where
  "ServerResponse_Decode acks c =
     rbind (packet_loop (\<lambda>acks l p. sr_decodeLine acks p) acks c) (\<lambda>(acks, c, cause).
       let e = (case cause of Inl e \<Rightarrow> e | Inr e \<Rightarrow> e)
       in Ok (acks, c, if errors_Is e EOF then None else Some e))"

text \<open>The loop of \<^verbatim>\<open>encodeServerResponse\<close>; \<open>first\<close> is \<^verbatim>\<open>acks[0].Hash\<close>.\<close>

fun encodeACKs :: "ObjectID \<Rightarrow> bool \<Rightarrow> ACK list \<Rightarrow> bytes \<Rightarrow> written" where
  "encodeACKs first multiAck [] out = (out, Ok ())"
| "encodeACKs first multiAck (a # as) out =
     (let multi = (multiAck \<or> ack_Status a > 0);
          w = (if ack_Status a > 0
               then Writef out (ack @ sp @ str (ObjectID_String (ack_Hash a)) @ sp @ str (ACKStatus_String (ack_Status a)) @ eol)
               else Writef out (ack @ sp @ str (ObjectID_String first) @ eol))
      in wbind w (\<lambda>out. if \<not> multi then (out, Ok ()) else encodeACKs first multi as out))"

definition ServerResponse_Encode :: "ACK list \<Rightarrow> bytes \<Rightarrow> written" where
  "ServerResponse_Encode acks out =
     (case acks of [] \<Rightarrow> Writef out (nak @ eol) | a # as \<Rightarrow> encodeACKs (ack_Hash a) False acks out)"

section \<open>Smart replies and push options\<close>

abbreviation ErrInvalidSmartReply :: error where "ErrInvalidSmartReply \<equiv> Sentinel ''ErrInvalidSmartReply''"

definition SmartReply_Decode :: "string \<Rightarrow> conn \<Rightarrow> (string \<times> conn \<times> error option) result" where
  "SmartReply_Decode s c =
     rbind (next_packet c) (\<lambda>(l, p, err, c).
       case err of
         Some e \<Rightarrow> Ok (s, c, Some e)
       | None \<Rightarrow>
           if length p = 0 \<or> \<not> HasPrefix p (str ''# service='') then Ok (s, c, Some ErrInvalidSmartReply)
           else let s = unstr (TrimSpace (drop 10 p))
                in rbind (next_packet c) (\<lambda>(l, p, err, c).
                     case err of
                       Some e \<Rightarrow> Ok (s, c, Some e)
                     | None \<Rightarrow> Ok (s, c, if l \<noteq> Flush then Some (Wrapped ''expected flush-pkt'' ErrInvalidSmartReply) else None)))"

definition SmartReply_Encode :: "string \<Rightarrow> bytes \<Rightarrow> written" where
  "SmartReply_Encode s out = wbind (Writef out (str ''# service='' @ str s @ eol)) (\<lambda>out. (WriteFlush out, Ok ()))"

fun PushOptions_Encode_loop :: "string list \<Rightarrow> bytes \<Rightarrow> written" where
  "PushOptions_Encode_loop [] out = (WriteFlush out, Ok ())"
| "PushOptions_Encode_loop (opt # opts) out = wbind (Writef out (str opt)) (PushOptions_Encode_loop opts)"

definition PushOptions_Encode :: "string list \<Rightarrow> bytes \<Rightarrow> written" where
  "PushOptions_Encode opts out = (if length opts = 0 then (out, Ok ()) else PushOptions_Encode_loop opts out)"

definition PushOptions_body :: "string list \<Rightarrow> int \<Rightarrow> bytes \<Rightarrow> string list \<times> unit option" where
  "PushOptions_body opts l line = (if l = Flush then (opts, Some ()) else (opts @ [unstr line], None))"

definition PushOptions_Decode :: "string list \<Rightarrow> conn \<Rightarrow> (string list \<times> conn \<times> error option) result" where
  "PushOptions_Decode opts c =
     rbind (packet_loop PushOptions_body opts c) (\<lambda>(opts, c, cause).
       Ok (opts, c, case cause of Inl e \<Rightarrow> Some e | Inr u \<Rightarrow> None))"

section \<open>Round trips\<close>

lemma plain_other: "length p \<le> MaxPayloadSize \<Longrightarrow> p \<noteq> [] \<Longrightarrow> hd p \<noteq> 69 \<Longrightarrow> plain_payload p"
  by (cases p) (simp_all add: plain_payload_def errPrefix_def HasPrefix_def of_char_def)

lemma SplitN3_name: "x \<notin> set a \<Longrightarrow> x \<notin> set b \<Longrightarrow> SplitN3 (a @ x # b) x = [a, b]"
  by (simp add: SplitN3_def SplitN2_pair SplitN2_name)

lemma SplitN3_status: "x \<notin> set a \<Longrightarrow> x \<notin> set b \<Longrightarrow> SplitN3 (a @ x # b @ x # c) x = [a, b, c]"
  by (simp add: SplitN3_def SplitN2_pair)

definition status_line :: "CommandStatus \<Rightarrow> bytes" where
  "status_line cs =
     str (if cs_Status cs = ok_status then ''ok '' @ cs_ReferenceName cs else ''ng '' @ cs_ReferenceName cs @ '' '' @ cs_Status cs) @ eol"

definition status_ok :: "CommandStatus \<Rightarrow> bool" where
  "status_ok cs \<longleftrightarrow> CHR '' '' \<notin> set (cs_ReferenceName cs) \<and> length (cs_ReferenceName cs) + length (cs_Status cs) \<le> 65000"

lemma decode_status_line:
  assumes "status_ok cs"
  shows "decodeCommandStatus s (status_line cs) = (s\<lparr>rs_CommandStatuses := rs_CommandStatuses s @ [cs]\<rparr>, None)"
proof -
  have "SplitN3 (''ok '' @ cs_ReferenceName cs) (CHR '' '') = [''ok'', cs_ReferenceName cs]"
    using SplitN3_name [of "CHR '' ''" "''ok''" "cs_ReferenceName cs"] assms by (simp add: status_ok_def)
  moreover have "SplitN3 (''ng '' @ cs_ReferenceName cs @ '' '' @ cs_Status cs) (CHR '' '') = [''ng'', cs_ReferenceName cs, cs_Status cs]"
    using SplitN3_status [of "CHR '' ''" "''ng''" "cs_ReferenceName cs" "cs_Status cs"] assms by (simp add: status_ok_def)
  ultimately show ?thesis unfolding status_line_def decodeCommandStatus_def TrimSuffix_eol unstr_str
    by (simp add: Let_def)
qed

lemma plain_status_line: "status_ok cs \<Longrightarrow> plain_payload (status_line cs)"
  by (rule plain_other) (auto simp: status_ok_def status_line_def of_char_def)

lemma encode_status_lines:
  "\<forall>cs \<in> set css. status_ok cs \<Longrightarrow> ReportStatus_Encode_loop css out = (out @ message (map status_line css) [], Ok ())"
proof (induction css arbitrary: out)
  case (Cons cs css)
  then have "length (status_line cs) \<le> MaxPayloadSize" using plain_status_line [of cs] by (simp add: plain_payload_def)
  then have "CommandStatus_encode cs out = (out @ packet (status_line cs), Ok ())"
    by (auto simp: CommandStatus_encode_def CommandStatus_Error_def status_line_def sp_def Writef_packet)
  with Cons show ?case by (simp add: message_simps)
qed (simp add: message_simps WriteFlush_def)

lemma foldl_statuses:
  "foldl (\<lambda>s p. fst (decodeCommandStatus s p)) s (map status_line css) =
     s\<lparr>rs_CommandStatuses := rs_CommandStatuses s @ css\<rparr>" if "\<forall>cs \<in> set css. status_ok cs"
  using that by (induction css arbitrary: s) (simp_all add: decode_status_line)

text \<open>
  C24. A report is decoded as it was encoded, whatever the statuses are, when no reference name has a
  space: the status of the pack, and the references in order with their statuses.
\<close>

theorem ReportStatus_roundtrip:
  assumes ok: "\<forall>cs \<in> set (rs_CommandStatuses s). status_ok cs" and unpack: "length (rs_UnpackStatus s) \<le> 65000"
    and buf: "length buf = MaxSize"
  shows "\<exists>out buf'. ReportStatus_Encode s out0 = (out0 @ out, Ok ()) \<and>
    ReportStatus_Decode NewReportStatus (out @ rest, buf) = Ok (s, (rest, buf'), None)"
proof -
  let ?u = "str (''unpack '' @ rs_UnpackStatus s) @ eol"
  let ?ps = "map status_line (rs_CommandStatuses s)"
  have u: "plain_payload ?u" using unpack by (intro plain_other) (simp_all add: of_char_def)
  then have enc: "ReportStatus_Encode s out0 = (out0 @ message (?u # ?ps) [], Ok ())"
    using encode_status_lines [OF ok, of "out0 @ packet ?u"] Writef_packet [of ?u out0]
    by (simp add: ReportStatus_Encode_def plain_payload_def message_simps)
  have msg: "message (?u # ?ps) [] @ rest = packet ?u @ message ?ps rest" by (simp add: message_def)
  then have "fst (message (?u # ?ps) [] @ rest, buf) = packet ?u @ message ?ps rest" "conn_ok (message (?u # ?ps) [] @ rest, buf)"
    using buf by (simp_all add: conn_ok_def)
  from next_packet_plain [OF u this(2,1)] obtain buf1 where first:
    "next_packet (message (?u # ?ps) [] @ rest, buf) = Ok (int (length ?u + 4), ?u, None, (message ?ps rest, buf1))"
    "conn_ok (message ?ps rest, buf1)" by blast
  let ?s = "NewReportStatus\<lparr>rs_UnpackStatus := rs_UnpackStatus s\<rparr>"
  have "SplitN2 (''unpack '' @ rs_UnpackStatus s) (CHR '' '') = (''unpack'', Some (rs_UnpackStatus s))"
    using SplitN2_pair [of "CHR '' ''" "''unpack''" "rs_UnpackStatus s"] by simp
  then have status: "decodeReportStatus NewReportStatus ?u = (?s, None)"
    unfolding decodeReportStatus_def TrimSuffix_eol unstr_str by (simp add: isFlush_def)
  have "ReportStatus_body t (int (length p + 4)) p = (fst (decodeCommandStatus t p), None)" if "p \<in> set ?ps" for t p
    using that ok by (auto simp: ReportStatus_body_def Flush_def decode_status_line)
  then obtain buf2 where "packet_loop ReportStatus_body ?s (message ?ps rest, buf1) =
      Ok (foldl (\<lambda>s p. fst (decodeCommandStatus s p)) ?s ?ps, (rest, buf2), Inr None)"
    using packet_loop_message [of ?ps "(message ?ps rest, buf1)" rest ReportStatus_body "\<lambda>s p. fst (decodeCommandStatus s p)" None ?s]
      first(2) ok plain_status_line by (auto simp: ReportStatus_body_def Flush_def)
  then have "ReportStatus_Decode NewReportStatus (message (?u # ?ps) [] @ rest, buf) = Ok (s, (rest, buf2), None)"
    unfolding foldl_statuses [OF ok] using first(1) status
    by (simp add: ReportStatus_Decode_def scanFirstLine_def NewReportStatus_def)
  with enc show ?thesis by blast
qed

theorem ReportStatus_roundtrip_witness:
  "\<exists>out buf'. ReportStatus_Encode \<lparr>rs_UnpackStatus = ''ok'', rs_CommandStatuses =
       [\<lparr>cs_ReferenceName = ''refs/heads/a'', cs_Status = ''ok''\<rparr>, \<lparr>cs_ReferenceName = ''refs/heads/b'', cs_Status = ''non fast''\<rparr>]\<rparr> [7] =
       ([7] @ out, Ok ()) \<and>
     ReportStatus_Decode NewReportStatus (out @ [9], replicate 65520 0) =
       Ok (\<lparr>rs_UnpackStatus = ''ok'', rs_CommandStatuses =
         [\<lparr>cs_ReferenceName = ''refs/heads/a'', cs_Status = ''ok''\<rparr>, \<lparr>cs_ReferenceName = ''refs/heads/b'', cs_Status = ''non fast''\<rparr>]\<rparr>,
         ([9], buf'), None)"
  using ReportStatus_roundtrip [of "\<lparr>rs_UnpackStatus = ''ok'', rs_CommandStatuses =
       [\<lparr>cs_ReferenceName = ''refs/heads/a'', cs_Status = ''ok''\<rparr>, \<lparr>cs_ReferenceName = ''refs/heads/b'', cs_Status = ''non fast''\<rparr>]\<rparr>"
     "replicate 65520 0" "[7]" "[9]"]
  by (simp add: status_ok_def)

subsection \<open>Shallow updates\<close>

definition label_line :: "bytes \<Rightarrow> ObjectID \<Rightarrow> bytes" where
  "label_line label h = label @ str (ObjectID_String h) @ eol"

lemma eol_bytes: "eol = [10]"
  by code_simp

lemma TrimSpace_line:
  assumes "s \<noteq> []" and "33 \<le> unat (hd s) \<and> unat (hd s) \<le> 126" and "33 \<le> unat (last s) \<and> unat (last s) \<le> 126"
  shows "TrimSpace (s @ eol) = s"
  unfolding eol_bytes by (rule TrimSpace_newline [OF assms])

definition update_lines :: "ShallowUpdate \<Rightarrow> bytes list" where
  "update_lines r = map (label_line shallow) (su_Shallows r) @ map (label_line unshallow) (su_Unshallows r)"

lemma plain_label_line:
  assumes "sha1_id h" and "label \<noteq> []" and "hd label \<noteq> 69" and "length label \<le> 10"
  shows "plain_payload (label_line label h)"
  using assms sha1_id_text(1) [of h] by (intro plain_other) (simp_all add: label_line_def)

lemma su_encodeHashes_packets:
  "\<forall>h \<in> set hs. sha1_id h \<Longrightarrow> length label \<le> 10 \<Longrightarrow>
    su_encodeHashes label hs out = (out @ concat (map packet (map (label_line label) hs)), Ok ())"
  by (induction hs arbitrary: out) (simp_all add: Writef_packet label_line_def sha1_id_text(1))

lemma TrimSpace_label_line:
  assumes "sha1_id h" and "label \<noteq> []" and "33 \<le> unat (hd label) \<and> unat (hd label) \<le> 126"
  shows "TrimSpace (label_line label h) = label @ str (ObjectID_String h)"
proof -
  have ne: "str (ObjectID_String h) \<noteq> []"
    using sha1_id_text(1) [OF assms(1)] length_str [of "ObjectID_String h"] by (metis list.size(3) zero_neq_numeral)
  then have "last (str (ObjectID_String h)) \<in> set (str (ObjectID_String h))" by simp
  then show ?thesis using TrimSpace_line [of "label @ str (ObjectID_String h)"] assms(2,3) ne hash_bytes [of "last (str (ObjectID_String h))" h]
    by (auto simp: label_line_def)
qed

lemma su_decode_lines:
  assumes "sha1_id h"
  shows "ShallowUpdate_body r l (label_line shallow h) = (r\<lparr>su_Shallows := su_Shallows r @ [h]\<rparr>, None)"
    and "ShallowUpdate_body r l (label_line unshallow h) = (r\<lparr>su_Unshallows := su_Unshallows r @ [h]\<rparr>, None)"
proof -
  have trim: "TrimSpace (label_line shallow h) = shallow @ str (ObjectID_String h)"
    "TrimSpace (label_line unshallow h) = unshallow @ str (ObjectID_String h)"
    by (rule TrimSpace_label_line [OF assms]; simp add: shallow_def unshallow_def)+
  have no: "\<not> HasPrefix (unshallow @ b) shallow" for b by (simp add: shallow_def unshallow_def of_char_def)
  have len: "length unshallow = 10" by (simp add: unshallow_def)
  show "ShallowUpdate_body r l (label_line shallow h) = (r\<lparr>su_Shallows := su_Shallows r @ [h]\<rparr>, None)"
    using sha1_id_text(1) [OF assms] NewHash_text [OF assms]
    by (simp add: ShallowUpdate_body_def trim decodeShallowLine_def su_decodeLine_def shallowLineLen_def)
  show "ShallowUpdate_body r l (label_line unshallow h) = (r\<lparr>su_Unshallows := su_Unshallows r @ [h]\<rparr>, None)"
    using sha1_id_text(1) [OF assms] NewHash_text [OF assms] no
    by (simp add: ShallowUpdate_body_def trim decodeUnshallowLine_def su_decodeLine_def unshallowLineLen_def len)
qed

lemma foldl_update:
  assumes "\<forall>h \<in> set (su_Shallows r) \<union> set (su_Unshallows r). sha1_id h"
  shows "foldl (\<lambda>r p. fst (ShallowUpdate_body r 1 p)) \<lparr>su_Shallows = [], su_Unshallows = []\<rparr> (update_lines r) = r"
proof -
  have "foldl (\<lambda>r p. fst (ShallowUpdate_body r 1 p)) r0 (map (label_line shallow) hs) = r0\<lparr>su_Shallows := su_Shallows r0 @ hs\<rparr>"
    if "\<forall>h \<in> set hs. sha1_id h" for r0 hs
    using that by (induction hs arbitrary: r0) (simp_all add: su_decode_lines)
  moreover have "foldl (\<lambda>r p. fst (ShallowUpdate_body r 1 p)) r0 (map (label_line unshallow) hs) = r0\<lparr>su_Unshallows := su_Unshallows r0 @ hs\<rparr>"
    if "\<forall>h \<in> set hs. sha1_id h" for r0 hs
    using that by (induction hs arbitrary: r0) (simp_all add: su_decode_lines)
  ultimately show ?thesis using assms by (simp add: update_lines_def)
qed

theorem ShallowUpdate_roundtrip:
  assumes ids: "\<forall>h \<in> set (su_Shallows r) \<union> set (su_Unshallows r). sha1_id h" and buf: "length buf = MaxSize"
  shows "\<exists>out buf'. ShallowUpdate_Encode r out0 = (out0 @ out, Ok ()) \<and>
    ShallowUpdate_Decode \<lparr>su_Shallows = [], su_Unshallows = []\<rparr> (out @ rest, buf) = Ok (r, (rest, buf'), None)"
proof -
  let ?r0 = "\<lparr>su_Shallows = [], su_Unshallows = []\<rparr>"
  have len: "length unshallow = 10" by (simp add: unshallow_def)
  have enc: "ShallowUpdate_Encode r out0 = (out0 @ message (update_lines r) [], Ok ())"
    using ids su_encodeHashes_packets len
    by (simp add: ShallowUpdate_Encode_def message_def update_lines_def WriteFlush_def)
  have lines: "\<exists>h. sha1_id h \<and> (p = label_line shallow h \<or> p = label_line unshallow h)" if "p \<in> set (update_lines r)" for p
    using that ids by (auto simp: update_lines_def)
  have plain: "\<forall>p \<in> set (update_lines r). plain_payload p"
  proof
    fix p
    assume "p \<in> set (update_lines r)"
    with lines obtain h where "sha1_id h" "p = label_line shallow h \<or> p = label_line unshallow h" by blast
    then show "plain_payload p"
      using plain_label_line [of h shallow] plain_label_line [of h unshallow] len
      by (auto simp: shallow_def unshallow_def of_char_def)
  qed
  have step: "ShallowUpdate_body t (int (length p + 4)) p = (fst (ShallowUpdate_body t 1 p), None)" if "p \<in> set (update_lines r)" for t p
    using lines [OF that] su_decode_lines by auto
  have flush: "ShallowUpdate_body t 0 [] = (t, Some None)" for t
    using TrimLeftSpace_Nil by (simp add: ShallowUpdate_body_def Flush_def TrimSpace_def shallow_def unshallow_def)
  have "conn_ok (message (update_lines r) rest, buf)" using buf by (simp add: conn_ok_def)
  from packet_loop_message [OF plain this _ step flush, of rest ?r0] obtain buf' where
    "packet_loop ShallowUpdate_body ?r0 (message (update_lines r) rest, buf) = Ok (r, (rest, buf'), Inr None)"
    unfolding foldl_update [OF ids] by auto
  then have "ShallowUpdate_Decode ?r0 (message (update_lines r) [] @ rest, buf) = Ok (r, (rest, buf'), None)"
    by (simp add: ShallowUpdate_Decode_def message_def)
  with enc show ?thesis by blast
qed

subsection \<open>Server responses\<close>

definition ack_line :: "ObjectID \<Rightarrow> string \<Rightarrow> bytes" where
  "ack_line h s = ack @ sp @ str (ObjectID_String h) @ (if s = [] then [] else sp @ str s) @ eol"

lemma ack_line_length: "sha1_id h \<Longrightarrow> length (ack_line h s) = 45 + (if s = [] then 0 else 1 + length s)"
  by (simp add: ack_line_def ack_def sha1_id_text(1))

lemma plain_ack_line: "sha1_id h \<Longrightarrow> length s \<le> 10 \<Longrightarrow> plain_payload (ack_line h s)"
  by (rule plain_other) (auto simp: ack_line_length, simp_all add: ack_line_def ack_def of_char_def)

lemma ack_line_parts:
  assumes "(32 :: byte) \<notin> set (str s)"
  shows "SplitChar (ack_line h s) 32 =
    (if s = [] then [ack, str (ObjectID_String h) @ eol] else [ack, str (ObjectID_String h), str s @ eol])"
proof -
  have bytes: "sp = [32]" "(32 :: byte) \<notin> set ack" "(32 :: byte) \<notin> set eol"
    by (simp_all add: sp_def ack_def eol_bytes of_char_def)
  then show ?thesis unfolding ack_line_def bytes(1)
    using assms no_space_in_hash [of h] by (simp add: SplitChar_cons SplitChar_no)
qed

lemma sr_decode_ack_line:
  assumes h: "sha1_id h" and s: "(32 :: byte) \<notin> set (str s)"
  shows "sr_decodeLine acks (ack_line h s) =
    (if s = [] then (acks @ [\<lparr>ack_Hash = h, ack_Status = 0\<rparr>], Some EOF)
     else (acks @ [\<lparr>ack_Hash = h, ack_Status = (let status = unstr (TrimSpace (str s @ eol)) in
            if status = ''continue'' then ACKContinue else if status = ''common'' then ACKCommon
            else if status = ''ready'' then ACKReady else 0)\<rparr>], None))"
proof -
  have "take 3 (ack_line h s) = ack" by (simp add: ack_line_def ack_def)
  moreover have "TrimSuffix (str (ObjectID_String h)) eol = str (ObjectID_String h)"
  proof -
    have "(10 :: byte) \<notin> set (str (ObjectID_String h))" using hash_bytes [of 10 h] by auto
    then have "\<not> HasSuffix (str (ObjectID_String h)) eol" by (metis HasSuffix_iff eol_bytes in_set_conv_decomp)
    then show ?thesis by (simp add: TrimSuffix_def)
  qed
  ultimately show ?thesis
    using ack_line_parts [OF s, of h] ack_line_length [OF h, of s] NewHash_text [OF h]
    by (simp add: sr_decodeLine_def decodeACKLine_def ackLineLen_def Let_def)
qed

lemma status_texts:
  assumes "st \<in> {ACKContinue, ACKCommon, ACKReady}"
  shows "ACKStatus_String st \<noteq> []" "length (ACKStatus_String st) \<le> 10" "(32 :: byte) \<notin> set (str (ACKStatus_String st))"
    "TrimSpace (str (ACKStatus_String st) @ eol) = str (ACKStatus_String st)" "st > 0"
    "(let status = ACKStatus_String st in if status = ''continue'' then ACKContinue else if status = ''common'' then ACKCommon
            else if status = ''ready'' then ACKReady else 0) = st"
proof -
  have cases: "st = ACKContinue \<or> st = ACKCommon \<or> st = ACKReady" using assms by blast
  have vals: "ACKStatus_String ACKContinue = ''continue''" "ACKStatus_String ACKCommon = ''common''" "ACKStatus_String ACKReady = ''ready''"
    by (simp_all add: ACKStatus_String_def ACKContinue_def ACKCommon_def ACKReady_def)
  show "TrimSpace (str (ACKStatus_String st) @ eol) = str (ACKStatus_String st)"
    using cases by (intro TrimSpace_line) (elim disjE; simp add: vals of_char_def)+
  show "ACKStatus_String st \<noteq> []" "length (ACKStatus_String st) \<le> 10" "(32 :: byte) \<notin> set (str (ACKStatus_String st))"
    using cases by (elim disjE; simp add: vals of_char_def)+
  show "st > 0" using cases by (auto simp: ACKContinue_def ACKCommon_def ACKReady_def)
  show "(let status = ACKStatus_String st in if status = ''continue'' then ACKContinue else if status = ''common'' then ACKCommon
            else if status = ''ready'' then ACKReady else 0) = st"
    using cases by (elim disjE; simp add: vals)
qed

definition multi_ok :: "ACK \<Rightarrow> bool" where
  "multi_ok a \<longleftrightarrow> sha1_id (ack_Hash a) \<and> ack_Status a \<in> {ACKContinue, ACKCommon, ACKReady}"

definition multi_line :: "ACK \<Rightarrow> bytes" where
  "multi_line a = ack_line (ack_Hash a) (ACKStatus_String (ack_Status a))"

lemma sr_decode_multi: "multi_ok a \<Longrightarrow> sr_decodeLine acks (multi_line a) = (acks @ [a], None)"
proof -
  assume a: "multi_ok a"
  then have h: "sha1_id (ack_Hash a)" and st: "ack_Status a \<in> {ACKContinue, ACKCommon, ACKReady}"
    by (simp_all add: multi_ok_def)
  show ?thesis using sr_decode_ack_line [OF h status_texts(3) [OF st], of acks] status_texts(1,4,6) [OF st]
    by (simp add: multi_line_def Let_def)
qed

lemma encodeACKs_multi:
  "\<forall>a \<in> set as. multi_ok a \<Longrightarrow> as \<noteq> [] \<or> multi \<Longrightarrow>
    encodeACKs h multi (as @ bs) out = encodeACKs h True bs (out @ concat (map packet (map multi_line as)))"
proof (induction as arbitrary: multi out)
  case (Cons a as)
  then have a: "sha1_id (ack_Hash a)" and st: "ack_Status a \<in> {ACKContinue, ACKCommon, ACKReady}" by (simp_all add: multi_ok_def)
  have "length (multi_line a) \<le> MaxPayloadSize"
    using plain_ack_line [OF a status_texts(2) [OF st]] by (simp add: plain_payload_def multi_line_def)
  then show ?case using Cons status_texts(1,5) [OF st] by (simp add: Writef_packet Let_def multi_line_def ack_line_def)
qed simp

text \<open>
  C25. Acknowledgements with a status are decoded as they were encoded. An acknowledgement without a
  status behind them ends the response, but the encoder writes it with the hash of the first
  acknowledgement: the peer is told of another object.
\<close>

theorem ServerResponse_final_ack:
  assumes as: "\<forall>a \<in> set (a # as). multi_ok a" and b: "ack_Status b = 0" and buf: "length buf = MaxSize"
  shows "\<exists>out buf'. ServerResponse_Encode (a # as @ [b]) out0 = (out0 @ out, Ok ()) \<and>
    ServerResponse_Decode [] (out @ rest, buf) = Ok (a # as @ [b\<lparr>ack_Hash := ack_Hash a\<rparr>], (rest, buf'), None)"
proof -
  let ?ps = "map multi_line (a # as)"
  let ?l = "ack_line (ack_Hash a) []"
  have h: "sha1_id (ack_Hash a)" using as by (simp add: multi_ok_def)
  have l: "plain_payload ?l" using plain_ack_line [OF h, of "[]"] by simp
  then have enc: "ServerResponse_Encode (a # as @ [b]) out0 = (out0 @ concat (map packet ?ps) @ packet ?l, Ok ())"
    using encodeACKs_multi [OF as, of False "ack_Hash a" "[b]" out0] b
    by (simp add: ServerResponse_Encode_def plain_payload_def Writef_packet Let_def ack_line_def)
  let ?body = "\<lambda>acks (l :: int) p. sr_decodeLine acks p"
  have plain: "\<forall>p \<in> set ?ps. plain_payload p"
    using as plain_ack_line status_texts(2) by (auto simp: multi_line_def multi_ok_def)
  have step: "?body acks (int (length p + 4)) p = (fst (sr_decodeLine acks p), None)" if "p \<in> set ?ps" for acks p
    using that as sr_decode_multi by auto
  have fold: "foldl (\<lambda>acks p. fst (sr_decodeLine acks p)) acks (map multi_line as) = acks @ as" if "\<forall>a \<in> set as. multi_ok a" for acks as
    using that by (induction as arbitrary: acks) (simp_all add: sr_decode_multi)
  let ?c = "(concat (map packet ?ps) @ packet ?l @ rest, buf)"
  have "conn_ok ?c" "fst ?c = concat (map packet ?ps) @ packet ?l @ rest" using buf by (simp_all add: conn_ok_def)
  note loop' = packet_loop_packets [of ?ps ?c "packet ?l @ rest" ?body "\<lambda>acks p. fst (sr_decodeLine acks p)" "[]", OF plain this step]
  then obtain buf1 where loop:
    "packet_loop ?body [] ?c = packet_loop ?body (a # as) (packet ?l @ rest, buf1)" "conn_ok (packet ?l @ rest, buf1)"
    unfolding fold [OF as, of "[]"] append_Nil by blast
  from next_packet_plain [OF l loop(2)] obtain buf2 where
    "next_packet (packet ?l @ rest, buf1) = Ok (int (length ?l + 4), ?l, None, (rest, buf2))" by auto
  moreover have "sr_decodeLine (a # as) ?l = (a # as @ [\<lparr>ack_Hash = ack_Hash a, ack_Status = 0\<rparr>], Some EOF)"
    using sr_decode_ack_line [OF h, of "[]" "a # as"] by simp
  ultimately have "packet_loop ?body (a # as) (packet ?l @ rest, buf1) =
      Ok (a # as @ [\<lparr>ack_Hash = ack_Hash a, ack_Status = 0\<rparr>], (rest, buf2), Inr EOF)"
    by (subst packet_loop.simps) simp
  then have "ServerResponse_Decode [] ?c = Ok (a # as @ [\<lparr>ack_Hash = ack_Hash a, ack_Status = 0\<rparr>], (rest, buf2), None)"
    using loop(1) by (simp add: ServerResponse_Decode_def)
  moreover have "b\<lparr>ack_Hash := ack_Hash a\<rparr> = \<lparr>ack_Hash = ack_Hash a, ack_Status = 0\<rparr>" using b by simp
  ultimately show ?thesis using enc by (intro exI [of _ "concat (map packet ?ps) @ packet ?l"] exI [of _ buf2]) simp
qed

theorem ServerResponse_final_ack_witness:
  "\<exists>out buf'. ServerResponse_Encode [\<lparr>ack_Hash = ZeroHash, ack_Status = 1\<rparr>, \<lparr>ack_Hash = NewHash ''01'', ack_Status = 0\<rparr>] [] = ([] @ out, Ok ()) \<and>
     ServerResponse_Decode [] (out @ [9], replicate 65520 0) =
       Ok ([\<lparr>ack_Hash = ZeroHash, ack_Status = 1\<rparr>, \<lparr>ack_Hash = ZeroHash, ack_Status = 0\<rparr>], ([9], buf'), None)"
  using ServerResponse_final_ack [of "\<lparr>ack_Hash = ZeroHash, ack_Status = 1\<rparr>" "[]" "\<lparr>ack_Hash = NewHash ''01'', ack_Status = 0\<rparr>"
      "replicate 65520 0" "[]" "[9]"] sha1_id_ZeroHash
  by (simp add: multi_ok_def ACKContinue_def)

subsection \<open>Requests of the git protocol\<close>

definition proto_ok :: "GitProtoRequest \<Rightarrow> bool" where
  "proto_ok g \<longleftrightarrow>
     gp_RequestCommand g \<noteq> [] \<and> gp_RequestCommand g \<noteq> ''ERR'' \<and> CHR '' '' \<notin> set (gp_RequestCommand g) \<and>
     gp_Pathname g \<noteq> [] \<and> (\<forall>s \<in> set (gp_Pathname g # gp_Host g # gp_ExtraParams g). char_of (0 :: nat) \<notin> set s) \<and>
     [] \<notin> set (gp_ExtraParams g) \<and>
     length (gp_RequestCommand g) + length (gp_Pathname g) + length (gp_Host g) +
       sum_list (map (\<lambda>p. Suc (length p)) (gp_ExtraParams g)) \<le> 65000"

definition proto_params :: "GitProtoRequest \<Rightarrow> string list" where
  "proto_params g =
     [gp_Pathname g] @ (if gp_Host g \<noteq> [] then [''host='' @ gp_Host g] else []) @
     (if gp_ExtraParams g \<noteq> [] then [] # gp_ExtraParams g else [])"

definition proto_line :: "GitProtoRequest \<Rightarrow> string" where
  "proto_line g = gp_RequestCommand g @ '' '' @ concat (map (\<lambda>p. p @ NUL) (proto_params g))"

lemma GitProtoRequest_Encode_line:
  assumes "proto_ok g"
  shows "GitProtoRequest_Encode g out = Writef out (str (proto_line g))"
  using assms by (auto simp: GitProtoRequest_Encode_def GitProtoRequest_validate_def proto_ok_def proto_line_def proto_params_def Let_def)

lemma SplitChar_terminated:
  "\<forall>p \<in> set ps. c \<notin> set p \<Longrightarrow> SplitChar (concat (map (\<lambda>p. p @ [c]) ps)) c = ps @ [[]]"
  by (induction ps) (simp_all add: SplitChar_cons)

lemma proto_line_length:
  assumes "proto_ok g"
  shows "length (proto_line g) \<le> 65010 + 5" "proto_line g \<noteq> []" "List.last (proto_line g) = char_of (0 :: nat)"
proof -
  have "length (concat (map (\<lambda>p. p @ NUL) ps)) = sum_list (map (\<lambda>p. Suc (length p)) ps)" for ps :: "string list"
    by (induction ps) (simp_all add: NUL_def)
  then show "length (proto_line g) \<le> 65010 + 5" using assms
    by (auto simp: proto_line_def proto_params_def proto_ok_def NUL_def)
  show "proto_line g \<noteq> []" by (simp add: proto_line_def)
  have ends: "concat (map (\<lambda>p. p @ NUL) ps) \<noteq> [] \<and> List.last (concat (map (\<lambda>p. p @ NUL) ps)) = char_of (0 :: nat)"
    if "ps \<noteq> []" for ps :: "string list"
    using that by (induction ps rule: list_nonempty_induct) (simp_all add: NUL_def)
  have "proto_params g \<noteq> []" by (simp add: proto_params_def)
  from ends [OF this] last_appendR [of "concat (map (\<lambda>p. p @ NUL) (proto_params g))" "gp_RequestCommand g @ '' ''"]
  show "List.last (proto_line g) = char_of (0 :: nat)" unfolding proto_line_def append_assoc by (simp only: simp_thms)
qed

lemma plain_proto_line:
  assumes "proto_ok g"
  shows "plain_payload (str (proto_line g))"
proof -
  have "\<not> HasPrefix errPrefix (take 4 (str (proto_line g)))"
  proof
    assume "HasPrefix errPrefix (take 4 (str (proto_line g)))"
    moreover have "length (take 4 (str (proto_line g))) = 4"
      using assms by (cases "gp_RequestCommand g"; cases "gp_Pathname g")
        (simp_all add: proto_ok_def proto_line_def proto_params_def NUL_def)
    ultimately have "str (take 4 (proto_line g)) = errPrefix" by (auto simp: HasPrefix_def errPrefix_def str_def take_map)
    then have "take 4 (proto_line g) = ''ERR ''" by (metis errPrefix_def unstr_str)
    then obtain u where "proto_line g = ''ERR '' @ u" using append_take_drop_id [of 4 "proto_line g"] by metis
    then have "takeWhile (\<lambda>c. c \<noteq> CHR '' '') (proto_line g) = ''ERR''" by simp
    moreover have "takeWhile (\<lambda>c. c \<noteq> CHR '' '') (proto_line g) = gp_RequestCommand g"
      using assms unfolding proto_line_def by (subst takeWhile_append2) (auto simp: proto_ok_def)
    ultimately show False using assms by (simp add: proto_ok_def)
  qed
  then show ?thesis using proto_line_length(1) [OF assms] by (simp add: plain_payload_def)
qed

text \<open>
  A request of the git protocol is decoded as it was encoded: the command, the path, the host
  and the extra parameters, whichever of the optional parts it has.
\<close>

theorem GitProtoRequest_roundtrip:
  assumes ok: "proto_ok g" and buf: "length buf = MaxSize"
  shows "\<exists>out buf'. GitProtoRequest_Encode g out0 = (out0 @ out, Ok ()) \<and>
    GitProtoRequest_Decode \<lparr>gp_RequestCommand = [], gp_Pathname = [], gp_Host = [], gp_ExtraParams = []\<rparr> (out @ rest, buf) =
      Ok (g, (rest, buf'), None)"
proof -
  let ?l = "str (proto_line g)"
  have enc: "GitProtoRequest_Encode g out0 = (out0 @ packet ?l, Ok ())"
    using GitProtoRequest_Encode_line [OF ok] plain_proto_line [OF ok] Writef_packet [of ?l] by (simp add: plain_payload_def)
  have conn: "conn_ok (packet ?l @ rest, buf)" "fst (packet ?l @ rest, buf) = packet ?l @ rest" using buf by (simp_all add: conn_ok_def)
  obtain buf' where np: "next_packet (packet ?l @ rest, buf) = Ok (int (length ?l + 4), ?l, None, (rest, buf'))"
    using next_packet_plain [OF plain_proto_line [OF ok] conn] by blast
  have split: "SplitN2 (proto_line g) (CHR '' '') = (gp_RequestCommand g, Some (concat (map (\<lambda>p. p @ NUL) (proto_params g))))"
    using ok SplitN2_pair [of "CHR '' ''" "gp_RequestCommand g"] by (simp add: proto_line_def proto_ok_def)
  have "\<forall>p \<in> set (proto_params g). char_of (0 :: nat) \<notin> set p"
    using ok by (auto simp: proto_params_def proto_ok_def char_of_def)
  then have params: "SplitChar (concat (map (\<lambda>p. p @ NUL) (proto_params g))) (char_of (0 :: nat)) = proto_params g @ [[]]"
    by (simp add: NUL_def SplitChar_terminated)
  have extra: "filter (\<lambda>p. p \<noteq> []) (gp_ExtraParams g) = gp_ExtraParams g" using ok by (auto simp: proto_ok_def filter_id_conv)
  have "GitProtoRequest_Decode \<lparr>gp_RequestCommand = [], gp_Pathname = [], gp_Host = [], gp_ExtraParams = []\<rparr> (packet ?l @ rest, buf) =
      Ok (g, (rest, buf'), None)"
    using np proto_line_length(2,3) [OF ok] split extra params
    by (cases "gp_Host g = []"; cases "gp_ExtraParams g = []")
      (simp_all add: GitProtoRequest_Decode_def proto_params_def TrimPrefix_def Let_def)
  with enc show ?thesis by blast
qed

theorem GitProtoRequest_roundtrip_witness:
  "\<exists>out buf'. GitProtoRequest_Encode
      \<lparr>gp_RequestCommand = ''git-upload-pack'', gp_Pathname = ''/a'', gp_Host = ''h'', gp_ExtraParams = [''version=2'']\<rparr> [] = ([] @ out, Ok ()) \<and>
    GitProtoRequest_Decode \<lparr>gp_RequestCommand = [], gp_Pathname = [], gp_Host = [], gp_ExtraParams = []\<rparr> (out @ [9], replicate 65520 0) =
      Ok (\<lparr>gp_RequestCommand = ''git-upload-pack'', gp_Pathname = ''/a'', gp_Host = ''h'', gp_ExtraParams = [''version=2'']\<rparr>, ([9], buf'), None)"
  using GitProtoRequest_roundtrip [of "\<lparr>gp_RequestCommand = ''git-upload-pack'', gp_Pathname = ''/a'', gp_Host = ''h'', gp_ExtraParams = [''version=2'']\<rparr>"
      "replicate 65520 0" "[]" "[9]"]
  by (simp add: proto_ok_def char_of_def)

subsection \<open>Haves and push options\<close>

definition have_label :: bytes where "have_label = str ''have ''"

lemma encodeHaves_packets:
  "\<forall>h \<in> set hs. sha1_id h \<Longrightarrow>
    encodeHaves l hs out = (out @ concat (map packet (map (label_line have_label) (dedup l hs))), Ok ())"
  by (induction l hs out rule: encodeHaves.induct) (simp_all add: Writef_packet label_line_def have_label_def sha1_id_text(1))

lemma UploadHaves_line:
  assumes "sha1_id h"
  shows "UploadHaves_body u (int (length (label_line have_label h) + 4)) (label_line have_label h) =
    (u\<lparr>uh_Haves := uh_Haves u @ [h]\<rparr>, None)"
proof -
  have "TrimSpace (str (ObjectID_String h) @ eol) = str (ObjectID_String h)"
  proof (rule TrimSpace_line)
    show ne: "str (ObjectID_String h) \<noteq> []"
      using sha1_id_text(1) [OF assms] length_str [of "ObjectID_String h"] by (metis list.size(3) zero_neq_numeral)
    show "33 \<le> unat (hd (str (ObjectID_String h))) \<and> unat (hd (str (ObjectID_String h))) \<le> 126"
      "33 \<le> unat (last (str (ObjectID_String h))) \<and> unat (last (str (ObjectID_String h))) \<le> 126"
      using hash_bytes [of _ h] hd_in_set [OF ne] last_in_set [OF ne] by fastforce+
  qed
  then show ?thesis using NewHash_text [OF assms]
    by (simp add: UploadHaves_body_def Flush_def label_line_def have_label_def of_char_def)
qed

theorem UploadHaves_roundtrip:
  assumes ids: "\<forall>h \<in> set (uh_Haves u). sha1_id h" and more: "\<not> uh_Done u" and buf: "length buf = MaxSize"
  shows "\<exists>u' out v buf'. UploadHaves_Encode u out0 = (u', out0 @ out, Ok ()) \<and>
    UploadHaves_Decode \<lparr>uh_Haves = [], uh_Done = False\<rparr> (out @ rest, buf) = Ok (v, (rest, buf'), None) \<and>
    set (uh_Haves v) = set (uh_Haves u) - {ZeroHash} \<and> distinct (uh_Haves v) \<and> \<not> uh_Done v"
proof -
  define hs where "hs = dedup ZeroHash (HashesSort (uh_Haves u))"
  let ?ps = "map (label_line have_label) hs"
  let ?u0 = "\<lparr>uh_Haves = [], uh_Done = False\<rparr>"
  have hs: "\<forall>h \<in> set hs. sha1_id h" using ids dedup_subset [of ZeroHash "HashesSort (uh_Haves u)"] by (auto simp: hs_def)
  have enc: "UploadHaves_Encode u out0 = (u\<lparr>uh_Haves := HashesSort (uh_Haves u)\<rparr>, out0 @ message ?ps [], Ok ())"
    using encodeHaves_packets [of "HashesSort (uh_Haves u)" ZeroHash out0] ids more
    by (simp add: UploadHaves_Encode_def Let_def message_def WriteFlush_def hs_def)
  have plain: "\<forall>p \<in> set ?ps. plain_payload p"
    using hs plain_label_line [of _ have_label] by (auto simp: have_label_def of_char_def)
  have step: "UploadHaves_body t (int (length p + 4)) p = (fst (UploadHaves_body t (int (length p + 4)) p), None)" if "p \<in> set ?ps" for t p
    using that hs UploadHaves_line by auto
  have fold: "foldl (\<lambda>t p. fst (UploadHaves_body t (int (length p + 4)) p)) t (map (label_line have_label) hs) =
      t\<lparr>uh_Haves := uh_Haves t @ hs\<rparr>" if "\<forall>h \<in> set hs. sha1_id h" for t hs
    using that by (induction hs arbitrary: t) (simp_all add: UploadHaves_line del: of_nat_add)
  have flush: "UploadHaves_body t 0 [] = (t, Some None)" for t by (simp add: UploadHaves_body_def Flush_def)
  have "conn_ok (message ?ps rest, buf)" using buf by (simp add: conn_ok_def)
  from packet_loop_message [of ?ps "(message ?ps rest, buf)" rest UploadHaves_body
      "\<lambda>t p. fst (UploadHaves_body t (int (length p + 4)) p)" None ?u0, OF plain this _ step flush]
  obtain buf' where "packet_loop UploadHaves_body ?u0 (message ?ps rest, buf) = Ok (?u0\<lparr>uh_Haves := hs\<rparr>, (rest, buf'), Inr None)"
    unfolding fold [OF hs] by auto
  then have "UploadHaves_Decode ?u0 (message ?ps [] @ rest, buf) = Ok (?u0\<lparr>uh_Haves := hs\<rparr>, (rest, buf'), None)"
    by (simp add: UploadHaves_Decode_def message_def)
  with enc dedup_Zero [OF ids] show ?thesis by (fastforce simp: hs_def)
qed

theorem PushOptions_roundtrip:
  assumes opts: "opts \<noteq> []" "\<forall>opt \<in> set opts. plain_payload (str opt)" and buf: "length buf = MaxSize"
  shows "\<exists>out buf'. PushOptions_Encode opts out0 = (out0 @ out, Ok ()) \<and>
    PushOptions_Decode [] (out @ rest, buf) = Ok (opts, (rest, buf'), None)"
proof -
  have loop: "PushOptions_Encode_loop opts out = (out @ message (map str opts) [], Ok ())" if "\<forall>opt \<in> set opts. plain_payload (str opt)" for opts out
    using that by (induction opts arbitrary: out) (simp_all add: message_simps WriteFlush_def Writef_packet plain_payload_def)
  have fold: "foldl (\<lambda>os p. os @ [unstr p]) os (map str opts) = os @ opts" for os opts
    by (induction opts arbitrary: os) simp_all
  have "conn_ok (message (map str opts) rest, buf)" using buf by (simp add: conn_ok_def)
  from packet_loop_message [of "map str opts" "(message (map str opts) rest, buf)" rest PushOptions_body "\<lambda>os p. os @ [unstr p]" "()" "[]", OF _ this]
  obtain buf' where "packet_loop PushOptions_body [] (message (map str opts) rest, buf) = Ok (opts, (rest, buf'), Inr ())"
    using opts(2) by (auto simp: PushOptions_body_def Flush_def fold)
  then have "PushOptions_Decode [] (message (map str opts) [] @ rest, buf) = Ok (opts, (rest, buf'), None)"
    by (simp add: PushOptions_Decode_def message_def)
  with loop [OF opts(2), of out0] opts(1) show ?thesis by (auto simp: PushOptions_Encode_def)
qed

end
