(* ===== verification/AdvRefs.thy ===== *)
theory AdvRefs
  imports Messages MemoryStorage "HOL-Library.Char_ord" "HOL-Library.List_Lexorder" "HOL-Library.Multiset"
begin

text \<open>
  The advertised references: \<^verbatim>\<open>advrefs.go\<close>, \<^verbatim>\<open>advrefs_encode.go\<close> and \<^verbatim>\<open>advrefs_decode.go\<close>. The maps of the
  message are association lists; \<^verbatim>\<open>sort.Strings\<close> is sorting by the lexicographic order of strings. The
  decoder is a machine whose states are the functions the sources return.
\<close>

section \<open>Messages\<close>

definition head_name :: string where "head_name = ''HEAD''"
definition noHead :: string where "noHead = ''capabilities^{}''"
definition peeled :: string where "peeled = ''^{}''"
definition noHeadMark :: bytes where "noHeadMark = sp @ str noHead @ [0]"

record AdvRefs =
  av_Head :: "ObjectID option"
  av_Capabilities :: List
  av_References :: "(string \<times> ObjectID) list"
  av_Peeled :: "(string \<times> ObjectID) list"
  av_Shallows :: "ObjectID list"

definition NewAdvRefs :: AdvRefs where
  "NewAdvRefs = \<lparr>av_Head = None, av_Capabilities = NewList, av_References = [], av_Peeled = [], av_Shallows = []\<rparr>"

abbreviation SymRef :: Capability where "SymRef \<equiv> ''symref''"
abbreviation ErrInvalidType :: error where "ErrInvalidType \<equiv> Sentinel ''ErrInvalidType''"
abbreviation NewUnexpectedError :: "error \<Rightarrow> error" where "NewUnexpectedError e \<equiv> Wrapped ''unexpected client error'' e"

definition AddReference :: "AdvRefs \<Rightarrow> Reference \<Rightarrow> AdvRefs \<times> unit result" where
  "AddReference a r =
     (if ref_t r = SymbolicReference
      then let (caps, res) = List_Add (av_Capabilities a) SymRef [ref_n r @ '':'' @ ref_target r]
           in (a\<lparr>av_Capabilities := caps\<rparr>, res)
      else if ref_t r = HashReference
      then (a\<lparr>av_References := AList.update (ref_n r) (ref_h r) (av_References a)\<rparr>, Ok ())
      else (a, Error ErrInvalidType))"

definition AdvRefs_IsEmpty :: "AdvRefs \<Rightarrow> bool" where
  "AdvRefs_IsEmpty a \<longleftrightarrow>
     (case av_Head a of None \<Rightarrow> True | Some h \<Rightarrow> ObjectID_IsZero h) \<and>
     length (av_References a) = 0 \<and> length (av_Peeled a) = 0 \<and> length (av_Shallows a) = 0"

section \<open>References of a message\<close>

definition createHeadIfCorrectReference :: "ObjectID \<Rightarrow> Reference \<Rightarrow> ReferenceStorage \<Rightarrow> bool \<times> ReferenceStorage" where
  "createHeadIfCorrectReference h ref s =
     (if ref_h ref = h then (True, fst (mem_SetReference s (Some (NewSymbolicReference HEAD (ref_n ref))))) else (False, s))"

fun resolveHead_loop :: "ObjectID \<Rightarrow> string list \<Rightarrow> ReferenceStorage \<Rightarrow> ReferenceStorage \<times> unit result" where
  "resolveHead_loop h [] s = (s, Error ErrReferenceNotFound)"
| "resolveHead_loop h (n # ns) s =
     (case mem_Reference s n of
        Ok (Some ref) \<Rightarrow>
          (case createHeadIfCorrectReference h ref s of
             (True, s') \<Rightarrow> (s', Ok ())
           | (False, s') \<Rightarrow> resolveHead_loop h ns s')
      | Ok None \<Rightarrow> (s, Panic)
      | Error e \<Rightarrow> (s, Error e)
      | Panic \<Rightarrow> (s, Panic))"

definition resolveHead :: "AdvRefs \<Rightarrow> ReferenceStorage \<Rightarrow> ReferenceStorage \<times> unit result" where
  "resolveHead a s =
     (case av_Head a of
        None \<Rightarrow> (s, Ok ())
      | Some h \<Rightarrow>
          let guess = (\<lambda>s. resolveHead_loop h (sort (map (\<lambda>(n, r). ref_n r) s)) s)
          in case mem_Reference s Master of
               Ok (Some ref) \<Rightarrow>
                 (case createHeadIfCorrectReference h ref s of (True, s') \<Rightarrow> (s', Ok ()) | (False, s') \<Rightarrow> guess s')
             | Ok None \<Rightarrow> (s, Panic)
             | Error e \<Rightarrow> if e \<noteq> ErrReferenceNotFound then (s, Error e) else guess s
             | Panic \<Rightarrow> (s, Panic))"

fun addSymbolicRefs :: "string list \<Rightarrow> ReferenceStorage \<Rightarrow> ReferenceStorage \<times> unit result" where
  "addSymbolicRefs [] s = (s, Ok ())"
| "addSymbolicRefs (v # vs) s =
     (case SplitChar v (CHR '':'') of
        [name, target] \<Rightarrow> addSymbolicRefs vs (fst (mem_SetReference s (Some (NewSymbolicReference name target))))
      | _ \<Rightarrow> (s, Error (NewUnexpectedError (Sentinel ''bad number of `:` in symref value''))))"

definition supportSymrefs :: "AdvRefs \<Rightarrow> bool" where
  "supportSymrefs a \<longleftrightarrow> Supports (av_Capabilities a) SymRef"

definition addRefs :: "AdvRefs \<Rightarrow> ReferenceStorage \<Rightarrow> ReferenceStorage \<times> unit result" where
  "addRefs a s =
     (let s = foldl (\<lambda>s (n, h). fst (mem_SetReference s (Some (NewReferenceFromStrings n (ObjectID_String h))))) s (av_References a)
      in if supportSymrefs a then addSymbolicRefs (List_Get (av_Capabilities a) SymRef) s else resolveHead a s)"

definition AllReferences :: "AdvRefs \<Rightarrow> ReferenceStorage \<times> unit result" where
  "AllReferences a =
     (case addRefs a [] of
        (s, Error e) \<Rightarrow> (s, Error (NewUnexpectedError e))
      | r \<Rightarrow> r)"

definition MakeReferenceSlice :: "AdvRefs \<Rightarrow> Reference list result" where
  "MakeReferenceSlice a =
     (case AllReferences a of
        (refs, Ok u) \<Rightarrow>
          Ok (sort_key ref_n (concat (map (\<lambda>(n, ref).
            ref # (case map_of (av_Peeled a) (ref_n ref) of
                     None \<Rightarrow> []
                   | Some p \<Rightarrow> [NewReferenceFromStrings (ref_n ref @ ''^{}'') (ObjectID_String p)])) refs)))
      | (refs, Error e) \<Rightarrow> Error e
      | (refs, Panic) \<Rightarrow> Panic)"

section \<open>Encoding\<close>








section \<open>Decoding\<close>

abbreviation ErrEmptyAdvRefs :: error where "ErrEmptyAdvRefs \<equiv> Sentinel ''ErrEmptyAdvRefs''"
abbreviation ErrEmptyInput :: error where "ErrEmptyInput \<equiv> Sentinel ''ErrEmptyInput''"

record advRefsDecoder =
  ad_conn :: conn
  ad_line :: bytes
  ad_nLine :: nat
  ad_hash :: ObjectID
  ad_err :: "error option"
  ad_data :: AdvRefs

datatype advState = DecodeFirstHash | DecodeSkipNoRefs | DecodeFirstRef | DecodeRefCaps | DecodeOtherRefs | DecodeShallows

definition ad_error :: "string \<Rightarrow> advRefsDecoder \<Rightarrow> advRefsDecoder" where
  "ad_error msg d = d\<lparr>ad_err := Some (NewErrUnexpectedData msg)\<rparr>"

definition ad_nextLine :: "advRefsDecoder \<Rightarrow> (bool \<times> advRefsDecoder) result" where
  "ad_nextLine d0 =
     (let d = d0\<lparr>ad_nLine := ad_nLine d0 + 1\<rparr>
      in rbind (next_packet (ad_conn d)) (\<lambda>(l, p, err, c).
           let d = d\<lparr>ad_conn := c\<rparr>
           in case err of
                Some e \<Rightarrow>
                  if \<not> errors_Is e EOF then Ok (False, d\<lparr>ad_err := Some e\<rparr>)
                  else if ad_nLine d = 1 then Ok (False, d\<lparr>ad_err := Some ErrEmptyInput\<rparr>)
                  else Ok (False, ad_error ''EOF'' d)
              | None \<Rightarrow> Ok (True, d\<lparr>ad_line := TrimSuffix p eol\<rparr>)))"

type_synonym adv_step = "(advState option \<times> advRefsDecoder) result"

definition decodeFirstHash :: "advRefsDecoder \<Rightarrow> adv_step" where
  "decodeFirstHash p =
     rbind (ad_nextLine p) (\<lambda>(ok, p).
       if \<not> ok then Ok (None, p)
       else if isFlush (ad_line p) then Ok (None, p\<lparr>ad_err := Some ErrEmptyAdvRefs\<rparr>)
       else if length (ad_line p) < hashSize then Ok (None, ad_error ''cannot read hash, pkt-line too short'' p)
       else case FromHex (unstr (take hashSize (ad_line p))) of
              (h, ok) \<Rightarrow>
                if \<not> ok then Ok (None, ad_error ''invalid hash text'' p)
                else let p = p\<lparr>ad_hash := h, ad_line := drop hashSize (ad_line p)\<rparr>
                     in if ObjectID_IsZero (ad_hash p) then Ok (Some DecodeSkipNoRefs, p) else Ok (Some DecodeFirstRef, p))"

definition decodeSkipNoRefs :: "advRefsDecoder \<Rightarrow> adv_step" where
  "decodeSkipNoRefs p =
     (if length (ad_line p) < length noHeadMark then Ok (None, ad_error ''too short zero-id ref'' p)
      else if \<not> HasPrefix (ad_line p) noHeadMark then Ok (None, ad_error ''malformed zero-id ref'' p)
      else Ok (Some DecodeRefCaps, p\<lparr>ad_line := drop (length noHeadMark) (ad_line p)\<rparr>))"

definition decodeFirstRef :: "advRefsDecoder \<Rightarrow> adv_step" where
  "decodeFirstRef l =
     (if length (ad_line l) < 3 then Ok (None, ad_error ''line too short after hash'' l)
      else if \<not> HasPrefix (ad_line l) sp then Ok (None, ad_error ''no space after hash'' l)
      else let l = l\<lparr>ad_line := drop 1 (ad_line l)\<rparr>
           in case SplitN2 (ad_line l) 0 of
                (ref, None) \<Rightarrow> Ok (None, ad_error ''NULL not found'' l)
              | (ref, Some rest) \<Rightarrow>
                  let l = l\<lparr>ad_line := rest\<rparr>
                  in Ok (Some DecodeRefCaps,
                       l\<lparr>ad_data := (if unstr ref = head_name then (ad_data l)\<lparr>av_Head := Some (ad_hash l)\<rparr>
                          else (ad_data l)\<lparr>av_References := AList.update (unstr ref) (ad_hash l) (av_References (ad_data l))\<rparr>)\<rparr>))"

definition ar_decodeCaps :: "advRefsDecoder \<Rightarrow> adv_step" where
  "ar_decodeCaps p =
     (let (caps, r) = List_Decode (av_Capabilities (ad_data p)) (ad_line p);
          p = p\<lparr>ad_data := (ad_data p)\<lparr>av_Capabilities := caps\<rparr>\<rparr>
      in case r of
           Ok u \<Rightarrow> Ok (Some DecodeOtherRefs, p)
         | Error e \<Rightarrow> Ok (None, ad_error ''invalid capabilities'' p)
         | Panic \<Rightarrow> Panic)"

definition readRef :: "bytes \<Rightarrow> (string \<times> ObjectID) result" where
  "readRef data =
     (case SplitChar data 32 of
        [a, b] \<Rightarrow> Ok (unstr b, NewHash (unstr a))
      | [a] \<Rightarrow> Error (Sentinel ''malformed ref data: no space was found'')
      | _ \<Rightarrow> Error (Sentinel ''malformed ref data: more than one space found''))"

definition decodeOtherRefs :: "advRefsDecoder \<Rightarrow> adv_step" where
  "decodeOtherRefs p =
     rbind (ad_nextLine p) (\<lambda>(ok, p).
       if \<not> ok then Ok (None, p)
       else if HasPrefix (ad_line p) shallow then Ok (Some DecodeShallows, p)
       else if length (ad_line p) = 0 then Ok (None, p)
       else let isPeeled = HasSuffix (ad_line p) (str peeled);
                p = (if isPeeled then p\<lparr>ad_line := TrimSuffix (ad_line p) (str peeled)\<rparr> else p)
            in case readRef (ad_line p) of
                 Error e \<Rightarrow> Ok (None, ad_error ''malformed ref data'' p)
               | Panic \<Rightarrow> Panic
               | Ok (ref, hash) \<Rightarrow>
                   Ok (Some DecodeOtherRefs,
                     p\<lparr>ad_data := (if isPeeled then (ad_data p)\<lparr>av_Peeled := AList.update ref hash (av_Peeled (ad_data p))\<rparr>
                        else (ad_data p)\<lparr>av_References := AList.update ref hash (av_References (ad_data p))\<rparr>)\<rparr>))"

definition ar_decodeShallow :: "advRefsDecoder \<Rightarrow> adv_step" where
  "ar_decodeShallow p =
     (if \<not> HasPrefix (ad_line p) shallow then Ok (None, ad_error ''malformed shallow prefix'' p)
      else let p = p\<lparr>ad_line := TrimPrefix (ad_line p) shallow\<rparr>
           in if length (ad_line p) \<noteq> hashSize then Ok (None, ad_error ''malformed shallow hash: wrong length'' p)
              else case FromHex (unstr (take hashSize (ad_line p))) of
                     (h, ok) \<Rightarrow>
                       if \<not> ok then Ok (None, ad_error ''invalid hash text'' p)
                       else rbind (ad_nextLine (p\<lparr>ad_data := (ad_data p)\<lparr>av_Shallows := av_Shallows (ad_data p) @ [h]\<rparr>\<rparr>)) (\<lambda>(ok, p).
                              if \<not> ok then Ok (None, p)
                              else if length (ad_line p) = 0 then Ok (None, p)
                              else Ok (Some DecodeShallows, p)))"

fun adv_step :: "advState \<Rightarrow> advRefsDecoder \<Rightarrow> adv_step" where
  "adv_step DecodeFirstHash = decodeFirstHash"
| "adv_step DecodeSkipNoRefs = decodeSkipNoRefs"
| "adv_step DecodeFirstRef = decodeFirstRef"
| "adv_step DecodeRefCaps = ar_decodeCaps"
| "adv_step DecodeOtherRefs = decodeOtherRefs"
| "adv_step DecodeShallows = ar_decodeShallow"







section \<open>Decoding reads what was encoded\<close>















text \<open>The lines of the references \<open>ns\<close>, and what reading them adds to a message.\<close>

definition ref_hash :: "AdvRefs \<Rightarrow> string \<Rightarrow> ObjectID" where
  "ref_hash a n = (case map_of (av_References a) n of None \<Rightarrow> ZeroHash | Some h \<Rightarrow> h)"


fun put_refs :: "AdvRefs \<Rightarrow> string list \<Rightarrow> AdvRefs \<Rightarrow> AdvRefs" where
  "put_refs a [] v = v"
| "put_refs a (n # ns) v =
     put_refs a ns (case map_of (av_Peeled a) n of
        None \<Rightarrow> v\<lparr>av_References := AList.update n (ref_hash a n) (av_References v)\<rparr>
      | Some h \<Rightarrow> v\<lparr>av_References := AList.update n (ref_hash a n) (av_References v), av_Peeled := AList.update n h (av_Peeled v)\<rparr>)"

lemma put_refs_fields [simp]:
  "av_Head (put_refs a ns v) = av_Head v" "av_Capabilities (put_refs a ns v) = av_Capabilities v"
  "av_Shallows (put_refs a ns v) = av_Shallows v"
  by (induction a ns v rule: put_refs.induct) (auto split: option.splits)












definition put_first :: "ObjectID \<Rightarrow> string \<Rightarrow> AdvRefs \<Rightarrow> AdvRefs" where
  "put_first h n v =
     (if h = ZeroHash then v else if n = head_name then v\<lparr>av_Head := Some h\<rparr>
      else v\<lparr>av_References := AList.update n h (av_References v)\<rparr>)"

lemma put_first_Capabilities [simp]: "av_Capabilities (put_first h n v) = av_Capabilities v"
  by (simp add: put_first_def)


section \<open>The round trip\<close>













section \<open>Where the head points\<close>

text \<open>The names of the references that store a hash.\<close>

definition pointing_at :: "ObjectID \<Rightarrow> ReferenceStorage \<Rightarrow> ReferenceName set" where
  "pointing_at h s = {n. \<exists>r. map_of s n = Some r \<and> ref_h r = h}"

definition set_head :: "ReferenceName \<Rightarrow> ReferenceStorage \<Rightarrow> ReferenceStorage" where
  "set_head n s = AList.update HEAD (NewSymbolicReference HEAD n) s"

lemma createHead_eq:
  "map_of s n = Some ref \<Longrightarrow> ref_n ref = n \<Longrightarrow>
    createHeadIfCorrectReference h ref s = (if n \<in> pointing_at h s then (True, set_head n s) else (False, s))"
  by (simp add: createHeadIfCorrectReference_def mem_SetReference_def set_head_def pointing_at_def NewSymbolicReference_def)

lemma resolveHead_loop_find:
  assumes "\<forall>n \<in> set ns. \<exists>r. map_of s n = Some r \<and> ref_n r = n"
  shows "resolveHead_loop h ns s =
    (case List.find (\<lambda>n. n \<in> pointing_at h s) ns of None \<Rightarrow> (s, Error ErrReferenceNotFound) | Some n \<Rightarrow> (set_head n s, Ok ()))"
  using assms
proof (induction ns)
  case (Cons n ns)
  then obtain r where "map_of s n = Some r" "ref_n r = n" by auto
  with Cons show ?case by (simp add: mem_Reference_def createHead_eq)
qed simp

lemma find_sorted_Min:
  fixes ns :: "'a :: linorder list"
  assumes "sorted ns" and "{n \<in> set ns. P n} \<noteq> {}"
  shows "List.find P ns = Some (Min {n \<in> set ns. P n})"
  using assms
proof (induction ns)
  case (Cons n ns)
  show ?case
  proof (cases "P n")
    case True
    then have "Min {m \<in> set (n # ns). P m} = n" using Cons.prems(1) by (intro Min_eqI) auto
    with True show ?thesis by simp
  next
    case False
    then have eq: "{m \<in> set (n # ns). P m} = {m \<in> set ns. P m}" by auto
    from Cons.IH Cons.prems False show ?thesis unfolding eq by simp
  qed
qed simp

text \<open>
  Without the capability that names it, the head is made to point at master if master has its
  hash, otherwise at the first reference in the order of names that has it; when there is none the
  storage is left as it was and an error is returned.
\<close>

theorem resolveHead_guess:
  assumes head: "av_Head a = Some h" and inv: "\<forall>(n, r) \<in> set s. ref_n r = n" "distinct (map fst s)"
  shows "resolveHead a s =
    (if Master \<in> pointing_at h s then (set_head Master s, Ok ())
     else if pointing_at h s = {} then (s, Error ErrReferenceNotFound)
     else (set_head (Min (pointing_at h s)) s, Ok ()))"
proof -
  let ?ns = "sort (map (\<lambda>(n, r). ref_n r) s)"
  have keys: "set ?ns = fst ` set s" using inv(1) by force
  have stored: "\<forall>n \<in> set ?ns. \<exists>r. map_of s n = Some r \<and> ref_n r = n"
  proof
    fix n
    assume "n \<in> set ?ns"
    then obtain r where "(n, r) \<in> set s" unfolding keys by auto
    with inv show "\<exists>r. map_of s n = Some r \<and> ref_n r = n" by (auto simp: map_of_eq_Some_iff)
  qed
  have named: "ref_n r = n" if "map_of s n = Some r" for n r using that inv(1) by (auto dest: map_of_SomeD)
  have "pointing_at h s \<subseteq> fst ` set s" by (auto simp: pointing_at_def dest!: map_of_SomeD intro: rev_image_eqI)
  then have at: "{n \<in> set ?ns. n \<in> pointing_at h s} = pointing_at h s" unfolding keys by blast
  have guess: "resolveHead_loop h ?ns s =
      (if pointing_at h s = {} then (s, Error ErrReferenceNotFound) else (set_head (Min (pointing_at h s)) s, Ok ()))"
  proof (cases "pointing_at h s = {}")
    case True
    then have "List.find (\<lambda>n. n \<in> pointing_at h s) ?ns = None" by (simp add: find_None_iff)
    with True resolveHead_loop_find [OF stored, of h] show ?thesis by simp
  next
    case False
    then have "List.find (\<lambda>n. n \<in> pointing_at h s) ?ns = Some (Min (pointing_at h s))"
      using find_sorted_Min [of ?ns "\<lambda>n. n \<in> pointing_at h s"] unfolding at by simp
    with False resolveHead_loop_find [OF stored, of h] show ?thesis by simp
  qed
  show ?thesis
  proof (cases "map_of s Master")
    case None
    then have "Master \<notin> pointing_at h s" by (simp add: pointing_at_def)
    with None guess head show ?thesis by (simp add: resolveHead_def mem_Reference_def Let_def)
  next
    case (Some r)
    with createHead_eq [OF Some named [OF Some], of h] guess head show ?thesis
      by (simp add: resolveHead_def mem_Reference_def Let_def)
  qed
qed

theorem resolveHead_guess_witness:
  "resolveHead (NewAdvRefs\<lparr>av_Head := Some ZeroHash\<rparr>)
      [(''refs/heads/b'', NewHashReference ''refs/heads/b'' ZeroHash), (''refs/heads/a'', NewHashReference ''refs/heads/a'' ZeroHash)] =
     (set_head ''refs/heads/a''
      [(''refs/heads/b'', NewHashReference ''refs/heads/b'' ZeroHash), (''refs/heads/a'', NewHashReference ''refs/heads/a'' ZeroHash)], Ok ())"
proof -
  let ?s = "[(''refs/heads/b'', NewHashReference ''refs/heads/b'' ZeroHash), (''refs/heads/a'', NewHashReference ''refs/heads/a'' ZeroHash)]"
  have at: "pointing_at ZeroHash ?s = {''refs/heads/a'', ''refs/heads/b''}" by (auto simp: pointing_at_def NewHashReference_def)
  have "''refs/heads/a'' \<le> (''refs/heads/b'' :: string)" by (simp add: less_eq_char_def)
  then have min: "Min {''refs/heads/a'', ''refs/heads/b''} = (''refs/heads/a'' :: string)" by (simp add: min_def)
  have "Master \<notin> {''refs/heads/a'', ''refs/heads/b''}" by (simp add: Master_def refHeadPrefix_def refPrefix_def)
  then show ?thesis
    using resolveHead_guess [of "NewAdvRefs\<lparr>av_Head := Some ZeroHash\<rparr>" ZeroHash ?s] unfolding at min
    by (simp add: NewHashReference_def)
qed

end
