(* ===== verification/Signatures.thy ===== *)
theory Signatures
  imports ObjectId
begin

text \<open>
  Signatures of commits and tags: \<^verbatim>\<open>Signature\<close> of \<^verbatim>\<open>plumbing/object/object.go\<close>. A \<^verbatim>\<open>time.Time\<close> is its
  Unix seconds, the nanoseconds within the second, and the offset of its zone in seconds.
\<close>

section \<open>Times\<close>

record Time =
  t_Unix :: int
  t_nsec :: int
  t_offset :: int

definition ZeroTime :: Time where
  "ZeroTime = \<lparr>t_Unix = -62135596800, t_nsec = 0, t_offset = 0\<rparr>"

definition Time_Before :: "Time \<Rightarrow> Time \<Rightarrow> bool" where
  "Time_Before a b \<longleftrightarrow> t_Unix a < t_Unix b \<or> t_Unix a = t_Unix b \<and> t_nsec a < t_nsec b"

definition Time_After :: "Time \<Rightarrow> Time \<Rightarrow> bool" where
  "Time_After a b \<longleftrightarrow> t_Unix a > t_Unix b \<or> t_Unix a = t_Unix b \<and> t_nsec a > t_nsec b"

definition Time_Equal :: "Time \<Rightarrow> Time \<Rightarrow> bool" where
  "Time_Equal a b \<longleftrightarrow> t_Unix a = t_Unix b \<and> t_nsec a = t_nsec b"

text \<open>\<^verbatim>\<open>Format("-0700")\<close>: the sign, and hours and minutes with two digits at least; seconds are dropped.\<close>

definition pad2 :: "nat \<Rightarrow> string" where
  "pad2 n = replicate (2 - length (FormatNat 10 n)) (CHR ''0'') @ FormatNat 10 n"

definition formatZone :: "int \<Rightarrow> string" where
  "formatZone offset =
     (let zone = \<bar>offset\<bar> div 60
      in (if offset \<le> -60 then ''-'' else ''+'') @ pad2 (nat (zone div 60)) @ pad2 (nat (zone mod 60)))"

section \<open>Signatures\<close>

record Signature =
  sig_Name :: string
  sig_Email :: string
  sig_When :: Time

definition zeroSignature :: Signature where
  "zeroSignature = \<lparr>sig_Name = [], sig_Email = [], sig_When = ZeroTime\<rparr>"

text \<open>\<^verbatim>\<open>bytes.LastIndexByte\<close>, \<open>None\<close> for -1, and \<^verbatim>\<open>bytes.Trim\<close> of spaces.\<close>

definition LastIndexByte :: "bytes \<Rightarrow> byte \<Rightarrow> nat option" where
  "LastIndexByte s c =
     (if c \<in> set s then Some (length s - 1 - length (takeWhile (\<lambda>x. x \<noteq> c) (rev s))) else None)"

definition TrimSp :: "bytes \<Rightarrow> bytes" where
  "TrimSp s = rev (dropWhile (\<lambda>c. c = 32) (rev (dropWhile (\<lambda>c. c = 32) s)))"

definition timeZoneLength :: nat where "timeZoneLength = 5"

definition decodeTimeAndTimeZone :: "Signature \<Rightarrow> bytes \<Rightarrow> Signature" where
  "decodeTimeAndTimeZone s b =
     (let space = (case Index b [32] of None \<Rightarrow> length b | Some i \<Rightarrow> i)
      in case ParseInt (unstr (take space b)) of
           Ok ts \<Rightarrow>
             let s = s\<lparr>sig_When := \<lparr>t_Unix = ts, t_nsec = 0, t_offset = 0\<rparr>\<rparr>;
                 tzStart = space + 1
             in if tzStart \<ge> length b \<or> tzStart + timeZoneLength > length b then s
                else let timezone = take timeZoneLength (drop tzStart b)
                     in case (ParseInt (unstr (take 3 timezone)), ParseInt (unstr (drop 3 timezone))) of
                          (Ok tzhours, Ok tzmins) \<Rightarrow>
                            let tzmins = (if tzhours < 0 then tzmins * -1 else tzmins)
                            in s\<lparr>sig_When := (sig_When s)\<lparr>t_offset := tzhours * 60 * 60 + tzmins * 60\<rparr>\<rparr>
                        | _ \<Rightarrow> s
         | _ \<Rightarrow> s)"

definition Signature_Decode :: "Signature \<Rightarrow> bytes \<Rightarrow> Signature" where
  "Signature_Decode s b =
     (case (LastIndexByte b 60, LastIndexByte b 62) of
        (Some opn, Some cls) \<Rightarrow>
          if cls < opn then s
          else let s = s\<lparr>sig_Name := unstr (TrimSp (take opn b)), sig_Email := unstr (take (cls - (opn + 1)) (drop (opn + 1) b))\<rparr>
               in if cls + 2 < length b then decodeTimeAndTimeZone s (drop (cls + 2) b) else s
      | _ \<Rightarrow> s)"

definition encodeTimeAndTimeZone :: "Signature \<Rightarrow> bytes" where
  "encodeTimeAndTimeZone s =
     (let u = t_Unix (sig_When s); u = (if u < 0 then 0 else u)
      in str (FormatInt u @ '' '' @ formatZone (t_offset (sig_When s))))"

definition Signature_Encode :: "Signature \<Rightarrow> bytes" where
  "Signature_Encode s = str (sig_Name s @ '' <'' @ sig_Email s @ ''> '') @ encodeTimeAndTimeZone s"

definition Signature_String :: "Signature \<Rightarrow> string" where
  "Signature_String s = sig_Name s @ '' <'' @ sig_Email s @ ''>''"

section \<open>The round trip\<close>

lemma char_bytes:
  "(of_char (CHR '' '') :: byte) = 32" "(of_char (CHR ''<'') :: byte) = 60" "(of_char (CHR ''>'') :: byte) = 62"
  by (simp_all add: of_char_def)

lemma LastIndexByte_append: "c \<notin> set t \<Longrightarrow> LastIndexByte (s @ c # t) c = Some (length s)"
proof -
  assume "c \<notin> set t"
  then have "takeWhile (\<lambda>x. x \<noteq> c) (rev t @ c # rev s) = rev t" by (subst takeWhile_append2) auto
  then show ?thesis by (simp add: LastIndexByte_def)
qed

lemma ParseUint_pad2:
  assumes "n < 100"
  shows "ParseUint (pad2 n) 10 64 = Ok n" and "length (pad2 n) = 2"
proof -
  show "length (pad2 n) = 2"
    using assms by (auto simp: pad2_def FormatNat.simps [of 10 n] FormatNat.simps [of 10 "n div 10"])
  have zero: "digit_value (CHR ''0'') = Some 0" by (simp add: digit_value_def)
  have fmt: "parseUint_loop 10 64 0 (FormatNat 10 n) = Ok n" using assms by (intro parseUint_loop_FormatNat) auto
  have "parseUint_loop 10 64 0 (replicate k (CHR ''0'') @ FormatNat 10 n) = Ok n" for k
    by (induction k) (simp_all add: zero fmt)
  then show "ParseUint (pad2 n) 10 64 = Ok n" by (simp add: ParseUint_def pad2_def)
qed

lemma ParseInt_signed_pad2:
  assumes "n < 100"
  shows "ParseInt (CHR ''+'' # pad2 n) = Ok (int n)" "ParseInt (CHR ''-'' # pad2 n) = Ok (- int n)" "ParseInt (pad2 n) = Ok (int n)"
proof -
  show "ParseInt (CHR ''+'' # pad2 n) = Ok (int n)" "ParseInt (CHR ''-'' # pad2 n) = Ok (- int n)"
    using ParseUint_pad2(1) [OF assms] assms by (simp_all add: ParseInt_def)
  obtain d s where d: "d < 10" "pad2 n = digit d # s"
  proof (cases "length (FormatNat 10 n) < 2")
    case True
    then obtain k where "pad2 n = CHR ''0'' # k" by (cases "2 - length (FormatNat 10 n)") (auto simp: pad2_def)
    moreover have "CHR ''0'' = digit 0" by code_simp
    ultimately show ?thesis using that [of 0 k] by simp
  next
    case False
    then show ?thesis using that FormatNat_hd [of 10 n] by (auto simp: pad2_def)
  qed
  have "(of_char (digit d) :: nat) = 48 + d" using d(1) by (simp add: digit_def)
  then have "digit d \<noteq> CHR ''+''" "digit d \<noteq> CHR ''-''" by auto
  then show "ParseInt (pad2 n) = Ok (int n)" using ParseUint_pad2(1) [OF assms] assms by (simp add: ParseInt_def d(2))
qed

lemma FormatNat_chars: "2 \<le> b \<Longrightarrow> b \<le> 10 \<Longrightarrow> c \<in> set (FormatNat b n) \<Longrightarrow> 48 \<le> (of_char c :: nat) \<and> (of_char c :: nat) \<le> 57"
proof (induction b n rule: FormatNat.induct)
  case (1 b n)
  have dig: "48 \<le> (of_char (digit d) :: nat) \<and> (of_char (digit d) :: nat) \<le> 57" if "d < 10" for d
    using that by (simp add: digit_def)
  have "n mod b < b" using "1.prems"(1) by simp
  then have "n mod b < 10" using "1.prems"(2) by linarith
  then show ?case using 1 dig [of n] dig [of "n mod b"] FormatNat.simps [of b n] by (auto split: if_splits)
qed

definition sig_ok :: "Signature \<Rightarrow> bool" where
  "sig_ok s \<longleftrightarrow> CHR ''<'' \<notin> set (sig_Email s) \<and> t_Unix (sig_When s) < 2 ^ 63 \<and> \<bar>t_offset (sig_When s)\<bar> < 360000"

lemma TrimSp_space: "TrimSp (s @ [32]) = TrimSp s"
proof (cases "\<forall>c \<in> set s. c = 32")
  case True
  then have "dropWhile (\<lambda>c. c = 32) (s @ [32]) = []" "dropWhile (\<lambda>c. c = 32) s = []" by (subst dropWhile_eq_Nil_conv, auto)+
  then show ?thesis unfolding TrimSp_def by (simp only: rev.simps dropWhile.simps)
next
  case False
  then obtain c where "c \<in> set s" "\<not> c = 32" by auto
  then have "dropWhile (\<lambda>c. c = 32) (s @ [32]) = dropWhile (\<lambda>c. c = 32) s @ [32]" by (rule dropWhile_append1)
  then show ?thesis by (simp add: TrimSp_def)
qed

lemma formatZone_cases:
  assumes "60 dvd off" and "\<bar>off\<bar> < 360000"
  obtains h m sign where "formatZone off = sign # pad2 h @ pad2 m" and "h < 100" and "m < 60"
    and "sign = CHR ''+'' \<and> off = int h * 3600 + int m * 60 \<or> sign = CHR ''-'' \<and> off = - (int h * 3600 + int m * 60) \<and> off < 0"
proof -
  define z where "z = \<bar>off\<bar> div 60"
  have z: "\<bar>off\<bar> = z * 60" "0 \<le> z" using assms(1) by (auto simp: z_def dvd_abs_iff)
  then have "z < 6000" using assms(2) by simp
  then have h: "nat (z div 60) < 100" "nat (z mod 60) < 60" using z(2) by auto
  have "z = 60 * (z div 60) + z mod 60" by presburger
  moreover have "int (nat (z div 60)) = z div 60" "int (nat (z mod 60)) = z mod 60" using z(2) by simp_all
  ultimately have "\<bar>off\<bar> = int (nat (z div 60)) * 3600 + int (nat (z mod 60)) * 60" using z(1) by linarith
  moreover have "off \<le> -60 \<longleftrightarrow> off < 0" using assms(1) by (auto elim!: dvdE)
  ultimately show ?thesis
    using that [of "if off \<le> -60 then CHR ''-'' else CHR ''+''" "nat (z div 60)" "nat (z mod 60)"] h
    by (cases "off < 0") (simp_all add: formatZone_def Let_def flip: z_def)
qed

text \<open>
  What the text of an offset holds: whole minutes. What the decoder makes of them: the sign is read off
  the hours, so it is lost below an hour.
\<close>

definition toMinutes :: "int \<Rightarrow> int" where
  "toMinutes off = (if off < 0 then - (60 * (\<bar>off\<bar> div 60)) else 60 * (\<bar>off\<bar> div 60))"

definition readOffset :: "int \<Rightarrow> int" where
  "readOffset off = (if - 3600 < off \<and> off < 0 then - off else off)"

lemma toMinutes_bounds: "60 dvd toMinutes off" "\<bar>toMinutes off\<bar> \<le> \<bar>off\<bar>"
  by (auto simp: toMinutes_def)

lemma formatZone_toMinutes: "formatZone (toMinutes off) = formatZone off"
proof -
  have "\<bar>toMinutes off\<bar> div 60 = \<bar>off\<bar> div 60" by (simp add: toMinutes_def)
  moreover have "toMinutes off \<le> -60 \<longleftrightarrow> off \<le> -60" by (auto simp: toMinutes_def)
  ultimately show ?thesis unfolding formatZone_def by simp
qed

text \<open>What is left of a signature in an object.\<close>

definition stored_signature :: "Signature \<Rightarrow> Signature" where
  "stored_signature s =
     \<lparr>sig_Name = unstr (TrimSp (str (sig_Name s))), sig_Email = sig_Email s,
      sig_When = \<lparr>t_Unix = max 0 (t_Unix (sig_When s)), t_nsec = 0, t_offset = readOffset (toMinutes (t_offset (sig_When s)))\<rparr>\<rparr>"

lemma encodeTimeAndTimeZone_stored:
  "encodeTimeAndTimeZone s = str (FormatInt (max 0 (t_Unix (sig_When s))) @ '' '' @ formatZone (toMinutes (t_offset (sig_When s))))"
  by (simp add: encodeTimeAndTimeZone_def formatZone_toMinutes max_def Let_def)

lemma decodeTime_encode:
  assumes "0 \<le> u" "u < 2 ^ 63" and off: "60 dvd off" "\<bar>off\<bar> < 360000"
  shows "decodeTimeAndTimeZone s (str (FormatInt u @ '' '' @ formatZone off)) =
    s\<lparr>sig_When := \<lparr>t_Unix = u, t_nsec = 0, t_offset = readOffset off\<rparr>\<rparr>"
proof -
  obtain h m sign where zone: "formatZone off = sign # pad2 h @ pad2 m" and hm: "h < 100" "m < 60"
    and sign: "sign = CHR ''+'' \<and> off = int h * 3600 + int m * 60 \<or> sign = CHR ''-'' \<and> off = - (int h * 3600 + int m * 60) \<and> off < 0"
    using formatZone_cases [OF off] by blast
  have fmt: "FormatInt u = FormatNat 10 (nat u)" using assms(1) by (simp add: FormatInt_def)
  have "CHR '' '' \<notin> set (FormatInt u)" using FormatNat_chars [of 10 "CHR '' ''" "nat u"] by (auto simp: fmt)
  then have "(32 :: byte) \<notin> set (str (FormatInt u))" using of_char_in_str [of "CHR '' ''" "FormatInt u"] by (simp add: char_bytes)
  then have "takeWhile (\<lambda>x. x \<noteq> 32) (str (FormatInt u) @ 32 # t) = str (FormatInt u)" for t by (subst takeWhile_append2) auto
  then have idx: "Index (str (FormatInt u) @ 32 # t) [32] = Some (length (FormatInt u))" for t by (simp add: Index_char)
  have ts: "ParseInt (FormatInt u) = Ok u" using assms by (intro ParseInt_FormatInt) simp_all
  have len: "length (pad2 h) = 2" "length (pad2 m) = 2" using ParseUint_pad2(2) hm by simp_all
  have tz: "ParseInt (sign # pad2 h) = Ok (if sign = CHR ''+'' then int h else - int h)" "ParseInt (pad2 m) = Ok (int m)"
    using ParseInt_signed_pad2 hm sign by auto
  have "decodeTimeAndTimeZone s (str (FormatInt u @ '' '' @ formatZone off)) =
    s\<lparr>sig_When := \<lparr>t_Unix = u, t_nsec = 0, t_offset = (let hh = (if sign = CHR ''+'' then int h else - int h) in
       hh * 60 * 60 + (if hh < 0 then int m * -1 else int m) * 60)\<rparr>\<rparr>"
    using ts tz len idx by (simp add: decodeTimeAndTimeZone_def zone char_bytes timeZoneLength_def Let_def)
  moreover have "(let hh = (if sign = CHR ''+'' then int h else - int h) in
       hh * 60 * 60 + (if hh < 0 then int m * -1 else int m) * 60) = readOffset off"
    using sign hm by (auto simp: readOffset_def Let_def)
  ultimately show ?thesis by simp
qed

lemma time_chars:
  assumes "0 \<le> u" and off: "60 dvd off" "\<bar>off\<bar> < 360000" and "c \<in> set (FormatInt u @ '' '' @ formatZone off)"
  shows "c = CHR '' '' \<or> c = CHR ''+'' \<or> c = CHR ''-'' \<or> 48 \<le> (of_char c :: nat) \<and> (of_char c :: nat) \<le> 57"
proof -
  obtain h m sign where zone: "formatZone off = sign # pad2 h @ pad2 m" "sign = CHR ''+'' \<or> sign = CHR ''-''"
    using formatZone_cases [OF off] by blast
  have "48 \<le> (of_char c :: nat) \<and> (of_char c :: nat) \<le> 57" if "c \<in> set (pad2 n)" for n
    using that FormatNat_chars [of 10 c n] by (auto simp: pad2_def)
  then show ?thesis using assms(1,4) zone FormatNat_chars [of 10 c "nat u"] by (auto simp: FormatInt_def)
qed

lemma Signature_Decode_Encode:
  assumes "sig_ok s"
  shows "Signature_Decode s0 (Signature_Encode s) = stored_signature s"
proof -
  let ?u = "max 0 (t_Unix (sig_When s))" and ?off = "toMinutes (t_offset (sig_When s))"
  let ?time = "FormatInt ?u @ '' '' @ formatZone ?off"
  let ?n = "str (sig_Name s)" and ?e = "str (sig_Email s)"
  have ok: "0 \<le> ?u" "?u < 2 ^ 63" "60 dvd ?off" "\<bar>?off\<bar> < 360000"
    using assms toMinutes_bounds [of "t_offset (sig_When s)"] by (simp_all add: sig_ok_def)
  have "c \<notin> {CHR ''<'', CHR ''>''}" if "c \<in> set ?time" for c using time_chars [OF ok(1,3,4) that] by auto
  then have "CHR ''<'' \<notin> set ?time" "CHR ''>'' \<notin> set ?time" by blast+
  then have t: "(60 :: byte) \<notin> set (str ?time)" "(62 :: byte) \<notin> set (str ?time)"
    using of_char_in_str [of "CHR ''<''" ?time] of_char_in_str [of "CHR ''>''" ?time] by (simp_all add: char_bytes)
  have e: "(60 :: byte) \<notin> set ?e"
    using assms of_char_in_str [of "CHR ''<''" "sig_Email s"] by (simp add: char_bytes sig_ok_def)
  have enc: "Signature_Encode s = (?n @ [32]) @ 60 # ?e @ 62 # 32 # str ?time"
    by (simp add: Signature_Encode_def encodeTimeAndTimeZone_stored char_bytes)
  have opn: "LastIndexByte (Signature_Encode s) 60 = Some (length (?n @ [32]))"
    unfolding enc by (rule LastIndexByte_append) (use t e in auto)
  have enc2: "Signature_Encode s = ((?n @ [32]) @ 60 # ?e) @ 62 # 32 # str ?time" unfolding enc by simp
  have cls: "LastIndexByte (Signature_Encode s) 62 = Some (length ((?n @ [32]) @ 60 # ?e))"
    unfolding enc2 by (rule LastIndexByte_append) (use t in auto)
  have name: "TrimSp (?n @ [32]) = TrimSp ?n" by (rule TrimSp_space)
  have "take (length (?n @ [32])) (Signature_Encode s) = ?n @ [32]" unfolding enc by simp
  moreover have "take (length ?e) (drop (length (?n @ [32]) + 1) (Signature_Encode s)) = ?e" unfolding enc by simp
  moreover have "drop (length ((?n @ [32]) @ 60 # ?e) + 2) (Signature_Encode s) = str ?time" unfolding enc2 by (simp add: eval_nat_numeral)
  moreover have "length ((?n @ [32]) @ 60 # ?e) + 2 < length (Signature_Encode s)" unfolding enc2 by simp
  ultimately show ?thesis
    using opn cls decodeTime_encode [OF ok, of "s0\<lparr>sig_Name := unstr (TrimSp ?n), sig_Email := sig_Email s\<rparr>"]
    by (simp add: Signature_Decode_def name stored_signature_def Let_def)
qed

lemma stored_signature_id:
  assumes "TrimSp (str (sig_Name s)) = str (sig_Name s)" and "0 \<le> t_Unix (sig_When s)" and "t_nsec (sig_When s) = 0"
    and "60 dvd t_offset (sig_When s)" and "\<not> (- 3600 < t_offset (sig_When s) \<and> t_offset (sig_When s) < 0)"
  shows "stored_signature s = s"
proof -
  have "toMinutes (t_offset (sig_When s)) = t_offset (sig_When s)" using assms(4) by (auto simp: toMinutes_def)
  then show ?thesis using assms by (simp add: stored_signature_def readOffset_def max_def)
qed

text \<open>
  C30. What a signature is decoded to after it was encoded, for an email without an opening bracket, a time
  in an \<^verbatim>\<open>int64\<close> and a zone of less than a hundred hours. The name loses the spaces around it, the email
  stays, a time before 1970 becomes 1970, its nanoseconds and the seconds of its zone are dropped, and a
  zone less than an hour west of Greenwich comes back as the zone as far east, because the decoder takes
  the sign of the minutes from the hours, which are zero.
\<close>

theorem Signature_roundtrip:
  assumes "CHR ''<'' \<notin> set (sig_Email s)" and "t_Unix (sig_When s) < 2 ^ 63" and "\<bar>t_offset (sig_When s)\<bar> < 360000"
  shows "Signature_Decode s0 (Signature_Encode s) =
    (let off = toMinutes (t_offset (sig_When s))
     in \<lparr>sig_Name = unstr (TrimSp (str (sig_Name s))), sig_Email = sig_Email s,
         sig_When = \<lparr>t_Unix = max 0 (t_Unix (sig_When s)), t_nsec = 0, t_offset = (if -3600 < off \<and> off < 0 then - off else off)\<rparr>\<rparr>)"
  using Signature_Decode_Encode [of s s0] assms by (simp add: sig_ok_def stored_signature_def readOffset_def Let_def)

theorem Signature_roundtrip_witness:
  "Signature_Decode zeroSignature (Signature_Encode \<lparr>sig_Name = '' A B'', sig_Email = ''a@b'', sig_When = \<lparr>t_Unix = 7, t_nsec = 5, t_offset = -1801\<rparr>\<rparr>) =
     \<lparr>sig_Name = ''A B'', sig_Email = ''a@b'', sig_When = \<lparr>t_Unix = 7, t_nsec = 0, t_offset = 1800\<rparr>\<rparr>"
proof -
  have "unstr (TrimSp (str '' A B'')) = ''A B''" by code_simp
  then show ?thesis
    using Signature_roundtrip [of "\<lparr>sig_Name = '' A B'', sig_Email = ''a@b'', sig_When = \<lparr>t_Unix = 7, t_nsec = 5, t_offset = -1801\<rparr>\<rparr>" zeroSignature]
    by (simp add: toMinutes_def Let_def del: str_Cons)
qed

end
