(* ===== verification/Commit.thy ===== *)
theory Commit
  imports Signatures
begin

text \<open>
  Commit objects: \<^verbatim>\<open>plumbing/object/commit.go\<close>. \<^verbatim>\<open>Decode\<close> reads the object line by line; \<open>commit_line\<close>
  is the body of its loop and tells whether the body ended in \<^verbatim>\<open>continue\<close>, which skips the check for
  the end of the input. Encoded objects are memory objects.
\<close>

section \<open>Commits\<close>

definition headerpgp :: string where "headerpgp = ''gpgsig''"
definition headerencoding :: string where "headerencoding = ''encoding''"
definition headermergetag :: string where "headermergetag = ''mergetag''"
definition defaultUtf8CommitMessageEncoding :: string where "defaultUtf8CommitMessageEncoding = ''UTF-8''"

abbreviation newline :: char where "newline \<equiv> CHR 0x0A"

record ExtraHeader =
  eh_Key :: string
  eh_Value :: string

record Commit =
  c_Hash :: ObjectID
  c_Author :: Signature
  c_Committer :: Signature
  c_MergeTag :: string
  c_PGPSignature :: string
  c_Message :: string
  c_TreeHash :: ObjectID
  c_ParentHashes :: "ObjectID list"
  c_Encoding :: string
  c_ExtraHeaders :: "ExtraHeader list"

definition zeroCommit :: Commit where
  "zeroCommit = \<lparr>c_Hash = ZeroHash, c_Author = zeroSignature, c_Committer = zeroSignature, c_MergeTag = [],
     c_PGPSignature = [], c_Message = [], c_TreeHash = ZeroHash, c_ParentHashes = [], c_Encoding = [], c_ExtraHeaders = []\<rparr>"

text \<open>\<^verbatim>\<open>strings.Join\<close>.\<close>

fun JoinStr :: "'a list list \<Rightarrow> 'a list \<Rightarrow> 'a list" where
  "JoinStr [] sep = []"
| "JoinStr [x] sep = x"
| "JoinStr (x # y # xs) sep = x @ sep @ JoinStr (y # xs) sep"

definition ExtraHeader_Format :: "ExtraHeader \<Rightarrow> string" where
  "ExtraHeader_Format h =
     eh_Key h @
     (if length (eh_Value h) > 0
      then '' '' @ JoinStr (SplitChar (TrimSuffix (eh_Value h) [newline]) newline) ([newline] @ '' '') else [])"

definition TrimRightNL :: "string \<Rightarrow> string" where
  "TrimRightNL s = rev (dropWhile (\<lambda>c. c = newline) (rev s))"

definition parseExtraHeader :: "bytes \<Rightarrow> ExtraHeader \<times> bool" where
  "parseExtraHeader line =
     (case SplitN2 line 32 of
        (key, val) \<Rightarrow>
          let out = \<lparr>eh_Key = TrimRightNL (unstr key), eh_Value = []\<rparr>
          in case val of
               Some v \<Rightarrow> (out\<lparr>eh_Value := eh_Value out @ unstr v\<rparr>, True)
             | None \<Rightarrow> (out, False))"

section \<open>Decoding\<close>

text \<open>\<^verbatim>\<open>ReadBytes('\n')\<close>: a line with its end, or what is left together with the end of the input.\<close>

definition ReadBytesNL :: "reader \<Rightarrow> bytes \<times> reader \<times> bool" where
  "ReadBytesNL r =
     (case dropWhile (\<lambda>b. b \<noteq> 10) r of
        [] \<Rightarrow> (r, [], True)
      | d # r' \<Rightarrow> (takeWhile (\<lambda>b. b \<noteq> 10) r @ [d], r', False))"

definition TrimLeftSp :: "bytes \<Rightarrow> bytes" where
  "TrimLeftSp s = dropWhile (\<lambda>c. c = 32) s"

record decodeState =
  ds_c :: Commit
  ds_message :: bool
  ds_mergetag :: bool
  ds_pgpsig :: bool
  ds_msgbuf :: bytes
  ds_extra :: "ExtraHeader option"

definition commit_field :: "decodeState \<Rightarrow> bytes \<Rightarrow> string \<Rightarrow> bytes \<Rightarrow> decodeState" where
  "commit_field d original_line name data =
     (let c = ds_c d
      in if name = ''tree'' then d\<lparr>ds_c := c\<lparr>c_TreeHash := NewHash (unstr data)\<rparr>\<rparr>
         else if name = ''parent'' then d\<lparr>ds_c := c\<lparr>c_ParentHashes := c_ParentHashes c @ [NewHash (unstr data)]\<rparr>\<rparr>
         else if name = ''author'' then d\<lparr>ds_c := c\<lparr>c_Author := Signature_Decode (c_Author c) data\<rparr>\<rparr>
         else if name = ''committer'' then d\<lparr>ds_c := c\<lparr>c_Committer := Signature_Decode (c_Committer c) data\<rparr>\<rparr>
         else if name = headermergetag
         then d\<lparr>ds_c := c\<lparr>c_MergeTag := c_MergeTag c @ unstr data @ [newline]\<rparr>, ds_mergetag := True\<rparr>
         else if name = headerencoding then d\<lparr>ds_c := c\<lparr>c_Encoding := unstr data\<rparr>\<rparr>
         else if name = headerpgp
         then d\<lparr>ds_c := c\<lparr>c_PGPSignature := c_PGPSignature c @ unstr data @ [newline]\<rparr>, ds_pgpsig := True\<rparr>
         else case parseExtraHeader original_line of
                (h, maybecontinued) \<Rightarrow>
                  if maybecontinued then d\<lparr>ds_extra := Some h\<rparr>
                  else d\<lparr>ds_c := c\<lparr>c_ExtraHeaders := c_ExtraHeaders c @ [h]\<rparr>\<rparr>)"

definition commit_header :: "decodeState \<Rightarrow> bytes \<Rightarrow> bytes \<Rightarrow> decodeState" where
  "commit_header d original_line line =
     (let (name, val) = SplitN2 line 32;
          data = (case val of None \<Rightarrow> [] | Some v \<Rightarrow> v)
      in commit_field d original_line (unstr name) data)"

definition flushExtra :: "decodeState \<Rightarrow> decodeState" where
  "flushExtra d =
     (case ds_extra d of
        None \<Rightarrow> d
      | Some h \<Rightarrow>
          d\<lparr>ds_c := (ds_c d)\<lparr>c_ExtraHeaders := c_ExtraHeaders (ds_c d) @ [h\<lparr>eh_Value := TrimRightNL (eh_Value h)\<rparr>]\<rparr>, ds_extra := None\<rparr>)"

definition commit_line :: "decodeState \<Rightarrow> bytes \<Rightarrow> decodeState \<times> bool" where
  "commit_line d line =
     (let continued = (length line > 0 \<and> line ! 0 = 32)
      in if ds_mergetag d \<and> continued
         then (d\<lparr>ds_c := (ds_c d)\<lparr>c_MergeTag := c_MergeTag (ds_c d) @ unstr (TrimLeftSp line)\<rparr>\<rparr>, True)
         else let d = d\<lparr>ds_mergetag := False\<rparr>
         in if ds_pgpsig d \<and> continued
         then (d\<lparr>ds_c := (ds_c d)\<lparr>c_PGPSignature := c_PGPSignature (ds_c d) @ unstr (TrimLeftSp line)\<rparr>\<rparr>, True)
         else let d = d\<lparr>ds_pgpsig := False\<rparr>
         in if ds_extra d \<noteq> None \<and> continued
         then (d\<lparr>ds_extra := map_option (\<lambda>h. h\<lparr>eh_Value := eh_Value h @ unstr (drop 1 line)\<rparr>) (ds_extra d)\<rparr>, True)
         else let d = flushExtra d
         in if \<not> ds_message d
         then let trimmed = TrimSpace line
              in if length trimmed = 0 then (d\<lparr>ds_message := True\<rparr>, True) else (commit_header d line trimmed, False)
         else (d\<lparr>ds_msgbuf := ds_msgbuf d @ line\<rparr>, False))"

lemma flushExtra_message [simp]: "ds_message (flushExtra d) = ds_message d"
  by (simp add: flushExtra_def split: option.splits)

lemma ReadBytesNL_shrinks: "ReadBytesNL r = (line, r', eof) \<Longrightarrow> r \<noteq> [] \<Longrightarrow> length r' < length r"
proof -
  assume r: "ReadBytesNL r = (line, r', eof)" "r \<noteq> []"
  have "length (dropWhile (\<lambda>b. b \<noteq> 10) r) \<le> length r" by (rule length_dropWhile_le)
  with r show ?thesis by (auto simp: ReadBytesNL_def split: list.splits)
qed

lemma commit_line_continued: "commit_line d [] = (d', True) \<Longrightarrow> \<not> ds_message d \<and> ds_message d'"
  by (auto simp: commit_line_def Let_def split: if_splits)

function commit_loop :: "decodeState \<Rightarrow> reader \<Rightarrow> decodeState" where
  "commit_loop d r =
     (let (line, r', eof) = ReadBytesNL r; (d', continued) = commit_line d line
      in if \<not> continued \<and> eof then d' else commit_loop d' r')"
  by pat_completeness auto
termination
proof (relation "measures [\<lambda>(d, r). length r, \<lambda>(d, r). if ds_message d then 0 else 1]", goal_cases)
  case 1
  show ?case by simp
next
  case (2 d r x line y r' eof z d' continued)
  then have read: "ReadBytesNL r = (line, r', eof)" and line: "commit_line d line = (d', continued)" by auto
  show ?case
  proof (cases "r = []")
    case True
    then have "line = []" "r' = []" "eof" using read by (auto simp: ReadBytesNL_def)
    with 2 line have "commit_line d [] = (d', True)" by auto
    with True \<open>r' = []\<close> commit_line_continued show ?thesis by auto
  next
    case False
    with ReadBytesNL_shrinks [OF read] show ?thesis by simp
  qed
qed

declare commit_loop.simps [simp del]

abbreviation ErrUnsupportedObject :: error where "ErrUnsupportedObject \<equiv> Sentinel ''ErrUnsupportedObject''"

definition Commit_Decode :: "digest \<Rightarrow> Commit \<Rightarrow> MemoryObject \<Rightarrow> Commit result" where
  "Commit_Decode sha c ob =
     (if mo_t ob \<noteq> CommitObject then Error ErrUnsupportedObject
      else let c = c\<lparr>c_Hash := fst (MemoryObject_Hash sha ob), c_Encoding := defaultUtf8CommitMessageEncoding\<rparr>;
               d = commit_loop \<lparr>ds_c = c, ds_message = False, ds_mergetag = False, ds_pgpsig = False, ds_msgbuf = [], ds_extra = None\<rparr>
                     (MemoryObject_Reader ob)
           in Ok ((ds_c d)\<lparr>c_Message := unstr (ds_msgbuf d)\<rparr>))"

definition DecodeCommit :: "digest \<Rightarrow> MemoryObject \<Rightarrow> Commit result" where
  "DecodeCommit sha ob = Commit_Decode sha zeroCommit ob"

definition GetCommit :: "digest \<Rightarrow> (ObjectType \<Rightarrow> ObjectID \<Rightarrow> MemoryObject result) \<Rightarrow> ObjectID \<Rightarrow> Commit result" where
  "GetCommit sha storage h = rbind (storage CommitObject h) (DecodeCommit sha)"

section \<open>Encoding\<close>

definition indented :: "string \<Rightarrow> string" where
  "indented s = JoinStr (SplitChar (TrimSuffix s [newline]) newline) ([newline] @ '' '')"

definition commit_text :: "Commit \<Rightarrow> bool \<Rightarrow> bytes" where
  "commit_text c includeSig =
     str (''tree '' @ ObjectID_String (c_TreeHash c) @ [newline] @
       concat (map (\<lambda>p. ''parent '' @ ObjectID_String p @ [newline]) (c_ParentHashes c)) @
       ''author '') @ Signature_Encode (c_Author c) @
     str ([newline] @ ''committer '') @ Signature_Encode (c_Committer c) @
     str ((if c_MergeTag c \<noteq> [] then [newline] @ headermergetag @ '' '' @ indented (c_MergeTag c) else []) @
       (if c_Encoding c \<noteq> [] \<and> c_Encoding c \<noteq> defaultUtf8CommitMessageEncoding
        then [newline] @ headerencoding @ '' '' @ c_Encoding c else []) @
       concat (map (\<lambda>h. [newline] @ ExtraHeader_Format h) (c_ExtraHeaders c)) @
       (if c_PGPSignature c \<noteq> [] \<and> includeSig then [newline] @ headerpgp @ '' '' @ indented (c_PGPSignature c) else []) @
       [newline, newline] @ c_Message c)"

definition Commit_encode :: "Commit \<Rightarrow> MemoryObject \<Rightarrow> bool \<Rightarrow> MemoryObject" where
  "Commit_encode c ob includeSig = MemoryObject_Write (MemoryObject_SetType ob CommitObject) (commit_text c includeSig)"

definition Commit_Encode :: "Commit \<Rightarrow> MemoryObject \<Rightarrow> MemoryObject" where
  "Commit_Encode c ob = Commit_encode c ob True"

definition EncodeWithoutSignature :: "Commit \<Rightarrow> MemoryObject \<Rightarrow> MemoryObject" where
  "EncodeWithoutSignature c ob = Commit_encode c ob False"

definition NumParents :: "Commit \<Rightarrow> nat" where
  "NumParents c = length (c_ParentHashes c)"

definition Commit_Less :: "Commit \<Rightarrow> Commit \<Rightarrow> bool" where
  "Commit_Less c rhs \<longleftrightarrow>
     Time_Before (sig_When (c_Committer c)) (sig_When (c_Committer rhs)) \<or>
     (Time_Equal (sig_When (c_Committer c)) (sig_When (c_Committer rhs)) \<and>
      (Time_Before (sig_When (c_Author c)) (sig_When (c_Author rhs)) \<or>
       (Time_Equal (sig_When (c_Author c)) (sig_When (c_Author rhs)) \<and>
        ObjectID_Compare (c_Hash c) (ObjectID_Bytes (c_Hash rhs)) < 0)))"

definition indent :: "string \<Rightarrow> string" where
  "indent t = JoinStr (map (\<lambda>line. if length line \<noteq> 0 then ''    '' @ line else line) (SplitChar t newline)) [newline]"

section \<open>Reading headers\<close>

definition unlines :: "bytes list \<Rightarrow> bytes" where
  "unlines ls = concat (map (\<lambda>l. l @ [10]) ls)"

lemma unlines_simps [simp]:
  "unlines [] = []" "unlines (l # ls) = l @ 10 # unlines ls" "unlines (ls @ ms) = unlines ls @ unlines ms"
  by (simp_all add: unlines_def)

definition line_step :: "decodeState \<Rightarrow> bytes \<Rightarrow> decodeState" where
  "line_step d l = fst (commit_line d (l @ [10]))"

lemma ReadBytesNL_line: "10 \<notin> set l \<Longrightarrow> ReadBytesNL (l @ 10 # r) = (l @ [10], r, False)"
proof -
  assume no: "10 \<notin> set l"
  have "dropWhile (\<lambda>b. b \<noteq> 10) (l @ 10 # r) = 10 # r" using no by (subst dropWhile_append2) auto
  moreover have "takeWhile (\<lambda>b. b \<noteq> 10) (l @ 10 # r) = l" using no by (subst takeWhile_append2) auto
  ultimately show ?thesis by (simp add: ReadBytesNL_def)
qed

lemma commit_loop_line: "10 \<notin> set l \<Longrightarrow> commit_loop d (l @ 10 # r) = commit_loop (line_step d l) r"
  by (subst commit_loop.simps) (simp add: ReadBytesNL_line line_step_def split: prod.split)

lemma commit_loop_lines:
  "\<forall>l \<in> set ls. 10 \<notin> set l \<Longrightarrow> commit_loop d (unlines ls @ r) = commit_loop (foldl line_step d ls) r"
  by (induction ls arbitrary: d) (simp_all add: commit_loop_line)

text \<open>Between two headers no continuation is open.\<close>

definition settled :: "decodeState \<Rightarrow> bool" where
  "settled d \<longleftrightarrow> \<not> ds_mergetag d \<and> \<not> ds_pgpsig d \<and> ds_extra d = None"

definition settle :: "decodeState \<Rightarrow> decodeState" where
  "settle d = flushExtra (d\<lparr>ds_mergetag := False, ds_pgpsig := False\<rparr>)"

lemma settle_settled [simp]: "settled (settle d)"
  by (simp add: settle_def settled_def flushExtra_def split: option.splits)

lemma settled_settle: "settled d \<Longrightarrow> settle d = d"
  by (simp add: settle_def settled_def flushExtra_def)

lemma commit_line_settle: "line ! 0 \<noteq> 32 \<Longrightarrow> commit_line d line = commit_line (settle d) line"
  by (cases d) (simp add: commit_line_def settle_def flushExtra_def Let_def split: option.splits)

lemma commit_loop_message:
  "settled d \<Longrightarrow> ds_message d \<Longrightarrow> commit_loop d r = d\<lparr>ds_msgbuf := ds_msgbuf d @ r\<rparr>"
proof (induction r arbitrary: d rule: measure_induct_rule [of length])
  case (less r)
  have line: "commit_line d l = (d\<lparr>ds_msgbuf := ds_msgbuf d @ l\<rparr>, False)" for l
    using less.prems by (simp add: commit_line_def settled_def flushExtra_def Let_def)
  show ?case
  proof (cases "dropWhile (\<lambda>b. b \<noteq> 10) r")
    case Nil
    then have "ReadBytesNL r = (r, [], True)" unfolding ReadBytesNL_def by (simp only: list.case)
    then show ?thesis by (subst commit_loop.simps) (simp add: line)
  next
    case (Cons b r')
    then have r: "r = takeWhile (\<lambda>b. b \<noteq> 10) r @ b # r'" using takeWhile_dropWhile_id [of "\<lambda>b. b \<noteq> 10" r] by simp
    have "length r' < length (takeWhile (\<lambda>b. b \<noteq> 10) r @ b # r')" by simp
    then have "length r' < length r" by (simp only: r [symmetric])
    moreover have "settled (d\<lparr>ds_msgbuf := ds_msgbuf d @ takeWhile (\<lambda>b. b \<noteq> 10) r @ [b]\<rparr>)" using less.prems by (simp add: settled_def)
    moreover have "commit_loop d r = commit_loop (d\<lparr>ds_msgbuf := ds_msgbuf d @ takeWhile (\<lambda>b. b \<noteq> 10) r @ [b]\<rparr>) r'"
      by (subst commit_loop.simps) (simp add: ReadBytesNL_def Cons line)
    ultimately show ?thesis using less.IH less.prems(2) arg_cong [OF r, of "\<lambda>t. ds_msgbuf d @ t"] by simp
  qed
qed

text \<open>\<open>reads g F\<close>: the lines \<open>g\<close> of a header are read with the effect \<open>F\<close> on the commit.\<close>

definition reads :: "bytes list \<Rightarrow> (Commit \<Rightarrow> Commit) \<Rightarrow> bool" where
  "reads g F \<longleftrightarrow>
     (\<forall>l \<in> set g. 10 \<notin> set l) \<and> (g \<noteq> [] \<longrightarrow> hd g \<noteq> [] \<and> hd (hd g) \<noteq> 32) \<and>
     (\<forall>d. settled d \<and> \<not> ds_message d \<longrightarrow> settle (foldl line_step d g) = d\<lparr>ds_c := F (ds_c d)\<rparr>)"

lemma readsD: "reads g F \<Longrightarrow> settled d \<Longrightarrow> \<not> ds_message d \<Longrightarrow> settle (foldl line_step d g) = d\<lparr>ds_c := F (ds_c d)\<rparr>"
  by (simp add: reads_def)

lemma reads_settle:
  assumes "reads g F"
  shows "settle (foldl line_step d g) = settle (foldl line_step (settle d) g)"
proof (cases g)
  case Nil
  then show ?thesis by (simp add: settled_settle)
next
  case (Cons l ls)
  with assms have "(l @ [10]) ! 0 \<noteq> 32" by (cases l) (auto simp: reads_def)
  then have "line_step d l = line_step (settle d) l" using commit_line_settle unfolding line_step_def by metis
  then show ?thesis by (simp add: Cons)
qed

lemma settled_c [simp]: "settled (d\<lparr>ds_c := c\<rparr>) = settled d"
  by (simp add: settled_def)

lemma reads_append: "reads g F \<Longrightarrow> reads h G \<Longrightarrow> reads (g @ h) (\<lambda>c. G (F c))"
proof -
  assume g: "reads g F" and h: "reads h G"
  have "settle (foldl line_step d (g @ h)) = d\<lparr>ds_c := G (F (ds_c d))\<rparr>" if d: "settled d" "\<not> ds_message d" for d
    using readsD [OF g d] readsD [OF h, of "d\<lparr>ds_c := F (ds_c d)\<rparr>"] reads_settle [OF h, of "foldl line_step d g"] d by simp
  moreover have "g @ h \<noteq> [] \<longrightarrow> hd (g @ h) \<noteq> [] \<and> hd (hd (g @ h)) \<noteq> 32"
    using g h by (cases g) (simp_all add: reads_def)
  ultimately show ?thesis using g h by (auto simp: reads_def)
qed

lemma reads_Nil: "reads [] (\<lambda>c. c)"
  by (simp add: reads_def settled_settle)

lemma reads_concat: "\<forall>x \<in> set xs. reads (g x) (F x) \<Longrightarrow> reads (concat (map g xs)) (\<lambda>c. foldl (\<lambda>c x. F x c) c xs)"
proof (induction xs)
  case Nil
  then show ?case using reads_Nil by simp
next
  case (Cons x xs)
  then show ?case using reads_append [of "g x" "F x" "concat (map g xs)"] by simp
qed

lemma TrimSpace_blank: "TrimSpace [10] = []"
  by code_simp

lemma commit_loop_object:
  assumes "reads g F" and d: "settled d" "\<not> ds_message d" "ds_msgbuf d = []"
  shows "commit_loop d (unlines g @ 10 # m) = d\<lparr>ds_c := F (ds_c d), ds_message := True, ds_msgbuf := m\<rparr>"
proof -
  let ?e = "d\<lparr>ds_c := F (ds_c d)\<rparr>"
  have "commit_line (foldl line_step d g) [10] = commit_line ?e [10]"
    using commit_line_settle [of "[10]" "foldl line_step d g"] readsD [OF assms(1) d(1,2)] by simp
  also have "\<dots> = (?e\<lparr>ds_message := True\<rparr>, True)"
    using d by (simp add: commit_line_def settled_def flushExtra_def TrimSpace_blank Let_def)
  finally have "line_step (foldl line_step d g) [] = ?e\<lparr>ds_message := True\<rparr>" by (simp add: line_step_def)
  moreover have "commit_loop d (unlines g @ 10 # m) = commit_loop (line_step (foldl line_step d g) []) m"
    using commit_loop_lines [of g] commit_loop_line [of "[]" _ m] assms(1) by (simp add: reads_def)
  ultimately show ?thesis
    using d commit_loop_message [of "?e\<lparr>ds_message := True\<rparr>" m] by (simp add: settled_def)
qed

section \<open>The headers of a commit\<close>

abbreviation visible :: "byte \<Rightarrow> bool" where "visible b \<equiv> 33 \<le> unat b \<and> unat b \<le> 126"

definition visible_word :: "bytes \<Rightarrow> bool" where
  "visible_word w \<longleftrightarrow> w \<noteq> [] \<and> list_all visible w"

lemma visible_wordD:
  "visible_word w \<Longrightarrow> w \<noteq> [] \<and> visible (hd w) \<and> visible (last w) \<and> 32 \<notin> set w \<and> 10 \<notin> set w \<and> hd w \<noteq> 32"
  by (cases w) (auto simp: visible_word_def list_all_iff)

lemma header_names:
  "visible_word (str ''tree'')" "visible_word (str ''parent'')" "visible_word (str ''author'')" "visible_word (str ''committer'')"
  "visible_word (str headermergetag)" "visible_word (str headerencoding)" "visible_word (str headerpgp)"
  by code_simp+

lemma line_step_header:
  assumes "settled d" "\<not> ds_message d" and "l \<noteq> []" "hd l \<noteq> 32" and "TrimSpace (l @ [10]) \<noteq> []"
  shows "line_step d l = commit_header d (l @ [10]) (TrimSpace (l @ [10]))"
  using assms by (cases d; cases l) (simp_all add: line_step_def commit_line_def settled_def flushExtra_def Let_def)

lemma header_step:
  assumes "settled d" "\<not> ds_message d" and "visible_word (str n)" and "data \<noteq> []" "visible (last data)"
  shows "line_step d (str n @ 32 # data) = commit_field d ((str n @ 32 # data) @ [10]) n data"
proof -
  note name = visible_wordD [OF assms(3)]
  have trim: "TrimSpace ((str n @ 32 # data) @ [10]) = str n @ 32 # data"
    using name assms(4,5) by (intro TrimSpace_newline) simp_all
  have "SplitN2 (str n @ 32 # data) 32 = (str n, Some data)" using name by (intro SplitN2_pair) simp
  then show ?thesis
    using line_step_header [of d "str n @ 32 # data"] assms(1,2) name trim by (simp add: commit_header_def)
qed

lemma reads_header:
  assumes "visible_word (str n)" and "data \<noteq> []" "visible (last data)" "10 \<notin> set data"
    and "\<And>d l. settled d \<Longrightarrow> commit_field d l n data = d\<lparr>ds_c := F (ds_c d)\<rparr>"
  shows "reads [str n @ 32 # data] F"
  using visible_wordD [OF assms(1)] assms header_step [OF _ _ assms(1-3)] by (auto simp: reads_def settled_settle)

lemma hash_data:
  assumes "sha1_id h"
  shows "str (ObjectID_String h) \<noteq> []" "visible (last (str (ObjectID_String h)))" "10 \<notin> set (str (ObjectID_String h))"
proof -
  show ne: "str (ObjectID_String h) \<noteq> []" using sha1_id_text(1) [OF assms] by (auto simp flip: length_0_conv)
  from last_in_set [OF ne] show "visible (last (str (ObjectID_String h)))" using hash_bytes [of "last (str (ObjectID_String h))" h] by linarith
  show "10 \<notin> set (str (ObjectID_String h))" using hash_bytes [of 10 h] by auto
qed

lemma reads_tree: "sha1_id h \<Longrightarrow> reads [str ''tree'' @ 32 # str (ObjectID_String h)] (c_TreeHash_update (\<lambda>_. h))"
  by (rule reads_header [OF header_names(1) hash_data]) (simp_all add: commit_field_def NewHash_text)

lemma reads_parent:
  "sha1_id h \<Longrightarrow> reads [str ''parent'' @ 32 # str (ObjectID_String h)] (c_ParentHashes_update (\<lambda>hs. hs @ [h]))"
  by (rule reads_header [OF header_names(2) hash_data]) (simp_all add: commit_field_def NewHash_text Let_def)

lemma Signature_Encode_line:
  assumes "sig_ok s" and "newline \<notin> set (sig_Name s @ sig_Email s)"
  shows "Signature_Encode s \<noteq> []" "visible (last (Signature_Encode s))" "10 \<notin> set (Signature_Encode s)"
proof -
  let ?u = "max 0 (t_Unix (sig_When s))" and ?off = "toMinutes (t_offset (sig_When s))"
  let ?t = "FormatInt ?u @ '' '' @ formatZone ?off"
  have ok: "0 \<le> ?u" "60 dvd ?off" "\<bar>?off\<bar> < 360000"
    using assms(1) toMinutes_bounds [of "t_offset (sig_When s)"] by (simp_all add: sig_ok_def)
  have enc: "Signature_Encode s = str (sig_Name s @ '' <'' @ sig_Email s @ ''> '' @ ?t)"
    by (simp add: Signature_Encode_def encodeTimeAndTimeZone_stored)
  show "Signature_Encode s \<noteq> []" by (simp add: enc)
  obtain h m sign where zone: "formatZone ?off = sign # pad2 h @ pad2 m" "m < 60"
    using formatZone_cases [OF ok(2,3)] by blast
  have pad: "pad2 m \<noteq> []" using ParseUint_pad2(2) [of m] zone(2) by auto
  then have lst: "last (Signature_Encode s) = of_char (last (pad2 m))" by (simp add: enc zone str_def last_map)
  have "last (pad2 m) = last (FormatNat 10 m)" "last (FormatNat 10 m) \<in> set (FormatNat 10 m)"
    by (simp_all add: pad2_def last_append)
  then have "48 \<le> (of_char (last (pad2 m)) :: nat) \<and> (of_char (last (pad2 m)) :: nat) \<le> 57"
    using FormatNat_chars [of 10 "last (pad2 m)" m] by simp
  then show "visible (last (Signature_Encode s))" by (simp add: lst)
  have "newline \<notin> set ?t" using time_chars [OF ok, of newline] by auto
  then have "newline \<notin> set (sig_Name s @ '' <'' @ sig_Email s @ ''> '' @ ?t)" using assms(2) by auto
  then show "10 \<notin> set (Signature_Encode s)" using of_char_in_str [of newline "sig_Name s @ '' <'' @ sig_Email s @ ''> '' @ ?t"]
    by (simp add: enc)
qed

lemma newline_byte: "(of_char newline :: byte) = 10" and char_of_newline: "char_of (10 :: nat) = newline"
  by (simp add: of_char_def) code_simp

lemma reads_author:
  assumes "sig_ok s" and "newline \<notin> set (sig_Name s @ sig_Email s)"
  shows "reads [str ''author'' @ 32 # Signature_Encode s]
    (c_Author_update (\<lambda>_. stored_signature s))"
  by (rule reads_header [OF header_names(3) Signature_Encode_line [OF assms]])
    (simp add: commit_field_def Signature_Decode_Encode [OF assms(1)] Let_def)

lemma reads_committer:
  assumes "sig_ok s" and "newline \<notin> set (sig_Name s @ sig_Email s)"
  shows "reads [str ''committer'' @ 32 # Signature_Encode s]
    (c_Committer_update (\<lambda>_. stored_signature s))"
  by (rule reads_header [OF header_names(4) Signature_Encode_line [OF assms]])
    (simp add: commit_field_def Signature_Decode_Encode [OF assms(1)] Let_def)

text \<open>Headers that go over several lines.\<close>

definition block_lines :: "string \<Rightarrow> string \<Rightarrow> bytes list" where
  "block_lines n s =
     (case SplitChar (TrimSuffix s [newline]) newline of
        p # ps \<Rightarrow> (str n @ 32 # str p) # map (\<lambda>l. 32 # str l) ps
      | [] \<Rightarrow> [])"

definition unindented :: "string \<Rightarrow> string" where
  "unindented s =
     (case SplitChar (TrimSuffix s [newline]) newline of
        p # ps \<Rightarrow> concat (map (\<lambda>l. l @ [newline]) (p # map (dropWhile (\<lambda>c. c = CHR '' '')) ps))
      | [] \<Rightarrow> [])"

definition block_ok :: "string \<Rightarrow> bool" where
  "block_ok s \<longleftrightarrow>
     (let p = hd (SplitChar (TrimSuffix s [newline]) newline) in p \<noteq> [] \<and> visible (of_char (last p)))"

lemma JoinStr_lines:
  "JoinStr (p # ps) [c, x] @ [c] = concat (map (\<lambda>l. l @ [c]) (p # map ((#) x) ps))"
  by (induction ps arbitrary: p) simp_all

lemma concat_SplitChar: "concat (map (\<lambda>l. l @ [c]) (SplitChar s c)) = s @ [c]"
proof (induction s)
  case (Cons a s)
  then show ?case by (cases "SplitChar s c") auto
qed simp

lemma unlines_str: "unlines (map str ls) = str (concat (map (\<lambda>l. l @ [newline]) ls))"
  by (induction ls) (simp_all add: newline_byte)

lemma block_text: "str (n @ '' '' @ indented s) @ [10] = unlines (block_lines n s)"
proof -
  obtain p ps where sp: "SplitChar (TrimSuffix s [newline]) newline = p # ps"
    by (cases "SplitChar (TrimSuffix s [newline]) newline") simp_all
  have "str (n @ '' '' @ indented s) @ [10] = str (n @ '' '' @ (JoinStr (p # ps) [newline, CHR '' ''] @ [newline]))"
    by (simp add: indented_def sp newline_byte)
  also have "\<dots> = str n @ 32 # unlines (map str (p # map ((#) (CHR '' '')) ps))"
    unfolding JoinStr_lines unlines_str by (simp add: char_bytes)
  finally show ?thesis by (simp add: block_lines_def sp comp_def char_bytes)
qed

lemma block_no_newline: "visible_word (str n) \<Longrightarrow> \<forall>l \<in> set (block_lines n s). 10 \<notin> set l"
proof -
  assume n: "visible_word (str n)"
  have "10 \<notin> set (str p)" if "p \<in> set (SplitChar (TrimSuffix s [newline]) newline)" for p
    using SplitChar_no_sep [OF that] of_char_in_str [of newline p] by (simp add: newline_byte)
  then show ?thesis using visible_wordD [OF n]
    by (cases "SplitChar (TrimSuffix s [newline]) newline") (auto simp: block_lines_def)
qed

lemma TrimLeftSp_line: "unstr (TrimLeftSp (32 # str l @ [10])) = dropWhile (\<lambda>c. c = CHR '' '') l @ [newline]"
proof -
  have "(of_char x :: byte) = 32 \<longleftrightarrow> x = CHR '' ''" for x using of_char_in_str [of "CHR '' ''" "[x]"] by (auto simp: char_bytes)
  then have "TrimLeftSp (32 # str l @ [10]) = str (dropWhile (\<lambda>c. c = CHR '' '') l @ [newline])"
    by (induction l) (simp_all add: TrimLeftSp_def newline_byte)
  then show ?thesis by (simp only: unstr_str)
qed

lemma mergetag_lines:
  "ds_mergetag d \<Longrightarrow> foldl line_step d (map (\<lambda>l. 32 # str l) ps) =
    d\<lparr>ds_c := c_MergeTag_update (\<lambda>t. t @ concat (map (\<lambda>l. dropWhile (\<lambda>c. c = CHR '' '') l @ [newline]) ps)) (ds_c d)\<rparr>"
proof (induction ps arbitrary: d)
  case (Cons p ps)
  then have "line_step d (32 # str p) = d\<lparr>ds_c := c_MergeTag_update (\<lambda>t. t @ dropWhile (\<lambda>c. c = CHR '' '') p @ [newline]) (ds_c d)\<rparr>"
    by (simp add: line_step_def commit_line_def TrimLeftSp_line)
  with Cons show ?case by simp
qed simp

lemma pgpsig_lines:
  "ds_pgpsig d \<Longrightarrow> \<not> ds_mergetag d \<Longrightarrow> foldl line_step d (map (\<lambda>l. 32 # str l) ps) =
    d\<lparr>ds_c := c_PGPSignature_update (\<lambda>t. t @ concat (map (\<lambda>l. dropWhile (\<lambda>c. c = CHR '' '') l @ [newline]) ps)) (ds_c d)\<rparr>"
proof (induction ps arbitrary: d)
  case (Cons p ps)
  then have "line_step d (32 # str p) = d\<lparr>ds_c := c_PGPSignature_update (\<lambda>t. t @ dropWhile (\<lambda>c. c = CHR '' '') p @ [newline]) (ds_c d)\<rparr>"
    by (cases d) (simp add: line_step_def commit_line_def TrimLeftSp_line)
  with Cons show ?case by simp
qed simp

lemma extra_header_lines:
  "ds_extra d = Some h \<Longrightarrow> \<not> ds_mergetag d \<Longrightarrow> \<not> ds_pgpsig d \<Longrightarrow> foldl line_step d (map (\<lambda>l. 32 # str l) ps) =
    d\<lparr>ds_extra := Some (h\<lparr>eh_Value := eh_Value h @ concat (map (\<lambda>l. l @ [newline]) ps)\<rparr>)\<rparr>"
proof (induction ps arbitrary: d h)
  case (Cons p ps)
  have nl: "unstr (str p @ [10]) = p @ [newline]" using unstr_str [of "p @ [newline]"] by (simp add: newline_byte)
  from Cons.prems have "line_step d (32 # str p) = d\<lparr>ds_extra := Some (h\<lparr>eh_Value := eh_Value h @ p @ [newline]\<rparr>)\<rparr>"
    by (cases d) (simp add: line_step_def commit_line_def nl char_of_newline)
  with Cons show ?case by simp
qed simp

lemma block_cases:
  assumes "block_ok s"
  obtains p ps where "SplitChar (TrimSuffix s [newline]) newline = p # ps" and "str p \<noteq> []" and "visible (last (str p))"
  using assms that by (cases "SplitChar (TrimSuffix s [newline]) newline") (auto simp: block_ok_def str_def last_map)

lemma reads_mergetag:
  assumes "block_ok s"
  shows "reads (block_lines headermergetag s) (c_MergeTag_update (\<lambda>t. t @ unindented s))"
proof -
  obtain p ps where sp: "SplitChar (TrimSuffix s [newline]) newline = p # ps" "str p \<noteq> []" "visible (last (str p))"
    using block_cases [OF assms] .
  have "settle (foldl line_step d (block_lines headermergetag s)) = d\<lparr>ds_c := c_MergeTag_update (\<lambda>t. t @ unindented s) (ds_c d)\<rparr>"
    if d: "settled d" "\<not> ds_message d" for d
    using header_step [OF d header_names(5) sp(2,3)] d
    by (cases d) (simp add: block_lines_def sp(1) mergetag_lines commit_field_def headermergetag_def settle_def flushExtra_def
        settled_def unindented_def comp_def)
  then show ?thesis using block_no_newline [OF header_names(5)] visible_wordD [OF header_names(5)]
    by (simp add: reads_def) (simp add: block_lines_def sp(1))
qed

lemma reads_pgpsig:
  assumes "block_ok s"
  shows "reads (block_lines headerpgp s) (c_PGPSignature_update (\<lambda>t. t @ unindented s))"
proof -
  obtain p ps where sp: "SplitChar (TrimSuffix s [newline]) newline = p # ps" "str p \<noteq> []" "visible (last (str p))"
    using block_cases [OF assms] .
  have "settle (foldl line_step d (block_lines headerpgp s)) = d\<lparr>ds_c := c_PGPSignature_update (\<lambda>t. t @ unindented s) (ds_c d)\<rparr>"
    if d: "settled d" "\<not> ds_message d" for d
    using header_step [OF d header_names(7) sp(2,3)] d
    by (cases d) (simp add: block_lines_def sp(1) pgpsig_lines commit_field_def headerpgp_def headermergetag_def headerencoding_def
        settle_def flushExtra_def settled_def unindented_def comp_def)
  then show ?thesis using block_no_newline [OF header_names(7)] visible_wordD [OF header_names(7)]
    by (simp add: reads_def) (simp add: block_lines_def sp(1))
qed

lemma reads_encoding:
  assumes "enc \<noteq> []" and "visible (of_char (last enc))" and "newline \<notin> set enc"
  shows "reads [str headerencoding @ 32 # str enc] (c_Encoding_update (\<lambda>_. enc))"
proof (rule reads_header [OF header_names(6)])
  show "str enc \<noteq> []" "visible (last (str enc))" using assms(1,2) by (simp_all add: str_def last_map)
  show "10 \<notin> set (str enc)" using assms(3) of_char_in_str [of newline enc] by (simp add: newline_byte)
qed (simp add: commit_field_def headerencoding_def headermergetag_def Let_def)

text \<open>Extra headers.\<close>

definition reserved_headers :: "string list" where
  "reserved_headers = [''tree'', ''parent'', ''author'', ''committer'', headermergetag, headerencoding, headerpgp]"

definition extra_ok :: "ExtraHeader \<Rightarrow> bool" where
  "extra_ok h \<longleftrightarrow>
     visible_word (str (eh_Key h)) \<and> eh_Key h \<notin> set reserved_headers \<and> (eh_Value h \<noteq> [] \<longrightarrow> last (eh_Value h) \<noteq> newline)"

definition extra_lines :: "ExtraHeader \<Rightarrow> bytes list" where
  "extra_lines h = (if eh_Value h = [] then [str (eh_Key h)] else block_lines (eh_Key h) (eh_Value h))"

lemma commit_field_extra:
  "k \<notin> set reserved_headers \<Longrightarrow> commit_field d l k data =
    (case parseExtraHeader l of
       (h, maybecontinued) \<Rightarrow>
         if maybecontinued then d\<lparr>ds_extra := Some h\<rparr>
         else d\<lparr>ds_c := c_ExtraHeaders_update (\<lambda>hs. hs @ [h]) (ds_c d)\<rparr>)"
  by (cases "parseExtraHeader l") (simp add: commit_field_def reserved_headers_def Let_def)

lemma TrimRightNL_newline: "s \<noteq> [] \<longrightarrow> last s \<noteq> newline \<Longrightarrow> TrimRightNL (s @ [newline]) = s \<and> TrimRightNL s = s"
  by (cases s rule: rev_cases) (simp_all add: TrimRightNL_def)

lemma TrimSuffix_newline: "s \<noteq> [] \<longrightarrow> last s \<noteq> newline \<Longrightarrow> TrimSuffix s [newline] = s"
  by (cases s rule: rev_cases) (auto simp: TrimSuffix_def HasSuffix_def)

lemma extra_header_step:
  assumes "settled d" "\<not> ds_message d" and "visible_word (str k)" and "k \<notin> set reserved_headers"
  shows "line_step d (str k @ 32 # t) = d\<lparr>ds_extra := Some \<lparr>eh_Key = k, eh_Value = unstr (t @ [10])\<rparr>\<rparr>"
proof -
  note k = visible_wordD [OF assms(3)]
  obtain n where n: "TrimRightSpace (str k @ 32 # t @ [10]) = str k @ take n (32 # t @ [10])"
    using TrimRightSpace_prefix [of "str k"] k by blast
  have "TrimLeftSpace (str k @ 32 # t @ [10]) = str k @ 32 # t @ [10]" using k by (intro TrimLeftSpace_visible) simp_all
  then have trim: "TrimSpace ((str k @ 32 # t) @ [10]) = str k @ take n (32 # t @ [10])" using n by (simp add: TrimSpace_def)
  have "\<exists>v. SplitN2 (str k @ take n (32 # t @ [10])) 32 = (str k, v)"
    using k SplitN2_name [of 32 "str k"] SplitN2_pair [of 32 "str k"] by (cases n) simp_all
  then obtain v where "SplitN2 (TrimSpace ((str k @ 32 # t) @ [10])) 32 = (str k, v)" unfolding trim by blast
  moreover have "parseExtraHeader ((str k @ 32 # t) @ [10]) = (\<lparr>eh_Key = TrimRightNL k, eh_Value = unstr (t @ [10])\<rparr>, True)"
    using SplitN2_pair [of 32 "str k" "t @ [10]"] k by (simp add: parseExtraHeader_def)
  moreover have "TrimRightNL k = k"
  proof -
    have "newline \<notin> set k" using k of_char_in_str [of newline k] by (simp add: newline_byte)
    then show ?thesis by (cases k rule: rev_cases) (auto simp: TrimRightNL_def)
  qed
  moreover have "TrimSpace ((str k @ 32 # t) @ [10]) \<noteq> []" unfolding trim using k by simp
  ultimately show ?thesis
    using line_step_header [of d "str k @ 32 # t"] assms k by (simp add: commit_header_def commit_field_extra)
qed

lemma reads_extra:
  assumes "extra_ok h"
  shows "reads (extra_lines h) (c_ExtraHeaders_update (\<lambda>hs. hs @ [h]))"
proof -
  obtain k v where h: "h = \<lparr>eh_Key = k, eh_Value = v\<rparr>" by (cases h)
  have k: "visible_word (str k)" "k \<notin> set reserved_headers" and v: "v \<noteq> [] \<longrightarrow> last v \<noteq> newline"
    using assms by (simp_all add: extra_ok_def h)
  note word = visible_wordD [OF k(1)]
  show ?thesis
  proof (cases "v = []")
    case True
    have trim: "TrimSpace (str k @ [10]) = str k" using word by (intro TrimSpace_newline) simp_all
    have "newline \<notin> set k" using word of_char_in_str [of newline k] by (simp add: newline_byte)
    then have key: "TrimRightNL (k @ [newline]) = k" using TrimRightNL_newline [of k] by (metis last_in_set)
    have "parseExtraHeader (str k @ [10]) = (h, False)"
      using SplitN2_name [of 32 "str k @ [10]"] word key by (simp add: parseExtraHeader_def h True char_of_newline)
    then have "line_step d (str k) = d\<lparr>ds_c := c_ExtraHeaders_update (\<lambda>hs. hs @ [h]) (ds_c d)\<rparr>" if "settled d" "\<not> ds_message d" for d
      using line_step_header [of d "str k"] that word trim k(2) SplitN2_name [of 32 "str k"]
      by (simp add: commit_header_def commit_field_extra)
    then show ?thesis using word by (simp add: reads_def extra_lines_def h True settled_settle)
  next
    case False
    obtain p ps where sp: "SplitChar v newline = p # ps" by (cases "SplitChar v newline") simp_all
    have lines: "extra_lines h = (str k @ 32 # str p) # map (\<lambda>l. 32 # str l) ps"
      using False sp by (simp add: extra_lines_def h block_lines_def TrimSuffix_newline [OF v])
    have p: "unstr (str p @ [10]) = p @ [newline]" using unstr_str [of "p @ [newline]"] by (simp add: newline_byte)
    have "p @ [newline] @ concat (map (\<lambda>l. l @ [newline]) ps) = v @ [newline]" using concat_SplitChar [where s = v and c = newline] sp by simp
    then have "settle (foldl line_step d (extra_lines h)) = d\<lparr>ds_c := c_ExtraHeaders_update (\<lambda>hs. hs @ [h]) (ds_c d)\<rparr>"
      if d: "settled d" "\<not> ds_message d" for d
      using extra_header_step [OF d k, of "str p"] d TrimRightNL_newline [OF v]
      by (cases d) (simp add: lines [unfolded h] p char_of_newline extra_header_lines settled_def settle_def flushExtra_def h)
    moreover have "\<forall>l \<in> set (extra_lines h). 10 \<notin> set l" using block_no_newline [OF k(1), of v] False by (simp add: extra_lines_def h)
    moreover have "hd (extra_lines h) \<noteq> [] \<and> hd (hd (extra_lines h)) \<noteq> 32" using word by (simp add: lines)
    ultimately show ?thesis by (simp add: reads_def)
  qed
qed

section \<open>The round trip\<close>

definition rotated :: "bytes \<Rightarrow> bytes list \<Rightarrow> bool" where
  "rotated piece g \<longleftrightarrow> piece @ [10] = 10 # unlines g"

lemma rotatedD: "rotated piece g \<Longrightarrow> piece @ 10 # r = 10 # unlines g @ r"
  unfolding rotated_def by (metis append.assoc append_Cons append_Nil)

lemma rotated_Nil: "rotated [] []"
  by (simp add: rotated_def)

lemma rotated_append: "rotated a g \<Longrightarrow> rotated b h \<Longrightarrow> rotated (a @ b) (g @ h)"
  using rotatedD [of a g "unlines h"] by (simp add: rotated_def)

definition commit_lines :: "Commit \<Rightarrow> bool \<Rightarrow> bytes list" where
  "commit_lines c includeSig =
     [str ''tree'' @ 32 # str (ObjectID_String (c_TreeHash c))] @
     concat (map (\<lambda>p. [str ''parent'' @ 32 # str (ObjectID_String p)]) (c_ParentHashes c)) @
     [str ''author'' @ 32 # Signature_Encode (c_Author c)] @
     [str ''committer'' @ 32 # Signature_Encode (c_Committer c)] @
     (if c_MergeTag c \<noteq> [] then block_lines headermergetag (c_MergeTag c) else []) @
     (if c_Encoding c \<noteq> [] \<and> c_Encoding c \<noteq> defaultUtf8CommitMessageEncoding then [str headerencoding @ 32 # str (c_Encoding c)] else []) @
     concat (map extra_lines (c_ExtraHeaders c)) @
     (if c_PGPSignature c \<noteq> [] \<and> includeSig then block_lines headerpgp (c_PGPSignature c) else [])"

lemma rotated_block: "rotated (str ([newline] @ n @ '' '' @ indented s)) (block_lines n s)"
  using block_text [of n s] by (simp add: rotated_def newline_byte)

lemma rotated_line: "rotated (str ([newline] @ n @ '' '' @ t)) [str n @ 32 # str t]"
  by (simp add: rotated_def newline_byte char_bytes)

lemma rotated_extras: "rotated (str (concat (map (\<lambda>h. [newline] @ ExtraHeader_Format h) hs))) (concat (map extra_lines hs))"
proof (induction hs)
  case Nil
  show ?case using rotated_Nil by simp
next
  case (Cons h hs)
  have "rotated (str ([newline] @ ExtraHeader_Format h)) (extra_lines h)"
    using rotated_block [of "eh_Key h" "eh_Value h"]
    by (simp add: ExtraHeader_Format_def extra_lines_def indented_def rotated_def newline_byte)
  from rotated_append [OF this Cons] show ?case by simp
qed

lemma parents_text:
  "str (concat (map (\<lambda>p. ''parent '' @ ObjectID_String p @ [newline]) hs)) =
    unlines (concat (map (\<lambda>p. [str ''parent'' @ 32 # str (ObjectID_String p)]) hs))"
  by (induction hs) (simp_all add: newline_byte char_bytes)

lemma commit_text_lines: "commit_text c b = unlines (commit_lines c b) @ 10 # str (c_Message c)"
proof -
  let ?mt = "if c_MergeTag c \<noteq> [] then [newline] @ headermergetag @ '' '' @ indented (c_MergeTag c) else []"
  let ?en = "if c_Encoding c \<noteq> [] \<and> c_Encoding c \<noteq> defaultUtf8CommitMessageEncoding
        then [newline] @ headerencoding @ '' '' @ c_Encoding c else []"
  let ?ex = "concat (map (\<lambda>h. [newline] @ ExtraHeader_Format h) (c_ExtraHeaders c))"
  let ?pgp = "if c_PGPSignature c \<noteq> [] \<and> b then [newline] @ headerpgp @ '' '' @ indented (c_PGPSignature c) else []"
  let ?mt' = "if c_MergeTag c \<noteq> [] then block_lines headermergetag (c_MergeTag c) else []"
  let ?en' = "if c_Encoding c \<noteq> [] \<and> c_Encoding c \<noteq> defaultUtf8CommitMessageEncoding then [str headerencoding @ 32 # str (c_Encoding c)] else []"
  let ?pgp' = "if c_PGPSignature c \<noteq> [] \<and> b then block_lines headerpgp (c_PGPSignature c) else []"
  let ?com = "str ([newline] @ ''committer '') @ Signature_Encode (c_Committer c)"
  have "rotated (str ?mt) ?mt'" "rotated (str ?en) ?en'" "rotated (str ?pgp) ?pgp'"
    using rotated_block rotated_line rotated_Nil by simp_all
  moreover have "rotated ?com [str ''committer'' @ 32 # Signature_Encode (c_Committer c)]"
    by (simp add: rotated_def newline_byte char_bytes)
  ultimately have "rotated (?com @ str ?mt @ str ?en @ str ?ex @ str ?pgp)
      ([str ''committer'' @ 32 # Signature_Encode (c_Committer c)] @ ?mt' @ ?en' @ concat (map extra_lines (c_ExtraHeaders c)) @ ?pgp')"
    by (intro rotated_append rotated_extras)
  from rotatedD [OF this, of "10 # str (c_Message c)"]
  have "(?com @ str ?mt @ str ?en @ str ?ex @ str ?pgp) @ 10 # 10 # str (c_Message c) =
      10 # unlines ([str ''committer'' @ 32 # Signature_Encode (c_Committer c)] @ ?mt' @ ?en' @ concat (map extra_lines (c_ExtraHeaders c)) @ ?pgp') @
        10 # str (c_Message c)" .
  moreover have "commit_text c b = str (''tree '' @ ObjectID_String (c_TreeHash c) @ [newline]) @
      str (concat (map (\<lambda>p. ''parent '' @ ObjectID_String p @ [newline]) (c_ParentHashes c))) @ str (''author '') @
      Signature_Encode (c_Author c) @ (?com @ str ?mt @ str ?en @ str ?ex @ str ?pgp) @ 10 # 10 # str (c_Message c)"
    unfolding commit_text_def str_append append.assoc by (simp only: str_Cons str_Nil newline_byte append_Cons append_Nil)
  ultimately show ?thesis unfolding commit_lines_def parents_text
    by (simp only: unlines_simps append.assoc append_Cons append_Nil) (simp add: newline_byte char_bytes)
qed

definition commit_ok :: "Commit \<Rightarrow> bool" where
  "commit_ok c \<longleftrightarrow>
     sha1_id (c_TreeHash c) \<and> (\<forall>h \<in> set (c_ParentHashes c). sha1_id h) \<and>
     (\<forall>s \<in> {c_Author c, c_Committer c}. sig_ok s \<and> newline \<notin> set (sig_Name s @ sig_Email s)) \<and>
     (\<forall>s \<in> {c_MergeTag c, c_PGPSignature c}. s \<noteq> [] \<longrightarrow> block_ok s) \<and>
     (c_Encoding c \<noteq> [] \<longrightarrow> visible (of_char (last (c_Encoding c))) \<and> newline \<notin> set (c_Encoding c)) \<and>
     (\<forall>h \<in> set (c_ExtraHeaders c). extra_ok h)"

text \<open>What is left of a commit in an object, apart from its hash.\<close>

definition stored_commit :: "Commit \<Rightarrow> Commit" where
  "stored_commit c =
     c\<lparr>c_Author := stored_signature (c_Author c), c_Committer := stored_signature (c_Committer c),
       c_Encoding := (if c_Encoding c = [] then defaultUtf8CommitMessageEncoding else c_Encoding c),
       c_MergeTag := (if c_MergeTag c = [] then [] else unindented (c_MergeTag c)),
       c_PGPSignature := (if c_PGPSignature c = [] then [] else unindented (c_PGPSignature c))\<rparr>"

lemma reads_if: "(b \<Longrightarrow> reads g F) \<Longrightarrow> reads (if b then g else []) (if b then F else (\<lambda>c. c))"
  using reads_Nil by simp

lemma reads_commit_lines:
  assumes "commit_ok c"
  shows "\<exists>F. reads (commit_lines c True) F \<and>
    (\<forall>h. F (zeroCommit\<lparr>c_Hash := h, c_Encoding := defaultUtf8CommitMessageEncoding\<rparr>) =
      (stored_commit c)\<lparr>c_Hash := h, c_Message := []\<rparr>)"
proof -
  have parents: "foldl (\<lambda>c x. c_ParentHashes_update (\<lambda>hs. hs @ [x]) c) e ps = c_ParentHashes_update (\<lambda>hs. hs @ ps) e" for ps and e :: Commit
    by (induction ps arbitrary: e) simp_all
  have extras: "foldl (\<lambda>c x. c_ExtraHeaders_update (\<lambda>hs. hs @ [x]) c) e ps = c_ExtraHeaders_update (\<lambda>hs. hs @ ps) e" for ps and e :: Commit
    by (induction ps arbitrary: e) simp_all
  have sigs: "sig_ok (c_Author c)" "newline \<notin> set (sig_Name (c_Author c) @ sig_Email (c_Author c))"
    "sig_ok (c_Committer c)" "newline \<notin> set (sig_Name (c_Committer c) @ sig_Email (c_Committer c))"
    using assms by (simp_all add: commit_ok_def)
  have tree: "sha1_id (c_TreeHash c)" using assms by (simp add: commit_ok_def)
  have par: "reads (concat (map (\<lambda>p. [str ''parent'' @ 32 # str (ObjectID_String p)]) (c_ParentHashes c)))
      (\<lambda>e. foldl (\<lambda>e x. c_ParentHashes_update (\<lambda>hs. hs @ [x]) e) e (c_ParentHashes c))"
    using assms reads_parent by (intro reads_concat) (simp add: commit_ok_def)
  have ext: "reads (concat (map extra_lines (c_ExtraHeaders c))) (\<lambda>e. foldl (\<lambda>e x. c_ExtraHeaders_update (\<lambda>hs. hs @ [x]) e) e (c_ExtraHeaders c))"
    using assms reads_extra by (intro reads_concat) (simp add: commit_ok_def)
  have mt: "c_MergeTag c \<noteq> [] \<Longrightarrow> reads (block_lines headermergetag (c_MergeTag c)) (c_MergeTag_update (\<lambda>t. t @ unindented (c_MergeTag c)))"
    using assms by (intro reads_mergetag) (simp add: commit_ok_def)
  have en: "c_Encoding c \<noteq> [] \<and> c_Encoding c \<noteq> defaultUtf8CommitMessageEncoding \<Longrightarrow>
      reads [str headerencoding @ 32 # str (c_Encoding c)] (c_Encoding_update (\<lambda>_. c_Encoding c))"
    using assms by (intro reads_encoding) (simp_all add: commit_ok_def)
  have pgp: "c_PGPSignature c \<noteq> [] \<and> True \<Longrightarrow> reads (block_lines headerpgp (c_PGPSignature c)) (c_PGPSignature_update (\<lambda>t. t @ unindented (c_PGPSignature c)))"
    using assms by (intro reads_pgpsig) (simp add: commit_ok_def)
  note all = reads_append [OF reads_tree [OF tree] reads_append [OF par reads_append [OF reads_author [OF sigs(1,2)]
    reads_append [OF reads_committer [OF sigs(3,4)] reads_append [OF reads_if [OF mt] reads_append [OF reads_if [OF en]
    reads_append [OF ext reads_if [OF pgp]]]]]]]]
  show ?thesis
    unfolding commit_lines_def
    by (rule exI, rule conjI, rule all, assumption+)
      (intro allI Commit.equality; simp add: stored_commit_def parents extras zeroCommit_def)
qed

text \<open>Nothing is lost of a block whose lines are not indented and which ends in a newline.\<close>

lemma unindented_id:
  assumes "s \<noteq> []" and "last s = newline" and "\<forall>l \<in> set (SplitChar s newline). \<not> HasPrefix l '' ''"
  shows "unindented s = s"
proof -
  obtain t where s: "s = t @ [newline]" using assms(1,2) by (cases s rule: rev_cases) auto
  have trim: "TrimSuffix s [newline] = t" by (simp add: s TrimSuffix_def HasSuffix_def)
  have split: "SplitChar (t @ [c]) c = SplitChar t c @ [[]]" for c :: char by (induction t) (auto split: list.splits)
  obtain p ps where sp: "SplitChar t newline = p # ps" by (cases "SplitChar t newline") simp_all
  have "dropWhile (\<lambda>c. c = CHR '' '') l = l" if "l \<in> set ps" for l
    using assms(3) that by (cases l) (auto simp: s split sp HasPrefix_def)
  then have "unindented s = concat (map (\<lambda>l. l @ [newline]) (SplitChar t newline))"
    by (simp add: unindented_def trim sp comp_def cong: map_cong)
  then show ?thesis by (simp add: concat_SplitChar s)
qed

lemma Commit_Decode_Encode:
  assumes "commit_ok c"
  shows "DecodeCommit sha (Commit_Encode c newMemoryObject) =
    Ok ((stored_commit c)\<lparr>c_Hash := fst (MemoryObject_Hash sha (Commit_Encode c newMemoryObject))\<rparr>)"
proof -
  let ?h = "fst (MemoryObject_Hash sha (Commit_Encode c newMemoryObject))"
  let ?c = "zeroCommit\<lparr>c_Hash := ?h, c_Encoding := defaultUtf8CommitMessageEncoding\<rparr>"
  let ?d = "\<lparr>ds_c = ?c, ds_message = False, ds_mergetag = False, ds_pgpsig = False, ds_msgbuf = [], ds_extra = None\<rparr>"
  obtain F where F: "reads (commit_lines c True) F" "F ?c = (stored_commit c)\<lparr>c_Hash := ?h, c_Message := []\<rparr>"
    using reads_commit_lines [OF assms] by blast
  have "MemoryObject_Reader (Commit_Encode c newMemoryObject) = unlines (commit_lines c True) @ 10 # str (c_Message c)"
    by (simp add: Commit_Encode_def Commit_encode_def MemoryObject_Reader_def MemoryObject_Write_def MemoryObject_SetType_def
        newMemoryObject_def Let_def flip: commit_text_lines)
  moreover have "commit_loop ?d (unlines (commit_lines c True) @ 10 # str (c_Message c)) =
      ?d\<lparr>ds_c := F ?c, ds_message := True, ds_msgbuf := str (c_Message c)\<rparr>"
    using commit_loop_object [OF F(1), of ?d] by (simp add: settled_def)
  moreover have "mo_t (Commit_Encode c newMemoryObject) = CommitObject"
    by (simp add: Commit_Encode_def Commit_encode_def MemoryObject_Write_def MemoryObject_SetType_def Let_def)
  ultimately have "DecodeCommit sha (Commit_Encode c newMemoryObject) = Ok ((F ?c)\<lparr>c_Message := c_Message c\<rparr>)"
    by (simp add: DecodeCommit_def Commit_Decode_def Let_def)
  moreover have "c_Message (stored_commit c) = c_Message c" by (simp add: stored_commit_def)
  ultimately show ?thesis by (cases "stored_commit c") (simp add: F(2))
qed

text \<open>
  C27. What a commit is decoded to after it was encoded: the same tree, parents in order, extra headers
  with values over any number of lines and message with any bytes, with the hash of its object.
  Author and committer come back as signatures do, and a missing encoding as \<^verbatim>\<open>UTF-8\<close>. Merge tag and PGP
  signature come back with the leading spaces of all lines but the first removed and a newline at the
  end; one that ends in a newline and has no indented line comes back as it was. The fields have to fit
  their lines, as \<open>commit_ok\<close> says: names, emails and the encoding stay on one, the first line of a block ends
  visibly, and an extra header has a key of its own and a value that does not end in a newline.
\<close>

theorem Commit_roundtrip:
  assumes "commit_ok c"
  shows "DecodeCommit sha (Commit_Encode c newMemoryObject) =
      Ok (c\<lparr>c_Hash := fst (MemoryObject_Hash sha (Commit_Encode c newMemoryObject)),
            c_Author := stored_signature (c_Author c), c_Committer := stored_signature (c_Committer c),
            c_Encoding := (if c_Encoding c = [] then ''UTF-8'' else c_Encoding c),
            c_MergeTag := (if c_MergeTag c = [] then [] else unindented (c_MergeTag c)),
            c_PGPSignature := (if c_PGPSignature c = [] then [] else unindented (c_PGPSignature c))\<rparr>) \<and>
    (\<forall>s. s \<noteq> [] \<and> last s = newline \<and> (\<forall>l \<in> set (SplitChar s newline). \<not> HasPrefix l '' '') \<longrightarrow> unindented s = s)"
  using Commit_Decode_Encode [OF assms] unindented_id by (simp add: stored_commit_def defaultUtf8CommitMessageEncoding_def)

definition sample_commit :: Commit where
  "sample_commit = \<lparr>c_Hash = ZeroHash,
     c_Author = \<lparr>sig_Name = ''A B'', sig_Email = ''a@b'', sig_When = \<lparr>t_Unix = 7, t_nsec = 0, t_offset = 3600\<rparr>\<rparr>,
     c_Committer = \<lparr>sig_Name = ''C'', sig_Email = ''c@d'', sig_When = \<lparr>t_Unix = 8, t_nsec = 0, t_offset = 0\<rparr>\<rparr>,
     c_MergeTag = [], c_PGPSignature = ''sig'' @ [newline] @ '' x'' @ [newline], c_Message = ''m'' @ [newline, newline] @ ''n'',
     c_TreeHash = ZeroHash, c_ParentHashes = [ZeroHash, ZeroHash], c_Encoding = ''UTF-8'',
     c_ExtraHeaders = [\<lparr>eh_Key = ''k'', eh_Value = ''v'' @ [newline] @ '' w''\<rparr>]\<rparr>"

lemma sample_commit_ok: "commit_ok sample_commit"
  by (simp add: commit_ok_def sample_commit_def sha1_id_ZeroHash sig_ok_def TrimSp_def block_ok_def TrimSuffix_def HasSuffix_def
      extra_ok_def visible_word_def reserved_headers_def headermergetag_def headerencoding_def headerpgp_def of_char_def)

lemma sample_signatures:
  "stored_signature (c_Author sample_commit) = c_Author sample_commit" "stored_signature (c_Committer sample_commit) = c_Committer sample_commit"
  by (rule stored_signature_id; simp add: sample_commit_def TrimSp_def of_char_def)+

theorem Commit_roundtrip_witness:
  "DecodeCommit toy_sha (Commit_Encode sample_commit newMemoryObject) =
     Ok (sample_commit\<lparr>c_Hash := fst (MemoryObject_Hash toy_sha (Commit_Encode sample_commit newMemoryObject)),
           c_PGPSignature := ''sig'' @ [newline] @ ''x'' @ [newline]\<rparr>)"
proof -
  have "unindented (c_PGPSignature sample_commit) = ''sig'' @ [newline] @ ''x'' @ [newline]" by code_simp
  with Commit_roundtrip [OF sample_commit_ok, of toy_sha] sample_signatures show ?thesis by (simp add: sample_commit_def)
qed

end
