(* ===== verification/Tag.thy ===== *)
theory Tag
  imports Commit
begin

text \<open>
  Annotated tags, \<^verbatim>\<open>plumbing/object/tag.go\<close>, and the search for the signature at the end of a message,
  \<^verbatim>\<open>plumbing/object/signature.go\<close>.
\<close>

section \<open>Signatures in messages\<close>

datatype signatureType = signatureTypeUnknown | signatureTypeOpenPGP | signatureTypeX509 | signatureTypeSSH

type_synonym signatureFormat = "bytes list"

definition openPGPSignatureFormat :: signatureFormat where
  "openPGPSignatureFormat = [str ''-----BEGIN PGP SIGNATURE-----'', str ''-----BEGIN PGP MESSAGE-----'']"

definition x509SignatureFormat :: signatureFormat where
  "x509SignatureFormat = [str ''-----BEGIN CERTIFICATE-----'', str ''-----BEGIN SIGNED MESSAGE-----'']"

definition sshSignatureFormat :: signatureFormat where
  "sshSignatureFormat = [str ''-----BEGIN SSH SIGNATURE-----'']"

text \<open>The map of known formats is iterated in any order; \<open>typeForSignature_order\<close> shows that it does not matter.\<close>

definition knownSignatureFormats :: "(signatureType \<times> signatureFormat) list" where
  "knownSignatureFormats =
     [(signatureTypeOpenPGP, openPGPSignatureFormat), (signatureTypeX509, x509SignatureFormat), (signatureTypeSSH, sshSignatureFormat)]"

fun typeForSignature_loop :: "(signatureType \<times> signatureFormat) list \<Rightarrow> bytes \<Rightarrow> signatureType" where
  "typeForSignature_loop [] b = signatureTypeUnknown"
| "typeForSignature_loop ((t, i) # fs) b = (if \<exists>begin' \<in> set i. HasPrefix b begin' then t else typeForSignature_loop fs b)"

definition typeForSignature :: "bytes \<Rightarrow> signatureType" where
  "typeForSignature b = typeForSignature_loop knownSignatureFormats b"

text \<open>\<open>IndexNL\<close> is \<^verbatim>\<open>bytes.IndexByte(i, '\n')\<close>, \<open>None\<close> for -1.\<close>

definition IndexNL :: "bytes \<Rightarrow> nat option" where
  "IndexNL i = (if 10 \<in> set i then Some (length (takeWhile (\<lambda>b. b \<noteq> 10) i)) else None)"

function parseSigned_loop :: "bytes \<Rightarrow> nat \<Rightarrow> nat option \<Rightarrow> signatureType \<Rightarrow> nat option \<times> signatureType" where
  "parseSigned_loop b n match t =
     (if n < length b
      then let i = drop n b;
               st = typeForSignature i;
               match = (if st \<noteq> signatureTypeUnknown then Some n else match);
               t = (if st \<noteq> signatureTypeUnknown then st else t)
           in case IndexNL i of Some eol \<Rightarrow> parseSigned_loop b (n + (eol + 1)) match t | None \<Rightarrow> (match, t)
      else (match, t))"
  by pat_completeness auto
termination by (relation "measure (\<lambda>(b, n, m, t). length b - n)") auto

declare parseSigned_loop.simps [simp del]

definition parseSignedBytes :: "bytes \<Rightarrow> nat option \<times> signatureType" where
  "parseSignedBytes b = parseSigned_loop b 0 None signatureTypeUnknown"

section \<open>Tags\<close>

record Tag =
  tag_Hash :: ObjectID
  tag_Name :: string
  tag_Tagger :: Signature
  tag_Message :: string
  tag_PGPSignature :: string
  tag_TargetType :: ObjectType
  tag_Target :: ObjectID

definition zeroTag :: Tag where
  "zeroTag = \<lparr>tag_Hash = ZeroHash, tag_Name = [], tag_Tagger = zeroSignature, tag_Message = [], tag_PGPSignature = [],
     tag_TargetType = InvalidObject, tag_Target = ZeroHash\<rparr>"

text \<open>
  The switch on the name of a header. \<^verbatim>\<open>split[1]\<close> panics when the line has no space. The flag tells
  whether \<^verbatim>\<open>err\<close> was overwritten, as the type of the target does.
\<close>

definition tag_field :: "Tag \<Rightarrow> bytes \<Rightarrow> (Tag \<times> bool) result" where
  "tag_field t line =
     (let (name, val) = SplitN2 line 32
      in if unstr name = ''object''
         then (case val of None \<Rightarrow> Panic | Some v \<Rightarrow> Ok (t\<lparr>tag_Target := NewHash (unstr v)\<rparr>, False))
         else if unstr name = ''type''
         then (case val of
                 None \<Rightarrow> Panic
               | Some v \<Rightarrow> rbind (ParseObjectType (unstr v)) (\<lambda>ty. Ok (t\<lparr>tag_TargetType := ty\<rparr>, True)))
         else if unstr name = ''tag''
         then (case val of None \<Rightarrow> Panic | Some v \<Rightarrow> Ok (t\<lparr>tag_Name := unstr v\<rparr>, False))
         else if unstr name = ''tagger''
         then (case val of None \<Rightarrow> Panic | Some v \<Rightarrow> Ok (t\<lparr>tag_Tagger := Signature_Decode (tag_Tagger t) v\<rparr>, False))
         else Ok (t, False))"

lemma TrimSpace_Nil [simp]: "TrimSpace [] = []"
  using TrimLeftSpace_Nil by (simp add: TrimSpace_def)

text \<open>The loop over the headers: the rest of the reader after the blank line, or \<open>None\<close> at the end of the input.\<close>

function tag_loop :: "Tag \<Rightarrow> reader \<Rightarrow> (Tag \<times> reader option) result" where
  "tag_loop t r =
     (let (line, r', eof) = ReadBytesNL r; line = TrimSpace line
      in if length line = 0 then Ok (t, Some r')
         else case tag_field t line of
                Ok (t', cleared) \<Rightarrow> if eof \<and> \<not> cleared then Ok (t', None) else tag_loop t' r'
              | Error e \<Rightarrow> Error e
              | Panic \<Rightarrow> Panic)"
  by pat_completeness auto
termination
proof (relation "measure (\<lambda>(t, r). length r)", goal_cases)
  case 1
  show ?case by simp
next
  case (2 t r x line y r' eof trimmed z t' cleared)
  then have read: "ReadBytesNL r = (line, r', eof)" by auto
  have "r \<noteq> []"
  proof
    assume "r = []"
    with read 2 show False by (auto simp: ReadBytesNL_def)
  qed
  with ReadBytesNL_shrinks [OF read] show ?case by simp
qed

declare tag_loop.simps [simp del]

definition Tag_Decode :: "digest \<Rightarrow> Tag \<Rightarrow> MemoryObject \<Rightarrow> Tag result" where
  "Tag_Decode sha t ob =
     (if mo_t ob \<noteq> TagObject then Error ErrUnsupportedObject
      else rbind (tag_loop (t\<lparr>tag_Hash := fst (MemoryObject_Hash sha ob)\<rparr>) (MemoryObject_Reader ob)) (\<lambda>(t, rest).
        case rest of
          None \<Rightarrow> Ok t
        | Some data \<Rightarrow>
            (case fst (parseSignedBytes data) of
               Some sm \<Rightarrow> Ok (t\<lparr>tag_PGPSignature := unstr (drop sm data), tag_Message := unstr (take sm data)\<rparr>)
             | None \<Rightarrow> Ok (t\<lparr>tag_Message := unstr data\<rparr>))))"

definition DecodeTag :: "digest \<Rightarrow> MemoryObject \<Rightarrow> Tag result" where
  "DecodeTag sha ob = Tag_Decode sha zeroTag ob"

definition GetTag :: "digest \<Rightarrow> (ObjectType \<Rightarrow> ObjectID \<Rightarrow> MemoryObject result) \<Rightarrow> ObjectID \<Rightarrow> Tag result" where
  "GetTag sha storage h = rbind (storage TagObject h) (DecodeTag sha)"

definition tag_text :: "Tag \<Rightarrow> bool \<Rightarrow> bytes" where
  "tag_text t includeSig =
     str (''object '' @ ObjectID_String (tag_Target t) @ [newline] @ ''type '') @ ObjectType_Bytes (tag_TargetType t) @
     str ([newline] @ ''tag '' @ tag_Name t @ [newline] @ ''tagger '') @
     Signature_Encode (tag_Tagger t) @ str [newline, newline] @ str (tag_Message t) @
     (if includeSig then str (tag_PGPSignature t) else [])"

definition Tag_encode :: "Tag \<Rightarrow> MemoryObject \<Rightarrow> bool \<Rightarrow> MemoryObject" where
  "Tag_encode t ob includeSig = MemoryObject_Write (MemoryObject_SetType ob TagObject) (tag_text t includeSig)"

definition Tag_Encode :: "Tag \<Rightarrow> MemoryObject \<Rightarrow> MemoryObject" where
  "Tag_Encode t ob = Tag_encode t ob True"

definition Tag_EncodeWithoutSignature :: "Tag \<Rightarrow> MemoryObject \<Rightarrow> MemoryObject" where
  "Tag_EncodeWithoutSignature t ob = Tag_encode t ob False"

definition Tag_Commit :: "digest \<Rightarrow> (ObjectType \<Rightarrow> ObjectID \<Rightarrow> MemoryObject result) \<Rightarrow> Tag \<Rightarrow> Commit result" where
  "Tag_Commit sha storage t =
     (if tag_TargetType t \<noteq> CommitObject then Error ErrUnsupportedObject
      else rbind (storage CommitObject (tag_Target t)) (DecodeCommit sha))"

section \<open>Properties\<close>

definition line_start :: "bytes \<Rightarrow> nat \<Rightarrow> bool" where
  "line_start b n \<longleftrightarrow> n < length b \<and> (n = 0 \<or> b ! (n - 1) = 10)"

definition sig_start :: "bytes \<Rightarrow> nat \<Rightarrow> bool" where
  "sig_start b n \<longleftrightarrow> line_start b n \<and> typeForSignature (drop n b) \<noteq> signatureTypeUnknown"

definition lastSig :: "bytes \<Rightarrow> nat \<Rightarrow> nat option \<times> signatureType \<Rightarrow> bool" where
  "lastSig b n res \<longleftrightarrow>
     (case res of
        (None, t) \<Rightarrow> t = signatureTypeUnknown \<and> (\<forall>k<n. \<not> sig_start b k)
      | (Some k, t) \<Rightarrow> t = typeForSignature (drop k b) \<and> k < n \<and> sig_start b k \<and> (\<forall>j. k < j \<and> j < n \<longrightarrow> \<not> sig_start b j))"

lemma IndexNL_Some: "IndexNL i = Some e \<Longrightarrow> e < length i \<and> i ! e = 10 \<and> (\<forall>k<e. i ! k \<noteq> 10)"
proof (induction i arbitrary: e)
  case (Cons a i)
  show ?case
  proof (cases "a = 10")
    case True
    with Cons.prems show ?thesis by (simp add: IndexNL_def)
  next
    case False
    then obtain e' where e': "e = Suc e'" "IndexNL i = Some e'" using Cons.prems by (auto simp: IndexNL_def split: if_splits)
    then show ?thesis using Cons.IH [OF e'(2)] False by (auto simp: less_Suc_eq_0_disj)
  qed
qed (simp add: IndexNL_def)

lemma parseSigned_loop_lastSig:
  "n < length b \<longrightarrow> line_start b n \<Longrightarrow> n \<le> length b \<Longrightarrow> lastSig b n (m, t) \<Longrightarrow> lastSig b (length b) (parseSigned_loop b n m t)"
proof (induction b n m t rule: parseSigned_loop.induct)
  case (1 b n m t)
  let ?st = "typeForSignature (drop n b)"
  let ?m = "if ?st \<noteq> signatureTypeUnknown then Some n else m"
  let ?t = "if ?st \<noteq> signatureTypeUnknown then ?st else t"
  show ?case
  proof (cases "n < length b")
    case False
    with "1.prems" show ?thesis by (subst parseSigned_loop.simps) simp
  next
    case True
    have none: "lastSig b n' (?m, ?t)" if "n < n'" "\<And>j. n < j \<Longrightarrow> j < n' \<Longrightarrow> \<not> line_start b j" for n'
      using that "1.prems" True
      by (auto simp: lastSig_def sig_start_def not_less not_less_eq_eq split: option.splits)
        (metis antisym_conv3 less_trans)+
    have starts: "line_start b j \<Longrightarrow> n < j \<Longrightarrow> drop n b ! (j - 1 - n) = 10" for j
      by (auto simp: line_start_def)
    show ?thesis
    proof (cases "IndexNL (drop n b)")
      case None
      then have "10 \<notin> set (drop n b)" by (auto simp: IndexNL_def split: if_splits)
      have "\<not> line_start b j" if "n < j" "j < length b" for j
      proof
        assume "line_start b j"
        moreover have "j - 1 - n < length (drop n b)" using that by simp
        ultimately have "10 \<in> set (drop n b)" using starts [of j] that(1) nth_mem [of "j - 1 - n" "drop n b"] by simp
        with \<open>10 \<notin> set (drop n b)\<close> show False by contradiction
      qed
      then show ?thesis using none [of "length b"] True None by (subst parseSigned_loop.simps) (simp add: Let_def)
    next
      case (Some e)
      note e = IndexNL_Some [OF Some]
      have "\<not> line_start b j" if "n < j" "j < n + (e + 1)" for j
        using starts [of j] that e by auto
      then have last: "lastSig b (n + (e + 1)) (?m, ?t)" using none [of "n + (e + 1)"] by simp
      have start: "n + (e + 1) < length b \<longrightarrow> line_start b (n + (e + 1))" using e by (auto simp: line_start_def)
      have "e < length b - n" using e by simp
      then have le: "n + (e + 1) \<le> length b" by linarith
      have "lastSig b (length b) (parseSigned_loop b (n + (e + 1)) ?m ?t)"
        by (rule "1.IH" [OF True refl refl refl refl Some start le last])
      then show ?thesis using True Some by (subst parseSigned_loop.simps) (simp add: Let_def)
    qed
  qed
qed

text \<open>
  The search for a signature returns the start of the last line that begins with a known
  marker, with the type of the marker, and no position when no line begins with one.
\<close>

theorem parseSignedBytes_last:
  "case parseSignedBytes b of
     (None, t) \<Rightarrow> t = signatureTypeUnknown \<and> (\<forall>k<length b. \<not> sig_start b k)
   | (Some k, t) \<Rightarrow> t = typeForSignature (drop k b) \<and> sig_start b k \<and> (\<forall>j. sig_start b j \<longrightarrow> j \<le> k)"
proof -
  have "lastSig b (length b) (parseSignedBytes b)"
    unfolding parseSignedBytes_def by (rule parseSigned_loop_lastSig) (simp_all add: line_start_def lastSig_def)
  moreover have "sig_start b j \<Longrightarrow> j < length b" for j by (simp add: sig_start_def line_start_def)
  ultimately show ?thesis by (auto simp: lastSig_def split: option.splits prod.splits) (meson not_less)
qed

theorem parseSignedBytes_last_witness:
  "parseSignedBytes (str (''a'' @ [newline] @ ''-----BEGIN SSH SIGNATURE-----'')) = (Some 2, signatureTypeSSH) \<and>
   sig_start (str (''a'' @ [newline] @ ''-----BEGIN SSH SIGNATURE-----'')) 2"
proof -
  have "parseSignedBytes (str (''a'' @ [newline] @ ''-----BEGIN SSH SIGNATURE-----'')) = (Some 2, signatureTypeSSH)" by code_simp
  with parseSignedBytes_last [of "str (''a'' @ [newline] @ ''-----BEGIN SSH SIGNATURE-----'')"] show ?thesis
    by (simp only: prod.case option.case simp_thms)
qed

lemma markers_differ:
  "\<forall>(t, i) \<in> set knownSignatureFormats. \<forall>(t', i') \<in> set knownSignatureFormats. \<forall>x \<in> set i. \<forall>y \<in> set i'.
     take (length y) x = take (length x) y \<longrightarrow> t = t'"
  by code_simp

lemma typeForSignature_matched:
  "\<lbrakk>(t, i) \<in> set fs; set fs \<subseteq> set knownSignatureFormats; x \<in> set i; HasPrefix b x\<rbrakk> \<Longrightarrow> typeForSignature_loop fs b = t"
proof (induction fs)
  case (Cons f fs)
  obtain t' i' where f: "f = (t', i')" by (cases f)
  have "t' = t" if y: "y \<in> set i'" "HasPrefix b y" for y
  proof -
    have "take (length x) y = take (length y) x" using y(2) Cons.prems(4) by (auto simp: HasPrefix_def) (metis min.commute take_take)
    then show ?thesis using markers_differ Cons.prems(1-3) y(1) f by fastforce
  qed
  then show ?case using Cons f by auto
qed simp

lemma typeForSignature_unmatched: "\<forall>(t, i) \<in> set fs. \<forall>x \<in> set i. \<not> HasPrefix b x \<Longrightarrow> typeForSignature_loop fs b = signatureTypeUnknown"
  by (induction fs b rule: typeForSignature_loop.induct) auto

lemma typeForSignature_order:
  assumes "set fs = set knownSignatureFormats"
  shows "typeForSignature_loop fs b = typeForSignature b"
proof (cases "\<exists>(t, i) \<in> set knownSignatureFormats. \<exists>x \<in> set i. HasPrefix b x")
  case True
  then obtain t i x where "(t, i) \<in> set knownSignatureFormats" "x \<in> set i" "HasPrefix b x" by blast
  then show ?thesis using typeForSignature_matched [of t i _ x b] assms by (simp add: typeForSignature_def)
next
  case False
  then have "\<forall>(t, i) \<in> set knownSignatureFormats. \<forall>x \<in> set i. \<not> HasPrefix b x" by blast
  then show ?thesis using typeForSignature_unmatched [of _ b] assms by (simp add: typeForSignature_def)
qed

section \<open>The round trip of tags\<close>

lemma tag_names: "visible_word (str ''object'')" "visible_word (str ''type'')" "visible_word (str ''tag'')" "visible_word (str ''tagger'')"
  by code_simp+

lemma tag_loop_header:
  assumes "visible_word (str n)" and "data \<noteq> []" "visible (last data)" "10 \<notin> set data"
    and "tag_field t (str n @ 32 # data) = Ok (t', b)"
  shows "tag_loop t (str n @ 32 # data @ 10 # r) = tag_loop t' r"
proof -
  note n = visible_wordD [OF assms(1)]
  have "ReadBytesNL ((str n @ 32 # data) @ 10 # r) = ((str n @ 32 # data) @ [10], r, False)"
    using n assms(4) by (intro ReadBytesNL_line) simp
  moreover have "TrimSpace ((str n @ 32 # data) @ [10]) = str n @ 32 # data"
    using n assms(2,3) by (intro TrimSpace_newline) simp_all
  ultimately show ?thesis by (subst tag_loop.simps) (simp add: assms(5))
qed

lemma tag_field_named:
  assumes "visible_word (str n)"
  shows "tag_field t (str n @ 32 # data) =
     (if n = ''object'' then Ok (t\<lparr>tag_Target := NewHash (unstr data)\<rparr>, False)
      else if n = ''type'' then rbind (ParseObjectType (unstr data)) (\<lambda>ty. Ok (t\<lparr>tag_TargetType := ty\<rparr>, True))
      else if n = ''tag'' then Ok (t\<lparr>tag_Name := unstr data\<rparr>, False)
      else if n = ''tagger'' then Ok (t\<lparr>tag_Tagger := Signature_Decode (tag_Tagger t) data\<rparr>, False)
      else Ok (t, False))"
  using SplitN2_pair [of 32 "str n" data] visible_wordD [OF assms] by (simp add: tag_field_def)

definition tag_ok :: "Tag \<Rightarrow> bool" where
  "tag_ok t \<longleftrightarrow>
     sha1_id (tag_Target t) \<and> ObjectType_Valid (tag_TargetType t) \<and> tag_TargetType t \<noteq> 5 \<and>
     tag_Name t \<noteq> [] \<and> visible (of_char (last (tag_Name t))) \<and> newline \<notin> set (tag_Name t) \<and>
     (let s = tag_Tagger t in sig_ok s \<and> newline \<notin> set (sig_Name s @ sig_Email s)) \<and>
     (let b = str (tag_Message t @ tag_PGPSignature t); n = length (tag_Message t)
      in if tag_PGPSignature t = [] then \<forall>k<length b. \<not> sig_start b k
         else sig_start b n \<and> (\<forall>j<length b. n < j \<longrightarrow> \<not> sig_start b j))"

lemma lastSig_unique:
  assumes "lastSig b (length b) (m, ty)" and "sig_start b n" and "\<And>j. sig_start b j \<Longrightarrow> j \<le> n"
  shows "m = Some n"
proof -
  have n: "n < length b" using assms(2) by (simp add: sig_start_def line_start_def)
  then obtain k where k: "m = Some k" "sig_start b k" "\<not> k < n" using assms(1,2) by (auto simp: lastSig_def split: option.splits)
  then show ?thesis using assms(3) [OF k(2)] by simp
qed

lemma tag_signed_split:
  assumes "tag_ok t"
  shows "fst (parseSignedBytes (str (tag_Message t @ tag_PGPSignature t))) =
    (if tag_PGPSignature t = [] then None else Some (length (tag_Message t)))"
proof -
  let ?b = "str (tag_Message t @ tag_PGPSignature t)" and ?n = "length (tag_Message t)"
  have lt: "sig_start ?b j \<Longrightarrow> j < length ?b" for j by (simp add: sig_start_def line_start_def)
  have last: "lastSig ?b (length ?b) (parseSignedBytes ?b)"
    unfolding parseSignedBytes_def by (rule parseSigned_loop_lastSig) (simp_all add: line_start_def lastSig_def)
  obtain m ty where m: "parseSignedBytes ?b = (m, ty)" by fastforce
  show ?thesis
  proof (cases "tag_PGPSignature t = []")
    case True
    then have "\<not> sig_start ?b k" for k using assms lt [of k] by (auto simp: tag_ok_def Let_def)
    then show ?thesis using last m True by (auto simp: lastSig_def split: option.splits)
  next
    case False
    then have start: "sig_start ?b ?n" "sig_start ?b j \<Longrightarrow> j \<le> ?n" for j using assms lt [of j] by (auto simp: tag_ok_def Let_def not_less)
    have "m = Some ?n" by (rule lastSig_unique [OF _ start]) (use last m in simp)
    then show ?thesis using m False by simp
  qed
qed

lemma tag_loop_object:
  "sha1_id h \<Longrightarrow> tag_loop t (str ''object'' @ 32 # str (ObjectID_String h) @ 10 # r) = tag_loop (t\<lparr>tag_Target := h\<rparr>) r"
  by (rule tag_loop_header [OF tag_names(1) hash_data, where b = False], assumption+)
    (unfold tag_field_named [OF tag_names(1)], simp add: NewHash_text)

lemma word_if: "visible_word (str s) \<Longrightarrow> visible_word (str t) \<Longrightarrow> visible_word (str (if b then s else t))"
  by simp

lemma type_words: "visible_word (ObjectType_Bytes ty)"
  unfolding ObjectType_Bytes_def ObjectType_String_def by (intro word_if) code_simp+

lemma tag_field_bare: "visible_word (str n) \<Longrightarrow> n \<in> {''object'', ''type'', ''tag'', ''tagger''} \<Longrightarrow> tag_field t (str n) = Panic"
  using SplitN2_name [of 32 "str n"] visible_wordD [of "str n"] by (auto simp: tag_field_def)

lemma tag_loop_type:
  assumes "ParseObjectType (ObjectType_String ty) = Ok ty"
  shows "tag_loop t (str ''type'' @ 32 # ObjectType_Bytes ty @ 10 # r) = tag_loop (t\<lparr>tag_TargetType := ty\<rparr>) r"
proof (rule tag_loop_header [OF tag_names(2)])
  show "ObjectType_Bytes ty \<noteq> []" "visible (last (ObjectType_Bytes ty))" "10 \<notin> set (ObjectType_Bytes ty)"
    using type_words [of ty] visible_wordD [of "ObjectType_Bytes ty"] by simp_all
  show "tag_field t (str ''type'' @ 32 # ObjectType_Bytes ty) = Ok (t\<lparr>tag_TargetType := ty\<rparr>, True)"
    unfolding tag_field_named [OF tag_names(2)] by (simp add: assms ObjectType_Bytes_def)
qed

lemma tag_loop_name:
  assumes "n \<noteq> []" "visible (of_char (last n))" "newline \<notin> set n"
  shows "tag_loop t (str ''tag'' @ 32 # str n @ 10 # r) = tag_loop (t\<lparr>tag_Name := n\<rparr>) r"
proof (rule tag_loop_header [OF tag_names(3)])
  show "str n \<noteq> []" "visible (last (str n))" "10 \<notin> set (str n)"
    using assms of_char_in_str [of newline n] by (simp_all add: str_def last_map newline_byte)
  show "tag_field t (str ''tag'' @ 32 # str n) = Ok (t\<lparr>tag_Name := n\<rparr>, False)"
    unfolding tag_field_named [OF tag_names(3)] by simp
qed

lemma tag_loop_tagger:
  assumes "sig_ok s" and "newline \<notin> set (sig_Name s @ sig_Email s)"
  shows "tag_loop t (str ''tagger'' @ 32 # Signature_Encode s @ 10 # r) = tag_loop (t\<lparr>tag_Tagger := stored_signature s\<rparr>) r"
  by (rule tag_loop_header [OF tag_names(4) Signature_Encode_line [OF assms(1,2)], where b = False])
    (unfold tag_field_named [OF tag_names(4)], simp add: Signature_Decode_Encode [OF assms(1)])

text \<open>
  C28. A tag with a name is decoded as it was encoded, with the hash of its object and the tagger as
  signatures come back, when the name and those of the tagger stay on one line, the name ends visibly, the target is a type
  of objects, and the signature starts at the last line of the message that begins with a known marker.
\<close>

theorem Tag_roundtrip:
  assumes "tag_ok t"
  shows "DecodeTag sha (Tag_Encode t newMemoryObject) =
    Ok (t\<lparr>tag_Hash := fst (MemoryObject_Hash sha (Tag_Encode t newMemoryObject)), tag_Tagger := stored_signature (tag_Tagger t)\<rparr>)"
proof -
  let ?h = "fst (MemoryObject_Hash sha (Tag_Encode t newMemoryObject))" and ?sg = "tag_Tagger t"
  let ?data = "str (tag_Message t @ tag_PGPSignature t)"
  have ok: "sha1_id (tag_Target t)" "sig_ok ?sg" "newline \<notin> set (sig_Name ?sg @ sig_Email ?sg)"
    "ParseObjectType (ObjectType_String (tag_TargetType t)) = Ok (tag_TargetType t)"
    using assms ObjectType_String_parses by (auto simp: tag_ok_def Let_def)
  have name: "tag_Name t \<noteq> []" "visible (of_char (last (tag_Name t)))" "newline \<notin> set (tag_Name t)"
    using assms by (simp_all add: tag_ok_def)
  let ?t = "zeroTag\<lparr>tag_Hash := ?h, tag_Target := tag_Target t, tag_TargetType := tag_TargetType t, tag_Name := tag_Name t, tag_Tagger := stored_signature ?sg\<rparr>"
  have enc: "MemoryObject_Reader (Tag_Encode t newMemoryObject) =
      str ''object'' @ 32 # str (ObjectID_String (tag_Target t)) @ 10 # str ''type'' @ 32 # ObjectType_Bytes (tag_TargetType t) @ 10 #
      str ''tag'' @ 32 # str (tag_Name t) @ 10 # str ''tagger'' @ 32 # Signature_Encode ?sg @ 10 # 10 # ?data"
    by (simp add: Tag_Encode_def Tag_encode_def tag_text_def MemoryObject_Reader_def MemoryObject_Write_def MemoryObject_SetType_def
        newMemoryObject_def newline_byte char_bytes Let_def)
  have "tag_loop (zeroTag\<lparr>tag_Hash := ?h\<rparr>) (MemoryObject_Reader (Tag_Encode t newMemoryObject)) = tag_loop ?t (10 # ?data)"
    unfolding enc tag_loop_object [OF ok(1)] tag_loop_type [OF ok(4)] tag_loop_name [OF name] tag_loop_tagger [OF ok(2,3)] ..
  also have "\<dots> = Ok (?t, Some ?data)"
    using ReadBytesNL_line [of "[]" ?data] by (subst tag_loop.simps) (simp add: TrimSpace_blank)
  finally have "tag_loop (zeroTag\<lparr>tag_Hash := ?h\<rparr>) (MemoryObject_Reader (Tag_Encode t newMemoryObject)) = Ok (?t, Some ?data)" .
  moreover have "mo_t (Tag_Encode t newMemoryObject) = TagObject"
    by (simp add: Tag_Encode_def Tag_encode_def MemoryObject_Write_def MemoryObject_SetType_def Let_def)
  ultimately show ?thesis using tag_signed_split [OF assms]
    by (cases t) (simp add: DecodeTag_def Tag_Decode_def zeroTag_def)
qed

definition sample_tag :: Tag where
  "sample_tag = \<lparr>tag_Hash = ZeroHash, tag_Name = ''v1'',
     tag_Tagger = \<lparr>sig_Name = ''C'', sig_Email = ''c@d'', sig_When = \<lparr>t_Unix = -8, t_nsec = 0, t_offset = 0\<rparr>\<rparr>,
     tag_Message = ''m'' @ [newline], tag_PGPSignature = ''-----BEGIN SSH SIGNATURE-----'' @ [newline],
     tag_TargetType = CommitObject, tag_Target = ZeroHash\<rparr>"

lemma no_later_start:
  "list_all (\<lambda>j. j \<le> n \<or> \<not> line_start b j) [0..<length b] \<Longrightarrow> \<forall>j<length b. n < j \<longrightarrow> \<not> sig_start b j"
  by (auto simp: list_all_length sig_start_def)

lemma sample_tag_ok: "tag_ok sample_tag"
proof -
  have "sig_ok (tag_Tagger sample_tag)" by (simp add: sample_tag_def sig_ok_def TrimSp_def of_char_def)
  moreover have "sha1_id (tag_Target sample_tag)" by (simp add: sample_tag_def sha1_id_ZeroHash)
  moreover have "sig_start (str (tag_Message sample_tag @ tag_PGPSignature sample_tag)) (length (tag_Message sample_tag))" by code_simp
  moreover have "list_all (\<lambda>j. j \<le> length (tag_Message sample_tag) \<or> \<not> line_start (str (tag_Message sample_tag @ tag_PGPSignature sample_tag)) j)
      [0..<length (str (tag_Message sample_tag @ tag_PGPSignature sample_tag))]" by code_simp
  then have "\<forall>j<length (str (tag_Message sample_tag @ tag_PGPSignature sample_tag)). length (tag_Message sample_tag) < j \<longrightarrow>
      \<not> sig_start (str (tag_Message sample_tag @ tag_PGPSignature sample_tag)) j"
    by (rule no_later_start)
  moreover have "tag_PGPSignature sample_tag \<noteq> []" by (simp add: sample_tag_def)
  moreover have "ObjectType_Valid (tag_TargetType sample_tag)" "tag_TargetType sample_tag \<noteq> 5" "tag_Name sample_tag \<noteq> []"
    "visible (of_char (last (tag_Name sample_tag)))" "newline \<notin> set (tag_Name sample_tag)"
    "newline \<notin> set (sig_Name (tag_Tagger sample_tag) @ sig_Email (tag_Tagger sample_tag))"
    by (simp_all add: sample_tag_def ObjectType_Valid_def object_types of_char_def)
  ultimately show ?thesis unfolding tag_ok_def Let_def by (simp del: str_append)
qed

theorem Tag_roundtrip_witness:
  "DecodeTag toy_sha (Tag_Encode sample_tag newMemoryObject) =
     Ok (sample_tag\<lparr>tag_Hash := fst (MemoryObject_Hash toy_sha (Tag_Encode sample_tag newMemoryObject)),
       tag_Tagger := \<lparr>sig_Name = ''C'', sig_Email = ''c@d'', sig_When = \<lparr>t_Unix = 0, t_nsec = 0, t_offset = 0\<rparr>\<rparr>\<rparr>)"
proof -
  have "stored_signature (tag_Tagger sample_tag) = \<lparr>sig_Name = ''C'', sig_Email = ''c@d'', sig_When = \<lparr>t_Unix = 0, t_nsec = 0, t_offset = 0\<rparr>\<rparr>"
    by code_simp
  with Tag_roundtrip [OF sample_tag_ok, of toy_sha] show ?thesis by simp
qed

text \<open>
  C29. Decoding panics on a tag without a name: the encoder writes the header with nothing after it,
  the decoder trims the space, and takes the second half of a split that has one half.
\<close>

theorem Tag_empty_name_panics:
  assumes "sha1_id (tag_Target t)" and "ObjectType_Valid (tag_TargetType t)" and "tag_TargetType t \<noteq> 5" and "tag_Name t = []"
  shows "DecodeTag sha (Tag_Encode t newMemoryObject) = Panic"
proof -
  let ?h = "fst (MemoryObject_Hash sha (Tag_Encode t newMemoryObject))"
  let ?t = "zeroTag\<lparr>tag_Hash := ?h, tag_Target := tag_Target t, tag_TargetType := tag_TargetType t\<rparr>"
  have ty: "ParseObjectType (ObjectType_String (tag_TargetType t)) = Ok (tag_TargetType t)" using assms(2,3) by (rule ObjectType_String_parses)
  obtain r where enc: "MemoryObject_Reader (Tag_Encode t newMemoryObject) =
      str ''object'' @ 32 # str (ObjectID_String (tag_Target t)) @ 10 # str ''type'' @ 32 # ObjectType_Bytes (tag_TargetType t) @ 10 #
      str ''tag '' @ 10 # r"
    by (simp add: Tag_Encode_def Tag_encode_def tag_text_def MemoryObject_Reader_def MemoryObject_Write_def MemoryObject_SetType_def
        newMemoryObject_def newline_byte char_bytes assms(4) Let_def)
  have "tag_loop (zeroTag\<lparr>tag_Hash := ?h\<rparr>) (MemoryObject_Reader (Tag_Encode t newMemoryObject)) = tag_loop ?t (str ''tag '' @ 10 # r)"
    unfolding enc tag_loop_object [OF assms(1)] tag_loop_type [OF ty] ..
  moreover have "TrimSpace (str ''tag '' @ [10]) = str ''tag''" by code_simp
  moreover have "tag_field ?t (str ''tag'') = Panic" by (rule tag_field_bare [OF tag_names(3)]) simp
  moreover have "ReadBytesNL (str ''tag '' @ 10 # r) = (str ''tag '' @ [10], r, False)" by (rule ReadBytesNL_line) (simp add: of_char_def)
  ultimately have "tag_loop (zeroTag\<lparr>tag_Hash := ?h\<rparr>) (MemoryObject_Reader (Tag_Encode t newMemoryObject)) = Panic"
    by (subst (asm) tag_loop.simps) simp
  moreover have "mo_t (Tag_Encode t newMemoryObject) = TagObject"
    by (simp add: Tag_Encode_def Tag_encode_def MemoryObject_Write_def MemoryObject_SetType_def Let_def)
  ultimately show ?thesis by (simp add: DecodeTag_def Tag_Decode_def)
qed

theorem Tag_empty_name_panics_witness: "DecodeTag toy_sha (Tag_Encode (sample_tag\<lparr>tag_Name := []\<rparr>) newMemoryObject) = Panic"
  by (rule Tag_empty_name_panics) (simp_all add: sample_tag_def sha1_id_ZeroHash ObjectType_Valid_def object_types)

end
