(* ===== verification/Filemode.thy ===== *)
theory Filemode
  imports GoStrings
begin

text \<open>
  Git file modes: \<^verbatim>\<open>plumbing/filemode/filemode.go\<close>. A \<^verbatim>\<open>FileMode\<close> and an \<^verbatim>\<open>os.FileMode\<close> are
  32-bit words; the bits of the latter are those of the standard library.
\<close>

type_synonym FileMode = u32

definition Empty :: FileMode where "Empty = 0"
definition Dir :: FileMode where "Dir = 0x4000"
definition Regular :: FileMode where "Regular = 0x81A4"
definition Deprecated :: FileMode where "Deprecated = 0x81B4"
definition Executable :: FileMode where "Executable = 0x81ED"
definition Symlink :: FileMode where "Symlink = 0xA000"
definition Submodule :: FileMode where "Submodule = 0xE000"

section \<open>Modes of the operating system\<close>

type_synonym osFileMode = u32

definition ModeDir :: osFileMode where "ModeDir = 0x80000000"
definition ModeTemporary :: osFileMode where "ModeTemporary = 0x10000000"
definition ModeSymlink :: osFileMode where "ModeSymlink = 0x08000000"
definition ModeCharDevice :: osFileMode where "ModeCharDevice = 0x00200000"
definition ModePerm :: osFileMode where "ModePerm = 0x1FF"

text \<open>\<^verbatim>\<open>os.ModeType\<close>: directory, symlink, named pipe, socket, device, character device, irregular.\<close>

definition ModeType :: osFileMode where "ModeType = 0x8F280000"

definition osFileMode_IsRegular :: "osFileMode \<Rightarrow> bool" where
  "osFileMode_IsRegular m \<longleftrightarrow> m AND ModeType = 0"

definition osFileMode_IsDir :: "osFileMode \<Rightarrow> bool" where
  "osFileMode_IsDir m \<longleftrightarrow> m AND ModeDir \<noteq> 0"

section \<open>Operations\<close>

definition FileMode_New :: "string \<Rightarrow> FileMode result" where
  "FileMode_New s = rbind (ParseUint s 8 32) (\<lambda>n. Ok (word_of_nat n))"

definition isSetCharDevice :: "osFileMode \<Rightarrow> bool" where
  "isSetCharDevice m \<longleftrightarrow> m AND ModeCharDevice \<noteq> 0"

definition isSetTemporary :: "osFileMode \<Rightarrow> bool" where
  "isSetTemporary m \<longleftrightarrow> m AND ModeTemporary \<noteq> 0"

definition isSetUserExecutable :: "osFileMode \<Rightarrow> bool" where
  "isSetUserExecutable m \<longleftrightarrow> m AND 0x40 \<noteq> 0"

definition isSetSymLink :: "osFileMode \<Rightarrow> bool" where
  "isSetSymLink m \<longleftrightarrow> m AND ModeSymlink \<noteq> 0"

abbreviation errNoGitMode :: error where
  "errNoGitMode \<equiv> Sentinel ''no equivalent git mode''"

definition NewFromOSFileMode :: "osFileMode \<Rightarrow> FileMode result" where
  "NewFromOSFileMode m =
     (if osFileMode_IsRegular m then
        (if isSetTemporary m then Error errNoGitMode
         else if isSetCharDevice m then Error errNoGitMode
         else if isSetUserExecutable m then Ok Executable
         else Ok Regular)
      else if osFileMode_IsDir m then Ok Dir
      else if isSetSymLink m then Ok Symlink
      else Error errNoGitMode)"

text \<open>The mode in little-endian order.\<close>

definition FileMode_Bytes :: "FileMode \<Rightarrow> bytes" where
  "FileMode_Bytes m = map (\<lambda>i. ucast (drop_bit (8 * i) m)) [0, 1, 2, 3]"

definition IsMalformed :: "FileMode \<Rightarrow> bool" where
  "IsMalformed m \<longleftrightarrow> m \<noteq> Dir \<and> m \<noteq> Regular \<and> m \<noteq> Deprecated \<and> m \<noteq> Executable \<and> m \<noteq> Symlink \<and> m \<noteq> Submodule"

text \<open>\<^verbatim>\<open>%07o\<close>: octal, filled with zeros to seven digits.\<close>

definition FileMode_String :: "FileMode \<Rightarrow> string" where
  "FileMode_String m = (let s = FormatNat 8 (unat m) in replicate (7 - length s) (CHR ''0'') @ s)"

definition FileMode_IsRegular :: "FileMode \<Rightarrow> bool" where
  "FileMode_IsRegular m \<longleftrightarrow> m = Regular \<or> m = Deprecated"

definition IsFile :: "FileMode \<Rightarrow> bool" where
  "IsFile m \<longleftrightarrow> m = Regular \<or> m = Deprecated \<or> m = Executable \<or> m = Symlink"

definition ToOSFileMode :: "FileMode \<Rightarrow> osFileMode result" where
  "ToOSFileMode m =
     (if m = Dir then Ok (ModePerm OR ModeDir)
      else if m = Submodule then Ok (ModePerm OR ModeDir)
      else if m = Regular then Ok 0x1A4
      else if m = Deprecated then Ok 0x1A4
      else if m = Executable then Ok 0x1ED
      else if m = Symlink then Ok (ModePerm OR ModeSymlink)
      else Error (Sentinel ''malformed mode''))"

lemmas mode_defs = Empty_def Dir_def Regular_def Deprecated_def Executable_def Symlink_def Submodule_def
  ModeDir_def ModeTemporary_def ModeSymlink_def ModeCharDevice_def ModePerm_def ModeType_def

section \<open>Properties\<close>

lemma parseUint_loop_zeros:
  "0 < base \<Longrightarrow> parseUint_loop base bits 0 (replicate k (CHR ''0'') @ s) = parseUint_loop base bits 0 s"
  by (induction k) (simp_all add: digit_value_def)

text \<open>
  The text of any mode, malformed ones included, parses back to the mode.
\<close>

theorem FileMode_text_roundtrip: "FileMode_New (FileMode_String m) = Ok m"
proof -
  have "unat m < 2 ^ 32" using unsigned_less [where 'a = nat, of m] by simp
  then show ?thesis
    using parseUint_loop_FormatNat [of 8 "unat m" 32]
    by (simp add: FileMode_New_def FileMode_String_def Let_def ParseUint_def parseUint_loop_zeros)
qed

text \<open>
  A mode has a file system equivalent exactly when it is not malformed, and the file that is
  created with it is read back as the same mode, except that deprecated files come back as regular
  files and submodules as directories.
\<close>

theorem FileMode_os_roundtrip:
  "(IsMalformed m \<longleftrightarrow> \<not> is_ok (ToOSFileMode m)) \<and>
   (\<forall>os. ToOSFileMode m = Ok os \<longrightarrow>
      NewFromOSFileMode os = Ok (if m = Deprecated then Regular else if m = Submodule then Dir else m))"
  by (auto simp: IsMalformed_def ToOSFileMode_def NewFromOSFileMode_def osFileMode_IsRegular_def
      osFileMode_IsDir_def isSetTemporary_def isSetCharDevice_def isSetUserExecutable_def isSetSymLink_def
      mode_defs split: if_splits)

theorem FileMode_os_roundtrip_witness:
  "ToOSFileMode Executable = Ok 0x1ED \<and> NewFromOSFileMode 0x1ED = Ok Executable"
proof -
  have os: "ToOSFileMode Executable = Ok 0x1ED" by (simp add: ToOSFileMode_def mode_defs)
  have "Executable \<noteq> Deprecated" "Executable \<noteq> Submodule" by (simp_all add: mode_defs)
  with os FileMode_os_roundtrip [of Executable] show ?thesis by simp
qed

end
