(* ===== verification/GoPaths.thy ===== *)
theory GoPaths
  imports GoStrings
begin

text \<open>
  What the program uses of the packages \<^verbatim>\<open>path\<close> and \<^verbatim>\<open>path/filepath\<close>, for the separator \<^verbatim>\<open>/\<close>.
\<close>

abbreviation slash :: char where "slash \<equiv> CHR ''/''"

text \<open>\<^verbatim>\<open>path.Clean\<close>: \<open>acc\<close> holds the elements kept so far, the last one first.\<close>

fun clean_parts :: "bool \<Rightarrow> string list \<Rightarrow> string list \<Rightarrow> string list" where
  "clean_parts rooted acc [] = rev acc"
| "clean_parts rooted acc (p # ps) =
     (if p = [] \<or> p = ''.'' then clean_parts rooted acc ps
      else if p = ''..''
      then (case acc of
              a # as \<Rightarrow> if a \<noteq> ''..'' then clean_parts rooted as ps else clean_parts rooted (p # acc) ps
            | [] \<Rightarrow> if rooted then clean_parts rooted [] ps else clean_parts rooted [p] ps)
      else clean_parts rooted (p # acc) ps)"

definition Clean :: "string \<Rightarrow> string" where
  "Clean s =
     (let rooted = (s \<noteq> [] \<and> hd s = slash);
          out = (if rooted then [slash] else []) @ JoinChar (clean_parts rooted [] (SplitChar s slash)) slash
      in if out = [] then ''.'' else out)"

text \<open>\<^verbatim>\<open>filepath.Join\<close>: empty elements in front are dropped.\<close>

definition PathJoin :: "string list \<Rightarrow> string" where
  "PathJoin elems =
     (case dropWhile (\<lambda>e. e = []) elems of
        [] \<Rightarrow> []
      | es \<Rightarrow> Clean (JoinChar es slash))"

text \<open>\<^verbatim>\<open>path.Split\<close>: the directory up to the last slash, with it, and the rest.\<close>

definition PathSplit :: "string \<Rightarrow> string \<times> string" where
  "PathSplit s =
     (let file = rev (takeWhile (\<lambda>c. c \<noteq> slash) (rev s)) in (take (length s - length file) s, file))"

text \<open>An element that cleaning leaves alone.\<close>

definition plain_elem :: "string \<Rightarrow> bool" where
  "plain_elem p \<longleftrightarrow> p \<noteq> [] \<and> p \<noteq> ''.'' \<and> p \<noteq> ''..'' \<and> slash \<notin> set p"

lemma clean_parts_plain: "\<forall>p \<in> set ps. plain_elem p \<Longrightarrow> clean_parts rooted acc ps = rev acc @ ps"
  by (induction ps arbitrary: acc) (simp_all add: plain_elem_def)

lemma JoinChar_eq_Nil: "\<forall>p \<in> set ps. p \<noteq> [] \<Longrightarrow> JoinChar ps c = [] \<longleftrightarrow> ps = []"
  by (induction ps c rule: JoinChar.induct) simp_all

lemma hd_JoinChar: "ps \<noteq> [] \<Longrightarrow> hd ps \<noteq> [] \<Longrightarrow> hd (JoinChar ps c) = hd (hd ps)"
  by (induction ps c rule: JoinChar.induct) simp_all

lemma Clean_plain:
  assumes "ps \<noteq> []" and "\<forall>p \<in> set ps. plain_elem p"
  shows "Clean (JoinChar ps slash) = JoinChar ps slash"
proof -
  have ne: "\<forall>p \<in> set ps. p \<noteq> []" using assms(2) by (simp add: plain_elem_def)
  have "plain_elem (hd ps)" using assms by (cases ps) simp_all
  then have "hd ps \<noteq> []" "slash \<notin> set (hd ps)" by (simp_all add: plain_elem_def)
  moreover from this have "hd (hd ps) \<noteq> slash" using hd_in_set [of "hd ps"] by metis
  ultimately have "hd (JoinChar ps slash) \<noteq> slash" using hd_JoinChar [OF assms(1)] by simp
  moreover have "SplitChar (JoinChar ps slash) slash = ps" using assms by (intro SplitChar_JoinChar) (simp_all add: plain_elem_def)
  ultimately show ?thesis using clean_parts_plain [OF assms(2)] JoinChar_eq_Nil [OF ne] assms(1) by (simp add: Clean_def)
qed

lemma PathJoin_plain:
  assumes "ps \<noteq> []" and "\<forall>p \<in> set ps. plain_elem p"
  shows "PathJoin ps = JoinChar ps slash"
  using Clean_plain [OF assms] assms by (cases ps) (simp_all add: PathJoin_def plain_elem_def)

lemma JoinChar_append: "ps \<noteq> [] \<Longrightarrow> qs \<noteq> [] \<Longrightarrow> JoinChar (ps @ qs) c = JoinChar ps c @ c # JoinChar qs c"
proof (induction ps c rule: JoinChar.induct)
  case (2 x c)
  then show ?case by (cases qs) simp_all
qed simp_all

lemma JoinChar_snoc: "ps \<noteq> [] \<Longrightarrow> JoinChar (ps @ [p]) c = JoinChar ps c @ c # p"
  using JoinChar_append [of ps "[p]" c] by simp

lemma PathJoin_step:
  assumes "\<forall>p \<in> set (ps @ [q]). plain_elem p"
  shows "PathJoin [JoinChar ps slash, q] = JoinChar (ps @ [q]) slash"
proof (cases "ps = []")
  case True
  then show ?thesis using assms Clean_plain [of "[q]"] by (simp add: PathJoin_def plain_elem_def)
next
  case False
  have "JoinChar ps slash \<noteq> []" using assms JoinChar_eq_Nil [of ps slash] False by (simp add: plain_elem_def)
  then show ?thesis using Clean_plain [OF _ assms] False by (simp add: PathJoin_def JoinChar_snoc)
qed

lemma PathSplit_snoc: "slash \<notin> set p \<Longrightarrow> PathSplit (d @ slash # p) = (d @ [slash], p)"
proof -
  assume p: "slash \<notin> set p"
  then have "takeWhile (\<lambda>c. c \<noteq> slash) (rev p @ slash # rev d) = rev p" by (subst takeWhile_append2) auto
  then show ?thesis by (simp add: PathSplit_def)
qed

lemma PathSplit_no: "slash \<notin> set p \<Longrightarrow> PathSplit p = ([], p)"
proof -
  assume p: "slash \<notin> set p"
  then have tw: "takeWhile (\<lambda>c. c \<noteq> slash) (rev p) = rev p" by (auto simp: takeWhile_eq_all_conv)
  show ?thesis unfolding PathSplit_def tw Let_def by simp
qed

end
