(* ===== verification/Trees.thy ===== *)
theory Trees
  imports Commit Filemode Storer GoPaths "HOL-Library.AList"
begin

text \<open>
  Tree objects and blobs: \<^verbatim>\<open>plumbing/object/tree.go\<close>, \<^verbatim>\<open>plumbing/object/blob.go\<close> and the parts of
  \<^verbatim>\<open>commit.go\<close> that lead to trees. A storage of objects is the function that looks an object up by type
  and id. The map of the entries of a tree by name is computed where the code memoizes it; the path
  cache of the tree that is searched is passed along.
\<close>

type_synonym objects = "ObjectType \<Rightarrow> ObjectID \<Rightarrow> MemoryObject result"

abbreviation ErrMaxTreeDepth :: error where "ErrMaxTreeDepth \<equiv> Sentinel ''ErrMaxTreeDepth''"
abbreviation ErrFileNotFound :: error where "ErrFileNotFound \<equiv> Sentinel ''ErrFileNotFound''"
abbreviation ErrDirectoryNotFound :: error where "ErrDirectoryNotFound \<equiv> Sentinel ''ErrDirectoryNotFound''"
abbreviation ErrEntryNotFound :: error where "ErrEntryNotFound \<equiv> Sentinel ''ErrEntryNotFound''"
abbreviation ErrEntriesNotSorted :: error where "ErrEntriesNotSorted \<equiv> Sentinel ''ErrEntriesNotSorted''"

definition maxTreeDepth :: nat where "maxTreeDepth = 1024"

section \<open>Blobs\<close>

record Blob =
  blob_Hash :: ObjectID
  blob_Size :: int
  blob_obj :: MemoryObject

definition DecodeBlob :: "digest \<Rightarrow> MemoryObject \<Rightarrow> Blob result" where
  "DecodeBlob sha ob =
     (if mo_t ob \<noteq> BlobObject then Error ErrUnsupportedObject
      else Ok \<lparr>blob_Hash = fst (MemoryObject_Hash sha ob), blob_Size = mo_sz ob, blob_obj = snd (MemoryObject_Hash sha ob)\<rparr>)"

definition GetBlob :: "digest \<Rightarrow> objects \<Rightarrow> ObjectID \<Rightarrow> Blob result" where
  "GetBlob sha s h = rbind (s BlobObject h) (DecodeBlob sha)"

definition Blob_Encode :: "Blob \<Rightarrow> MemoryObject \<Rightarrow> MemoryObject" where
  "Blob_Encode b ob = MemoryObject_Write (MemoryObject_SetType ob BlobObject) (MemoryObject_Reader (blob_obj b))"

section \<open>Trees\<close>

record TreeEntry =
  te_Name :: string
  te_Mode :: FileMode
  te_Hash :: ObjectID

record Tree =
  tree_Entries :: "TreeEntry list"
  tree_Hash :: ObjectID

text \<open>\<^verbatim>\<open>ReadString(delim)\<close>: with the delimiter, or what is left together with the end of the input.\<close>

definition ReadString :: "byte \<Rightarrow> reader \<Rightarrow> bytes \<times> reader \<times> bool" where
  "ReadString delim r =
     (case dropWhile (\<lambda>b. b \<noteq> delim) r of
        [] \<Rightarrow> (r, [], True)
      | d # r' \<Rightarrow> (takeWhile (\<lambda>b. b \<noteq> delim) r @ [d], r', False))"

lemma ReadString_found: "d \<notin> set s \<Longrightarrow> ReadString d (s @ d # r) = (s @ [d], r, False)"
proof -
  assume no: "d \<notin> set s"
  have "dropWhile (\<lambda>b. b \<noteq> d) (s @ d # r) = d # r" using no by (subst dropWhile_append2) auto
  moreover have "takeWhile (\<lambda>b. b \<noteq> d) (s @ d # r) = s" using no by (subst takeWhile_append2) auto
  ultimately show ?thesis by (simp add: ReadString_def)
qed

lemma ReadString_shrinks: "ReadString d r = (s, r', eof) \<Longrightarrow> length r' \<le> length r \<and> (\<not> eof \<longrightarrow> length r' < length r)"
proof -
  assume r: "ReadString d r = (s, r', eof)"
  have "length (dropWhile (\<lambda>b. b \<noteq> d) r) \<le> length r" by (rule length_dropWhile_le)
  with r show ?thesis by (auto simp: ReadString_def split: list.splits)
qed

lemma ReadFrom_shrinks: "ObjectID_ReadFrom h r = Ok (h', r') \<Longrightarrow> length r' \<le> length r"
  by (auto simp: ObjectID_ReadFrom_def readFull_def split: result.splits if_splits)

function tree_loop :: "reader \<Rightarrow> TreeEntry list \<Rightarrow> TreeEntry list result" where
  "tree_loop r entries =
     (let (s, r1, eof) = ReadString 32 r
      in if eof then Ok entries
         else case FileMode_New (unstr (take (length s - 1) s)) of
                Error e \<Rightarrow> Error e
              | Panic \<Rightarrow> Panic
              | Ok mode \<Rightarrow>
                  (let (name, r2, eof2) = ReadString 0 r1
                   in case ObjectID_ReadFrom ZeroHash r2 of
                        Error e \<Rightarrow> Error e
                      | Panic \<Rightarrow> Panic
                      | Ok (hash, r3) \<Rightarrow>
                          if name = [] then Panic
                          else tree_loop r3 (entries @ [\<lparr>te_Name = unstr (take (length name - 1) name), te_Mode = mode, te_Hash = hash\<rparr>])))"
  by pat_completeness auto
termination
proof (relation "measure (\<lambda>(r, es). length r)", goal_cases)
  case 1
  show ?case by simp
next
  case (2 r es x s y r1 eof mode z name w r2 eof2 v hash r3)
  then have "ReadString 32 r = (s, r1, eof)" "\<not> eof" "ReadString 0 r1 = (name, r2, eof2)" "ObjectID_ReadFrom ZeroHash r2 = Ok (hash, r3)" by auto
  with ReadString_shrinks [of 32 r] ReadString_shrinks [of 0 r1] ReadFrom_shrinks [of ZeroHash r2] show ?case by fastforce
qed

declare tree_loop.simps [simp del]

definition Tree_Decode :: "digest \<Rightarrow> Tree \<Rightarrow> MemoryObject \<Rightarrow> Tree result" where
  "Tree_Decode sha t ob =
     (if mo_t ob \<noteq> TreeObject then Error ErrUnsupportedObject
      else let t = t\<lparr>tree_Hash := fst (MemoryObject_Hash sha ob)\<rparr>
           in if mo_sz ob = 0 then Ok t
              else rbind (tree_loop (MemoryObject_Reader ob) []) (\<lambda>es. Ok (t\<lparr>tree_Entries := es\<rparr>)))"

definition DecodeTree :: "digest \<Rightarrow> MemoryObject \<Rightarrow> Tree result" where
  "DecodeTree sha ob = Tree_Decode sha \<lparr>tree_Entries = [], tree_Hash = ZeroHash\<rparr> ob"

definition GetTree :: "digest \<Rightarrow> objects \<Rightarrow> ObjectID \<Rightarrow> Tree result" where
  "GetTree sha s h = rbind (s TreeObject h) (DecodeTree sha)"

text \<open>The order of the entries: a directory is compared with a slash behind its name.\<close>

definition sortName :: "TreeEntry \<Rightarrow> bytes" where
  "sortName e = str (te_Name e @ (if te_Mode e = Dir then ''/'' else []))"

definition TreeEntrySorter_Less :: "TreeEntry list \<Rightarrow> nat \<Rightarrow> nat \<Rightarrow> bool" where
  "TreeEntrySorter_Less s i j \<longleftrightarrow> Compare (sortName (s ! i)) (sortName (s ! j)) < 0"

text \<open>\<^verbatim>\<open>sort.IsSorted\<close>: from the end, no element is less than the one before it.\<close>

fun IsSorted_loop :: "TreeEntry list \<Rightarrow> nat \<Rightarrow> bool" where
  "IsSorted_loop s 0 = True"
| "IsSorted_loop s (Suc i) = (if TreeEntrySorter_Less s (Suc i) i then False else IsSorted_loop s i)"

definition IsSorted :: "TreeEntry list \<Rightarrow> bool" where
  "IsSorted s = IsSorted_loop s (length s - 1)"

fun encodeEntries :: "TreeEntry list \<Rightarrow> MemoryObject \<Rightarrow> MemoryObject \<times> error option" where
  "encodeEntries [] ob = (ob, None)"
| "encodeEntries (e # es) ob =
     (if CHR 0x00 \<in> set (te_Name e) then (ob, Some (Sentinel (''malformed filename '' @ te_Name e)))
      else encodeEntries es
             (MemoryObject_Write (MemoryObject_Write (MemoryObject_Write ob (str (FormatNat 8 (unat (te_Mode e)) @ '' '' @ te_Name e))) [0])
               (ObjectID_WriteTo (te_Hash e))))"

definition Tree_Encode :: "Tree \<Rightarrow> MemoryObject \<Rightarrow> MemoryObject \<times> error option" where
  "Tree_Encode t ob0 =
     (let ob = MemoryObject_SetType ob0 TreeObject
      in if \<not> IsSorted (tree_Entries t) then (ob, Some ErrEntriesNotSorted) else encodeEntries (tree_Entries t) ob)"

section \<open>Looking up entries\<close>

definition buildMap :: "Tree \<Rightarrow> (string \<times> TreeEntry) list" where
  "buildMap t = foldl (\<lambda>m e. AList.update (te_Name e) e m) [] (tree_Entries t)"

definition Tree_entry :: "Tree \<Rightarrow> string \<Rightarrow> TreeEntry result" where
  "Tree_entry t baseName = (case map_of (buildMap t) baseName of None \<Rightarrow> Error ErrEntryNotFound | Some e \<Rightarrow> Ok e)"

definition Tree_dir :: "digest \<Rightarrow> objects \<Rightarrow> Tree \<Rightarrow> string \<Rightarrow> Tree result" where
  "Tree_dir sha s t baseName =
     (case Tree_entry t baseName of
        Ok entry \<Rightarrow> rbind (s TreeObject (te_Hash entry)) (\<lambda>ob. DecodeTree sha ob)
      | _ \<Rightarrow> Error ErrDirectoryNotFound)"

text \<open>The search of \<^verbatim>\<open>FindEntry\<close> for the longest cached path: \<open>i\<close> runs down to 2.\<close>

fun cachedStart :: "(string \<times> Tree) list \<Rightarrow> string list \<Rightarrow> nat \<Rightarrow> (Tree \<times> nat) option" where
  "cachedStart cache pathParts i =
     (if i > 1
      then (case map_of cache (PathJoin (take i pathParts)) of
              Some tree \<Rightarrow> Some (tree, i)
            | None \<Rightarrow> cachedStart cache pathParts (i - 1))
      else None)"

declare cachedStart.simps [simp del]

fun findDir :: "digest \<Rightarrow> objects \<Rightarrow> (string \<times> Tree) list \<Rightarrow> string \<Rightarrow> Tree \<Rightarrow> string list \<Rightarrow> TreeEntry result \<times> (string \<times> Tree) list" where
  "findDir sha s cache pathCurrent tree (p # q # ps) =
     (case Tree_dir sha s tree p of
        Ok tree' \<Rightarrow>
          let pathCurrent = PathJoin [pathCurrent, p]
          in findDir sha s (AList.update pathCurrent tree' cache) pathCurrent tree' (q # ps)
      | Error e \<Rightarrow> (Error e, cache)
      | Panic \<Rightarrow> (Panic, cache))"
| "findDir sha s cache pathCurrent tree [p] = (Tree_entry tree p, cache)"
| "findDir sha s cache pathCurrent tree [] = (Panic, cache)"

definition FindEntry :: "digest \<Rightarrow> objects \<Rightarrow> Tree \<Rightarrow> (string \<times> Tree) list \<Rightarrow> string \<Rightarrow> TreeEntry result \<times> (string \<times> Tree) list" where
  "FindEntry sha s t cache path =
     (let pathParts = SplitChar path slash
      in case cachedStart cache pathParts (length pathParts - 1) of
           Some (tree, i) \<Rightarrow> findDir sha s cache (PathJoin (take i pathParts)) tree (drop i pathParts)
         | None \<Rightarrow> findDir sha s cache [] t pathParts)"

definition Tree_Tree :: "digest \<Rightarrow> objects \<Rightarrow> Tree \<Rightarrow> (string \<times> Tree) list \<Rightarrow> string \<Rightarrow> Tree result \<times> (string \<times> Tree) list" where
  "Tree_Tree sha s t cache path =
     (case FindEntry sha s t cache path of
        (Ok e, cache') \<Rightarrow>
          (case GetTree sha s (te_Hash e) of
             Error err \<Rightarrow> (Error (if errors_Is err (Sentinel ''ErrObjectNotFound'') then ErrDirectoryNotFound else err), cache')
           | res \<Rightarrow> (res, cache'))
      | (Panic, cache') \<Rightarrow> (Panic, cache')
      | (Error err, cache') \<Rightarrow> (Error ErrDirectoryNotFound, cache'))"

record File =
  file_Name :: string
  file_Mode :: FileMode
  file_Blob :: Blob

definition Tree_File :: "digest \<Rightarrow> objects \<Rightarrow> Tree \<Rightarrow> (string \<times> Tree) list \<Rightarrow> string \<Rightarrow> File result \<times> (string \<times> Tree) list" where
  "Tree_File sha s t cache path =
     (case FindEntry sha s t cache path of
        (Ok e, cache') \<Rightarrow>
          (case GetBlob sha s (te_Hash e) of
             Error err \<Rightarrow> (Error (if errors_Is err (Sentinel ''ErrObjectNotFound'') then ErrFileNotFound else err), cache')
           | Panic \<Rightarrow> (Panic, cache')
           | Ok blob \<Rightarrow> (Ok \<lparr>file_Name = path, file_Mode = te_Mode e, file_Blob = blob\<rparr>, cache'))
      | (Panic, cache') \<Rightarrow> (Panic, cache')
      | (Error err, cache') \<Rightarrow> (Error ErrFileNotFound, cache'))"

definition Commit_Tree :: "digest \<Rightarrow> objects \<Rightarrow> Commit \<Rightarrow> Tree result" where
  "Commit_Tree sha s c = GetTree sha s (c_TreeHash c)"

section \<open>Encoding and decoding\<close>

definition entry_bytes :: "TreeEntry \<Rightarrow> bytes" where
  "entry_bytes e = str (FormatNat 8 (unat (te_Mode e))) @ 32 # str (te_Name e) @ 0 # ObjectID_WriteTo (te_Hash e)"

definition entry_ok :: "TreeEntry \<Rightarrow> bool" where
  "entry_ok e \<longleftrightarrow> CHR 0x00 \<notin> set (te_Name e) \<and> sha1_id (te_Hash e)"

lemma ReadFrom_WriteTo:
  assumes "sha1_id h"
  shows "ObjectID_ReadFrom ZeroHash (ObjectID_WriteTo h @ r) = Ok (h, r)"
proof -
  have h: "length (oid_hash h) = 32" "oid_format h = SHA1" "drop 20 (oid_hash h) = replicate 12 0"
    using assms by (auto simp: sha1_id_def wf_oid_def SHA256Size_def SHA1Size_def)
  have z: "length (oid_hash ZeroHash) = 32" "oid_format ZeroHash = SHA1" "drop 20 (oid_hash ZeroHash) = replicate 12 0"
    using sha1_id_ZeroHash by (auto simp: sha1_id_def wf_oid_def SHA256Size_def SHA1Size_def)
  have "take 20 (oid_hash h) @ replicate 12 0 = oid_hash h" using append_take_drop_id [of 20 "oid_hash h"] h(3) by simp
  then have "ZeroHash\<lparr>oid_hash := take 20 (oid_hash h) @ replicate 12 0\<rparr> = h" using h(2) z(2) by (cases h; cases ZeroHash) simp
  then show ?thesis using h z
    by (simp add: ObjectID_ReadFrom_def ObjectID_WriteTo_def ObjectID_Size_def SHA1Size_def readFull_def go_copy_def)
qed

lemma FileMode_New_FormatNat: "FileMode_New (FormatNat 8 (unat m)) = Ok m"
proof -
  have "unat m < 2 ^ 32" using unsigned_less [of m] by simp
  then have "ParseUint (FormatNat 8 (unat m)) 8 32 = Ok (unat m)" by (simp add: ParseUint_def parseUint_loop_FormatNat)
  then show ?thesis by (simp add: FileMode_New_def)
qed

lemma nul_byte: "(of_char (CHR 0x00) :: byte) = 0"
  by (simp add: of_char_def)

lemma tree_loop_entries: "\<forall>e \<in> set es. entry_ok e \<Longrightarrow> tree_loop (concat (map entry_bytes es)) acc = Ok (acc @ es)"
proof (induction es arbitrary: acc)
  case Nil
  show ?case by (subst tree_loop.simps) (simp add: ReadString_def)
next
  case (Cons e es)
  let ?r = "concat (map entry_bytes es)"
  have "c \<noteq> CHR '' ''" if "c \<in> set (FormatNat 8 (unat (te_Mode e)))" for c using FormatNat_chars [of 8 c] that by fastforce
  then have "32 \<notin> set (str (FormatNat 8 (unat (te_Mode e))))"
    using of_char_in_str [of "CHR '' ''" "FormatNat 8 (unat (te_Mode e))"] by (auto simp: char_bytes)
  note mode = ReadString_found [OF this, of "str (te_Name e) @ 0 # ObjectID_WriteTo (te_Hash e) @ ?r"]
  have "0 \<notin> set (str (te_Name e))" using Cons.prems of_char_in_str [of "CHR 0x00" "te_Name e"] by (simp add: entry_ok_def nul_byte)
  note name = ReadString_found [OF this, of "ObjectID_WriteTo (te_Hash e) @ ?r"]
  have "tree_loop (concat (map entry_bytes (e # es))) acc = tree_loop ?r (acc @ [e])"
    using mode name Cons.prems ReadFrom_WriteTo [of "te_Hash e" ?r]
    by (subst tree_loop.simps, cases e) (simp add: entry_bytes_def entry_ok_def FileMode_New_FormatNat)
  then show ?case using Cons by simp
qed

lemma encodeEntries_bytes:
  "\<forall>e \<in> set es. entry_ok e \<Longrightarrow> encodeEntries es (MemoryObject_Write ob b) = (MemoryObject_Write ob (b @ concat (map entry_bytes es)), None)"
proof (induction es arbitrary: b)
  case (Cons e es)
  have "encodeEntries (e # es) (MemoryObject_Write ob b) = encodeEntries es (MemoryObject_Write ob (b @ entry_bytes e))"
    using Cons.prems by (simp add: entry_ok_def entry_bytes_def MemoryObject_Write_def char_bytes Let_def)
  then show ?case using Cons by simp
qed simp

lemma IsSorted_loop_iff: "IsSorted_loop s n \<longleftrightarrow> (\<forall>i<n. \<not> TreeEntrySorter_Less s (Suc i) i)"
  by (induction n) (auto simp: less_Suc_eq)

lemma Compare_trans_le: "Compare a b \<le> 0 \<Longrightarrow> Compare b c \<le> 0 \<Longrightarrow> Compare a c \<le> 0"
proof (induction a b arbitrary: c rule: Compare.induct)
  case (4 x xs y ys)
  then show ?case by (cases c) (auto split: if_splits)
next
  case (2 y ys)
  then show ?case by (cases c) auto
qed auto

lemma IsSorted_iff: "IsSorted es \<longleftrightarrow> sorted_wrt (\<lambda>x y. Compare x y \<le> 0) (map sortName es)"
proof -
  have tr: "transp (\<lambda>x y :: bytes. Compare x y \<le> 0)" using Compare_trans_le by (auto simp: transp_def)
  have "Compare b a < 0 \<longleftrightarrow> \<not> Compare a b \<le> 0" for a b :: bytes using Compare_antisym [of b a] by linarith
  then have "IsSorted es \<longleftrightarrow> (\<forall>i. Suc i < length es \<longrightarrow> Compare (sortName (es ! i)) (sortName (es ! Suc i)) \<le> 0)"
    by (simp add: IsSorted_def IsSorted_loop_iff TreeEntrySorter_Less_def less_diff_conv)
  also have "\<dots> \<longleftrightarrow> sorted_wrt (\<lambda>x y. Compare x y \<le> 0) (map sortName es)"
    by (simp add: sorted_wrt_iff_nth_Suc_transp [OF tr])
  finally show ?thesis .
qed

lemma Tree_Encode_ok:
  assumes "sorted_wrt (\<lambda>x y. Compare x y \<le> 0) (map sortName (tree_Entries t))" and "\<forall>e \<in> set (tree_Entries t). entry_ok e"
  shows "Tree_Encode t newMemoryObject = (MemoryObject_Write (MemoryObject_SetType newMemoryObject TreeObject) (concat (map entry_bytes (tree_Entries t))), None)"
proof -
  have "MemoryObject_SetType newMemoryObject TreeObject = MemoryObject_Write (MemoryObject_SetType newMemoryObject TreeObject) []"
    by (simp add: MemoryObject_SetType_def MemoryObject_Write_def newMemoryObject_def Let_def)
  then show ?thesis using encodeEntries_bytes [OF assms(2), of "MemoryObject_SetType newMemoryObject TreeObject" "[]"] assms(1)
    by (simp add: Tree_Encode_def IsSorted_iff Let_def)
qed

lemma DecodeTree_Encode:
  assumes "sorted_wrt (\<lambda>x y. Compare x y \<le> 0) (map sortName (tree_Entries t))" and "\<forall>e \<in> set (tree_Entries t). entry_ok e"
    and "ob = fst (Tree_Encode t newMemoryObject)"
  shows "DecodeTree sha ob = Ok (t\<lparr>tree_Hash := fst (MemoryObject_Hash sha ob)\<rparr>)"
proof -
  have ob: "mo_t ob = TreeObject" "mo_cont ob = concat (map entry_bytes (tree_Entries t))" "mo_sz ob = int (length (mo_cont ob))"
    using Tree_Encode_ok [OF assms(1,2)] assms(3)
    by (simp_all add: MemoryObject_SetType_def MemoryObject_Write_def newMemoryObject_def Let_def)
  show ?thesis
  proof (cases "tree_Entries t")
    case Nil
    then show ?thesis using ob by (cases t) (simp add: DecodeTree_def Tree_Decode_def)
  next
    case (Cons e es)
    then have sz: "(mo_sz ob = 0) = False" using ob(2,3) by (simp add: entry_bytes_def)
    then show ?thesis using ob tree_loop_entries [OF assms(2), of "[]"]
      by (simp add: DecodeTree_def Tree_Decode_def MemoryObject_Reader_def Let_def del: length_concat concat_eq_Nil_conv)
  qed
qed

text \<open>
  C35. Encoding refuses exactly the trees whose entries are not in the order of git, where a
  directory is compared with a slash behind its name; it accepts the others when no name holds a
  NUL, and the object decodes to the same entries in the same order, with any mode.
\<close>

theorem Tree_roundtrip:
  assumes "\<forall>e \<in> set (tree_Entries t). CHR 0x00 \<notin> set (te_Name e) \<and> sha1_id (te_Hash e)"
  shows "case Tree_Encode t newMemoryObject of
      (ob, None) \<Rightarrow> sorted_wrt (\<lambda>x y. Compare x y \<le> 0) (map sortName (tree_Entries t)) \<and>
        DecodeTree sha ob = Ok (t\<lparr>tree_Hash := fst (MemoryObject_Hash sha ob)\<rparr>)
    | (ob, Some e) \<Rightarrow> e = ErrEntriesNotSorted \<and> mo_cont ob = [] \<and>
        \<not> sorted_wrt (\<lambda>x y. Compare x y \<le> 0) (map sortName (tree_Entries t))"
proof (cases "sorted_wrt (\<lambda>x y. Compare x y \<le> 0) (map sortName (tree_Entries t))")
  case True
  have ok: "\<forall>e \<in> set (tree_Entries t). entry_ok e" using assms by (simp add: entry_ok_def)
  from DecodeTree_Encode [OF True ok refl, of sha] Tree_Encode_ok [OF True ok] True show ?thesis by simp
next
  case False
  then show ?thesis
    by (simp add: Tree_Encode_def IsSorted_iff MemoryObject_SetType_def newMemoryObject_def Let_def)
qed

definition sample_tree :: Tree where
  "sample_tree = \<lparr>tree_Entries = [\<lparr>te_Name = ''a.c'', te_Mode = Regular, te_Hash = ZeroHash\<rparr>, \<lparr>te_Name = ''a'', te_Mode = Dir, te_Hash = ZeroHash\<rparr>],
     tree_Hash = ZeroHash\<rparr>"

theorem Tree_roundtrip_witness:
  "\<exists>ob. Tree_Encode sample_tree newMemoryObject = (ob, None) \<and>
     DecodeTree toy_sha ob = Ok (sample_tree\<lparr>tree_Hash := fst (MemoryObject_Hash toy_sha ob)\<rparr>)"
proof -
  have "\<forall>e \<in> set (tree_Entries sample_tree). CHR 0x00 \<notin> set (te_Name e) \<and> sha1_id (te_Hash e)"
    by (simp add: sample_tree_def sha1_id_ZeroHash)
  note this [THEN Tree_roundtrip, of toy_sha]
  moreover have "sorted_wrt (\<lambda>x y. Compare x y \<le> 0) (map sortName (tree_Entries sample_tree))"
    by (simp add: sample_tree_def sortName_def Dir_def Regular_def of_char_def)
  ultimately show ?thesis by (auto split: prod.splits option.splits)
qed

section \<open>Looking up paths\<close>

text \<open>The reference: one directory after the other, without a cache.\<close>

fun walkPath :: "digest \<Rightarrow> objects \<Rightarrow> Tree \<Rightarrow> string list \<Rightarrow> Tree result" where
  "walkPath sha s t [] = Ok t"
| "walkPath sha s t (p # ps) = rbind (Tree_dir sha s t p) (\<lambda>t'. walkPath sha s t' ps)"

definition lookupPath :: "digest \<Rightarrow> objects \<Rightarrow> Tree \<Rightarrow> string list \<Rightarrow> TreeEntry result" where
  "lookupPath sha s t ps = rbind (walkPath sha s t (butlast ps)) (\<lambda>t'. Tree_entry t' (last ps))"

definition cache_ok :: "digest \<Rightarrow> objects \<Rightarrow> Tree \<Rightarrow> (string \<times> Tree) list \<Rightarrow> bool" where
  "cache_ok sha s t cache \<longleftrightarrow>
     (\<forall>k tree. map_of cache k = Some tree \<longrightarrow>
        (\<exists>ps. ps \<noteq> [] \<and> (\<forall>p \<in> set ps. plain_elem p) \<and> k = JoinChar ps slash \<and> walkPath sha s t ps = Ok tree))"

lemma walkPath_append: "walkPath sha s t (ps @ qs) = rbind (walkPath sha s t ps) (\<lambda>t'. walkPath sha s t' qs)"
proof (induction ps arbitrary: t)
  case (Cons p ps)
  then show ?case by (cases "Tree_dir sha s t p") simp_all
qed simp

lemma JoinChar_inject:
  assumes "ps \<noteq> []" "qs \<noteq> []" "\<forall>p \<in> set (ps @ qs). plain_elem p" "JoinChar ps slash = JoinChar qs slash"
  shows "ps = qs"
proof -
  have "ps = SplitChar (JoinChar ps slash) slash"
    by (rule SplitChar_JoinChar [symmetric]) (use assms(1,3) in \<open>auto simp: plain_elem_def\<close>)
  also have "\<dots> = SplitChar (JoinChar qs slash) slash" by (rule arg_cong [OF assms(4)])
  also have "\<dots> = qs" by (rule SplitChar_JoinChar) (use assms(2,3) in \<open>auto simp: plain_elem_def\<close>)
  finally show ?thesis .
qed

lemma cachedStart_Some:
  "cachedStart cache ps i = Some (tree, j) \<Longrightarrow> 1 < j \<and> j \<le> i \<and> map_of cache (PathJoin (take j ps)) = Some tree"
proof (induction cache ps i rule: cachedStart.induct)
  case (1 cache ps i)
  show ?case
  proof (cases "i > 1 \<and> map_of cache (PathJoin (take i ps)) = None")
    case True
    with 1 have "1 < j \<and> j \<le> i - 1 \<and> map_of cache (PathJoin (take j ps)) = Some tree" by (simp add: cachedStart.simps [of cache ps i])
    then show ?thesis by linarith
  next
    case False
    with "1.prems" show ?thesis by (auto simp: cachedStart.simps [of cache ps i] split: if_splits option.splits)
  qed
qed

lemma cache_ok_update:
  assumes "cache_ok sha s t cache" and "ps \<noteq> [] \<and> (\<forall>p \<in> set ps. plain_elem p)" and "walkPath sha s t ps = Ok tree"
  shows "cache_ok sha s t (AList.update (JoinChar ps slash) tree cache)"
  unfolding cache_ok_def
proof (intro allI impI)
  fix k tr
  assume k: "map_of (AList.update (JoinChar ps slash) tree cache) k = Some tr"
  show "\<exists>ps. ps \<noteq> [] \<and> (\<forall>p \<in> set ps. plain_elem p) \<and> k = JoinChar ps slash \<and> walkPath sha s t ps = Ok tr"
  proof (cases "k = JoinChar ps slash")
    case True
    then have "tr = tree" using k by (simp add: update_conv')
    then show ?thesis using True assms(2,3) by blast
  next
    case False
    then have "map_of cache k = Some tr" using k by (simp add: update_conv')
    then show ?thesis using assms(1) unfolding cache_ok_def by blast
  qed
qed

lemma findDir_correct:
  assumes "ps \<noteq> []" and "\<forall>p \<in> set (done' @ ps). plain_elem p" and "cache_ok sha s t cache" and "walkPath sha s t done' = Ok tree"
  shows "fst (findDir sha s cache (JoinChar done' slash) tree ps) = lookupPath sha s t (done' @ ps) \<and>
    cache_ok sha s t (snd (findDir sha s cache (JoinChar done' slash) tree ps))"
  using assms
proof (induction ps arbitrary: done' cache tree rule: induct_list012)
  case (2 p)
  then show ?case by (simp add: lookupPath_def)
next
  case (3 p q ps)
  show ?case
  proof (cases "Tree_dir sha s tree p")
    case (Ok tree')
    have join: "PathJoin [JoinChar done' slash, p] = JoinChar (done' @ [p]) slash"
      using "3.prems"(2) by (intro PathJoin_step) auto
    have walk: "walkPath sha s t (done' @ [p]) = Ok tree'" using "3.prems"(4) Ok by (simp add: walkPath_append)
    have "cache_ok sha s t (AList.update (JoinChar (done' @ [p]) slash) tree' cache)"
      by (rule cache_ok_update [OF "3.prems"(3) _ walk]) (use "3.prems"(2) in auto)
    from "3.IH"(2) [OF _ _ this walk] "3.prems"(2) Ok join show ?thesis by (simp add: Let_def)
  qed (use "3.prems" in \<open>simp_all add: lookupPath_def walkPath_append butlast_append\<close>)
qed simp

lemma FindEntry_lookup:
  assumes "cache_ok sha s t cache" and "\<forall>p \<in> set (SplitChar path slash). plain_elem p"
  shows "fst (FindEntry sha s t cache path) = lookupPath sha s t (SplitChar path slash) \<and> cache_ok sha s t (snd (FindEntry sha s t cache path))"
proof (cases "cachedStart cache (SplitChar path slash) (length (SplitChar path slash) - 1)")
  case None
  with findDir_correct [of "SplitChar path slash" "[]" sha s t cache t] assms show ?thesis by (simp add: FindEntry_def)
next
  case (Some res)
  then obtain tree i where res: "res = (tree, i)" by (cases res)
  let ?ps = "SplitChar path slash" and ?d = "take i (SplitChar path slash)" and ?r = "drop i (SplitChar path slash)"
  note i = cachedStart_Some [OF Some [unfolded res]]
  have plain: "\<forall>p \<in> set ?d. plain_elem p" using assms(2) by (meson in_set_takeD)
  have ne: "?d \<noteq> []" "?r \<noteq> []" using i by auto
  have join: "PathJoin ?d = JoinChar ?d slash" by (rule PathJoin_plain [OF ne(1) plain])
  obtain qs where qs: "qs \<noteq> []" "\<forall>p \<in> set qs. plain_elem p" "JoinChar ?d slash = JoinChar qs slash" "walkPath sha s t qs = Ok tree"
    using assms(1) i unfolding cache_ok_def join by blast
  have "?d = qs" by (rule JoinChar_inject [OF ne(1) qs(1) _ qs(3)]) (use plain qs(2) in auto)
  with qs(4) have walk: "walkPath sha s t ?d = Ok tree" by simp
  from findDir_correct [OF ne(2) _ assms(1) walk] assms(2) show ?thesis
    unfolding FindEntry_def Let_def Some res option.case prod.case join append_take_drop_id by blast
qed

text \<open>
  C36. Looking an entry up with the cache of directories answers as going down the directories one
  by one, for every sequence of earlier searches, when the elements of the path and of the paths of
  the earlier searches are plain: none is empty, \<^verbatim>\<open>.\<close> or \<^verbatim>\<open>..\<close>.
\<close>

theorem FindEntry_cached:
  assumes "\<forall>path \<in> set (q # earlier). \<forall>p \<in> set (SplitChar path slash). plain_elem p"
  shows "fst (FindEntry sha s t (foldl (\<lambda>cache path. snd (FindEntry sha s t cache path)) [] earlier) q) =
    lookupPath sha s t (SplitChar q slash)"
proof -
  have "cache_ok sha s t (foldl (\<lambda>cache path. snd (FindEntry sha s t cache path)) cache earlier)" if "cache_ok sha s t cache" for cache
    using assms that FindEntry_lookup by (induction earlier arbitrary: cache) auto
  moreover have "cache_ok sha s t []" by (simp add: cache_ok_def)
  ultimately have "cache_ok sha s t (foldl (\<lambda>cache path. snd (FindEntry sha s t cache path)) [] earlier)" .
  with FindEntry_lookup assms show ?thesis by simp
qed

definition sample_storage :: objects where
  "sample_storage ty h =
     (if ty = TreeObject then Ok (fst (Tree_Encode sample_tree newMemoryObject)) else Error (Sentinel ''ErrObjectNotFound''))"

lemma sample_tree_decoded:
  "DecodeTree toy_sha (fst (Tree_Encode sample_tree newMemoryObject)) =
     Ok (sample_tree\<lparr>tree_Hash := fst (MemoryObject_Hash toy_sha (fst (Tree_Encode sample_tree newMemoryObject)))\<rparr>)"
  by (rule DecodeTree_Encode) (simp_all add: sample_tree_def sortName_def Dir_def Regular_def of_char_def entry_ok_def sha1_id_ZeroHash)

lemma sample_entries:
  "Tree_entry (sample_tree\<lparr>tree_Hash := h\<rparr>) ''a'' = Ok \<lparr>te_Name = ''a'', te_Mode = Dir, te_Hash = ZeroHash\<rparr>"
  "Tree_entry (sample_tree\<lparr>tree_Hash := h\<rparr>) ''a.c'' = Ok \<lparr>te_Name = ''a.c'', te_Mode = Regular, te_Hash = ZeroHash\<rparr>"
  "Tree_entry (sample_tree\<lparr>tree_Hash := h\<rparr>) ''.'' = Error ErrEntryNotFound"
  by (simp_all add: Tree_entry_def buildMap_def sample_tree_def)

lemma sample_tree_update: "sample_tree = sample_tree\<lparr>tree_Hash := ZeroHash\<rparr>"
  by (simp add: sample_tree_def)

lemma sample_dir:
  "Tree_dir toy_sha sample_storage (sample_tree\<lparr>tree_Hash := h\<rparr>) ''a'' =
     Ok (sample_tree\<lparr>tree_Hash := fst (MemoryObject_Hash toy_sha (fst (Tree_Encode sample_tree newMemoryObject)))\<rparr>)"
  by (simp add: Tree_dir_def sample_entries sample_storage_def sample_tree_decoded)

lemma sample_dir_root:
  "Tree_dir toy_sha sample_storage sample_tree ''a'' =
     Ok (sample_tree\<lparr>tree_Hash := fst (MemoryObject_Hash toy_sha (fst (Tree_Encode sample_tree newMemoryObject)))\<rparr>)"
  using sample_dir [of ZeroHash] by (simp only: sample_tree_update [symmetric])

theorem FindEntry_cached_witness:
  "fst (FindEntry toy_sha sample_storage sample_tree (snd (FindEntry toy_sha sample_storage sample_tree [] ''a/a/a'')) ''a/a/a.c'') =
     Ok \<lparr>te_Name = ''a.c'', te_Mode = Regular, te_Hash = ZeroHash\<rparr>"
proof -
  have "\<forall>path \<in> set (''a/a/a.c'' # [''a/a/a'']). \<forall>p \<in> set (SplitChar path slash). plain_elem p" by (simp add: plain_elem_def)
  from FindEntry_cached [OF this, of toy_sha sample_storage sample_tree] show ?thesis
    by (simp add: lookupPath_def sample_dir_root sample_dir sample_entries)
qed

text \<open>
  C37. With elements that cleaning removes, the cache changes the answer: a path that goes through
  \<^verbatim>\<open>.\<close> is not found at first, and found after a search in the directory before it.
\<close>

theorem FindEntry_cache_changes_answer:
  assumes "Tree_dir sha s t d = Ok t'" and "Tree_entry t' f = Ok e" and "Tree_entry t' ''.'' = Error ErrEntryNotFound"
    and "plain_elem d" and "plain_elem f"
  shows "fst (FindEntry sha s t [] (d @ ''/./'' @ f)) = Error ErrDirectoryNotFound \<and>
    fst (FindEntry sha s t (snd (FindEntry sha s t [] (d @ ''/'' @ f))) (d @ ''/./'' @ f)) = Ok e"
proof -
  have d: "slash \<notin> set d" "slash \<notin> set f" using assms(4,5) by (simp_all add: plain_elem_def)
  have parts: "SplitChar (d @ ''/./'' @ f) slash = [d, ''.'', f]" "SplitChar (d @ ''/'' @ f) slash = [d, f]"
    using d by (simp_all add: SplitChar_cons SplitChar_no)
  have clean: "PathJoin [d, ''.''] = d"
  proof -
    have "SplitChar (JoinChar [d, ''.''] slash) slash = [d, ''.'']" by (rule SplitChar_JoinChar) (use d in auto)
    moreover have "hd (JoinChar [d, ''.''] slash) \<noteq> slash" using d(1) assms(4) by (cases d) (auto simp: plain_elem_def)
    ultimately show ?thesis using assms(4) by (simp add: PathJoin_def Clean_def plain_elem_def)
  qed
  have join: "PathJoin [[], d] = d" using PathJoin_step [of "[]" d] assms(4) by simp
  have start: "cachedStart cache [d, ''.'', f] (Suc (Suc 0)) = map_option (\<lambda>tree. (tree, Suc (Suc 0))) (map_of cache d)" for cache
    by (simp add: cachedStart.simps [of cache "[d, ''.'', f]" "Suc (Suc 0)"] cachedStart.simps [of cache "[d, ''.'', f]" "Suc 0"] clean split: option.split)
  have start1: "cachedStart [] [d, f] (Suc 0) = None" by (simp add: cachedStart.simps)
  have "Tree_dir sha s t' ''.'' = Error ErrDirectoryNotFound" by (simp add: Tree_dir_def assms(3))
  then have "fst (FindEntry sha s t [] (d @ ''/./'' @ f)) = Error ErrDirectoryNotFound"
    unfolding FindEntry_def parts using start [of "[]"] assms(1) by (simp add: Let_def)
  moreover have "snd (FindEntry sha s t [] (d @ ''/'' @ f)) = [(d, t')]"
    unfolding FindEntry_def parts using start1 assms(1) join by (simp add: Let_def)
  moreover have "fst (FindEntry sha s t [(d, t')] (d @ ''/./'' @ f)) = Ok e"
    unfolding FindEntry_def parts using start [of "[(d, t')]"] assms(2) by (simp add: Let_def)
  ultimately show ?thesis by simp
qed

theorem FindEntry_cache_changes_answer_witness:
  "fst (FindEntry toy_sha sample_storage sample_tree [] ''a/./a.c'') = Error ErrDirectoryNotFound \<and>
   fst (FindEntry toy_sha sample_storage sample_tree (snd (FindEntry toy_sha sample_storage sample_tree [] ''a/a.c'')) ''a/./a.c'') =
     Ok \<lparr>te_Name = ''a.c'', te_Mode = Regular, te_Hash = ZeroHash\<rparr>"
  using FindEntry_cache_changes_answer [OF sample_dir_root sample_entries(2,3)] by (simp add: plain_elem_def)

end
