(* ===== verification/TreeWalk.thy ===== *)
theory TreeWalk
  imports Trees
begin

text \<open>
  Walking trees: \<^verbatim>\<open>TreeWalker\<close> of \<^verbatim>\<open>plumbing/object/tree.go\<close> and \<^verbatim>\<open>FileIter\<close> of \<^verbatim>\<open>plumbing/object/file.go\<close>. The
  stack of a walker is a list with its top first.
\<close>

section \<open>The walker\<close>

record TreeWalker =
  w_stack :: "(Tree \<times> nat) list"
  w_base :: string
  w_recursive :: bool
  w_seen :: "ObjectID set"

definition NewTreeWalker :: "Tree \<Rightarrow> bool \<Rightarrow> ObjectID set \<Rightarrow> TreeWalker" where
  "NewTreeWalker t recursive seen = \<lparr>w_stack = [(t, 0)], w_base = [], w_recursive = recursive, w_seen = seen\<rparr>"

definition simpleJoin :: "string \<Rightarrow> string \<Rightarrow> string" where
  "simpleJoin parent child = (if length parent > 0 then parent @ ''/'' @ child else child)"

function TreeWalker_Next :: "digest \<Rightarrow> objects \<Rightarrow> TreeWalker \<Rightarrow> (string \<times> TreeEntry) result \<times> TreeWalker" where
  "TreeWalker_Next sha s w =
     (case w_stack w of
        [] \<Rightarrow> (Error EOF, w)
      | (t, pos) # rest \<Rightarrow>
          if length rest > maxTreeDepth then (Error ErrMaxTreeDepth, w)
          else if pos \<ge> length (tree_Entries t)
          then TreeWalker_Next sha s (w\<lparr>w_stack := rest, w_base := TrimSuffix (fst (PathSplit (w_base w))) ''/''\<rparr>)
          else let entry = tree_Entries t ! pos; w1 = w\<lparr>w_stack := (t, pos + 1) # rest\<rparr>
               in if te_Hash entry \<in> w_seen w then TreeWalker_Next sha s w1
                  else case (if te_Mode entry = Dir then rbind (GetTree sha s (te_Hash entry)) (\<lambda>obj. Ok (Some obj)) else Ok None) of
                         Error e \<Rightarrow> (Error EOF, w1)
                       | Panic \<Rightarrow> (Panic, w1)
                       | Ok obj \<Rightarrow>
                           (let name = simpleJoin (w_base w) (te_Name entry)
                            in if \<not> w_recursive w then (Ok (name, entry), w1)
                               else case obj of
                                      None \<Rightarrow> (Ok (name, entry), w1)
                                    | Some tree \<Rightarrow>
                                        (Ok (name, entry), w1\<lparr>w_stack := (tree, 0) # (t, pos + 1) # rest,
                                                              w_base := simpleJoin (w_base w) (te_Name entry)\<rparr>)))"
  by pat_completeness auto
termination
  by (relation "measure (\<lambda>(sha, s, w). \<Sum>(t, pos)\<leftarrow>w_stack w. length (tree_Entries t) - pos + 1)") (auto split: if_splits)

declare TreeWalker_Next.simps [simp del]

definition TreeWalker_Close :: "TreeWalker \<Rightarrow> TreeWalker" where
  "TreeWalker_Close w = w\<lparr>w_stack := []\<rparr>"

text \<open>\<^verbatim>\<open>Tree\<close>: the tree most recently worked on, \<open>None\<close> for nil.\<close>

definition TreeWalker_Tree :: "TreeWalker \<Rightarrow> Tree option result" where
  "TreeWalker_Tree w =
     (case w_stack w of
        [] \<Rightarrow> Panic
      | (t, pos) # rest \<Rightarrow>
          if pos = 0 then (case rest of [] \<Rightarrow> Ok None | (t', pos') # _ \<Rightarrow> Ok (Some t')) else Ok (Some t))"

section \<open>Walking ends\<close>

text \<open>
  What is left to walk in a stack. No storage is assumed to be free of cycles: the depth limit
  bounds the unfolding.
\<close>

fun entries_weight :: "digest \<Rightarrow> objects \<Rightarrow> nat \<Rightarrow> TreeEntry list \<Rightarrow> nat" where
  "entries_weight sha s 0 es = length es"
| "entries_weight sha s (Suc d) es =
     (\<Sum>e\<leftarrow>es. Suc (case GetTree sha s (te_Hash e) of Ok t \<Rightarrow> Suc (entries_weight sha s d (tree_Entries t)) | _ \<Rightarrow> 0))"

fun stack_weight :: "digest \<Rightarrow> objects \<Rightarrow> (Tree \<times> nat) list \<Rightarrow> nat" where
  "stack_weight sha s [] = 0"
| "stack_weight sha s ((t, pos) # rest) =
     Suc (entries_weight sha s (Suc maxTreeDepth - length rest) (drop pos (tree_Entries t))) + stack_weight sha s rest"

lemma entries_weight_Cons: "entries_weight sha s d es < entries_weight sha s d (e # es)"
  by (cases d) simp_all

lemma entries_weight_push:
  "GetTree sha s (te_Hash e) = Ok t \<Longrightarrow>
    Suc (entries_weight sha s d (tree_Entries t)) + entries_weight sha s (Suc d) es < entries_weight sha s (Suc d) (e # es)"
  by simp

lemma TreeWalker_Next_weight:
  "TreeWalker_Next sha s w = (Ok x, w') \<Longrightarrow> stack_weight sha s (w_stack w') < stack_weight sha s (w_stack w)"
proof (induction sha s w rule: TreeWalker_Next.induct)
  case (1 sha s w)
  show ?case
  proof (cases "w_stack w")
    case Nil
    with "1.prems" show ?thesis by (subst (asm) TreeWalker_Next.simps) simp
  next
    case (Cons fr rest)
    obtain t pos where fr: "fr = (t, pos)" by (cases fr)
    note st = Cons [unfolded fr]
    let ?e = "tree_Entries t ! pos" and ?w1 = "w\<lparr>w_stack := (t, pos + 1) # rest\<rparr>"
    have small: "length rest \<le> maxTreeDepth" using "1.prems" st by (subst (asm) TreeWalker_Next.simps) (auto split: if_splits)
    show ?thesis
    proof (cases "pos < length (tree_Entries t)")
      case False
      with "1.IH"(1) [OF st] "1.prems" st small show ?thesis by (subst (asm) (2) TreeWalker_Next.simps) simp
    next
      case True
      then have es: "drop pos (tree_Entries t) = ?e # drop (Suc pos) (tree_Entries t)" by (rule Cons_nth_drop_Suc [symmetric])
      have less: "stack_weight sha s (w_stack ?w1) < stack_weight sha s (w_stack w)"
        using entries_weight_Cons [of sha s _ "drop (Suc pos) (tree_Entries t)" ?e] by (simp add: st es)
      have d: "Suc maxTreeDepth - length rest = Suc (maxTreeDepth - length rest)" using small by simp
      show ?thesis
      proof (cases "te_Hash ?e \<in> w_seen w")
        case seen: True
        have "TreeWalker_Next sha s w = TreeWalker_Next sha s ?w1"
          using True st small seen by (subst TreeWalker_Next.simps) (simp add: Let_def)
        with "1.IH"(2) [OF st _ _ _ refl refl seen] "1.prems" small True less show ?thesis by simp
      next
        case new: False
        have "stack_weight sha s (w_stack w') \<le> stack_weight sha s (w_stack ?w1) \<or>
          (\<exists>tree. GetTree sha s (te_Hash ?e) = Ok tree \<and> w_stack w' = (tree, 0) # (t, pos + 1) # rest)"
          using "1.prems" True st small new
          by (subst (asm) TreeWalker_Next.simps) (auto simp: Let_def not_less split: if_splits result.splits option.splits)
        then show ?thesis
        proof
          assume "\<exists>tree. GetTree sha s (te_Hash ?e) = Ok tree \<and> w_stack w' = (tree, 0) # (t, pos + 1) # rest"
          then obtain tree where tree: "GetTree sha s (te_Hash ?e) = Ok tree" "w_stack w' = (tree, 0) # (t, pos + 1) # rest" by blast
          from entries_weight_push [OF tree(1), of "maxTreeDepth - length rest" "drop (Suc pos) (tree_Entries t)"]
          show ?thesis by (simp add: tree(2) st es d del: entries_weight.simps)
        qed (use less in linarith)
      qed
    qed
  qed
qed

section \<open>Files\<close>

text \<open>The iterator over the files of a tree, with the walker as its state.\<close>

function FileIter_Next :: "digest \<Rightarrow> objects \<Rightarrow> TreeWalker \<Rightarrow> File result \<times> TreeWalker" where
  "FileIter_Next sha s w =
     (case TreeWalker_Next sha s w of
        (Error e, w') \<Rightarrow> (Error e, w')
      | (Panic, w') \<Rightarrow> (Panic, w')
      | (Ok (name, entry), w') \<Rightarrow>
          if te_Mode entry = Dir \<or> te_Mode entry = Submodule then FileIter_Next sha s w'
          else case GetBlob sha s (te_Hash entry) of
                 Error e \<Rightarrow> (Error e, w')
               | Panic \<Rightarrow> (Panic, w')
               | Ok blob \<Rightarrow> (Ok \<lparr>file_Name = name, file_Mode = te_Mode entry, file_Blob = blob\<rparr>, w'))"
  by pat_completeness auto
termination
  by (relation "measure (\<lambda>(sha, s, w). stack_weight sha s (w_stack w))") (auto dest!: TreeWalker_Next_weight [OF sym])

declare FileIter_Next.simps [simp del]

definition NewFileIter :: "Tree \<Rightarrow> TreeWalker" where
  "NewFileIter t = NewTreeWalker t True {}"

definition FileIter_ForEach where
  "FileIter_ForEach sha s it cb st = forEachIter (FileIter_Next sha s) TreeWalker_Close cb it st"

section \<open>What a walk lists\<close>

text \<open>A tree as the storage holds it, with its subtrees.\<close>

datatype node = Leaf TreeEntry | Branch TreeEntry "node list"

fun node_entry :: "node \<Rightarrow> TreeEntry" where
  "node_entry (Leaf e) = e"
| "node_entry (Branch e ns) = e"

fun represents :: "digest \<Rightarrow> objects \<Rightarrow> node \<Rightarrow> bool" where
  "represents sha s (Leaf e) \<longleftrightarrow> te_Mode e \<noteq> Dir \<and> te_Name e \<noteq> [] \<and> slash \<notin> set (te_Name e)"
| "represents sha s (Branch e ns) \<longleftrightarrow>
     te_Mode e = Dir \<and> te_Name e \<noteq> [] \<and> slash \<notin> set (te_Name e) \<and>
     (\<exists>t. GetTree sha s (te_Hash e) = Ok t \<and> tree_Entries t = map node_entry ns) \<and> (\<forall>n \<in> set ns. represents sha s n)"

fun height :: "node \<Rightarrow> nat" where
  "height (Leaf e) = 0"
| "height (Branch e ns) = Suc (Max (set (0 # map height ns)))"

text \<open>The entries with their paths, a directory before what it holds.\<close>

fun listing :: "string list \<Rightarrow> node \<Rightarrow> (string \<times> TreeEntry) list" where
  "listing dirs (Leaf e) = [(JoinChar (dirs @ [te_Name e]) slash, e)]"
| "listing dirs (Branch e ns) =
     (JoinChar (dirs @ [te_Name e]) slash, e) # concat (map (listing (dirs @ [te_Name e])) ns)"

text \<open>
  A list of entries, \<open>d\<close> directories deep, that leads to a directory the storage does not give: there,
  or in a subdirectory. What is listed before it is \<open>xs\<close>; the entries behind it may be any.
\<close>

inductive cut_listing ::
    "digest \<Rightarrow> objects \<Rightarrow> nat \<Rightarrow> string list \<Rightarrow> TreeEntry list \<Rightarrow> (string \<times> TreeEntry) list \<Rightarrow> bool" for sha s where
  here: "\<lbrakk>\<forall>n \<in> set ns. represents sha s n \<and> d + height n \<le> maxTreeDepth; d \<le> maxTreeDepth;
     te_Mode e = Dir; GetTree sha s (te_Hash e) = Error err\<rbrakk> \<Longrightarrow>
    cut_listing sha s d dirs (map node_entry ns @ e # es) (concat (map (listing dirs) ns))"
| inside: "\<lbrakk>\<forall>n \<in> set ns. represents sha s n \<and> d + height n \<le> maxTreeDepth; d \<le> maxTreeDepth;
     te_Mode e = Dir; te_Name e \<noteq> []; slash \<notin> set (te_Name e); GetTree sha s (te_Hash e) = Ok t;
     cut_listing sha s (Suc d) (dirs @ [te_Name e]) (tree_Entries t) xs\<rbrakk> \<Longrightarrow>
    cut_listing sha s d dirs (map node_entry ns @ e # es)
      (concat (map (listing dirs) ns) @ (JoinChar (dirs @ [te_Name e]) slash, e) # xs)"

lemma simpleJoin_JoinChar:
  "\<forall>d \<in> set dirs. d \<noteq> [] \<Longrightarrow> simpleJoin (JoinChar dirs slash) p = JoinChar (dirs @ [p]) slash"
  using JoinChar_eq_Nil [of dirs slash] by (cases "dirs = []") (simp_all add: simpleJoin_def JoinChar_snoc)

lemma base_up:
  assumes "slash \<notin> set p"
  shows "TrimSuffix (fst (PathSplit (JoinChar (dirs @ [p]) slash))) ''/'' = JoinChar dirs slash"
proof (cases "dirs = []")
  case True
  then show ?thesis using PathSplit_no [OF assms] by (simp add: TrimSuffix_def HasSuffix_def)
next
  case False
  then show ?thesis using PathSplit_snoc [OF assms] by (simp add: JoinChar_snoc TrimSuffix_def HasSuffix_def)
qed

lemma base_up_root: "TrimSuffix (fst (PathSplit [])) ''/'' = []"
  by (simp add: PathSplit_def TrimSuffix_def HasSuffix_def)

text \<open>\<open>stack_yields sha s dirs st xs\<close>: the stack \<open>st\<close> below the directories \<open>dirs\<close> is to list \<open>xs\<close>.\<close>

definition below :: "string list \<Rightarrow> (Tree \<times> nat) list \<Rightarrow> string list \<Rightarrow> bool" where
  "below up st dirs \<longleftrightarrow>
     (if st = [] then up = [] \<and> dirs = [] else \<exists>d. dirs = up @ [d] \<and> d \<noteq> [] \<and> slash \<notin> set d)"

inductive stack_yields :: "digest \<Rightarrow> objects \<Rightarrow> string list \<Rightarrow> (Tree \<times> nat) list \<Rightarrow> (string \<times> TreeEntry) list \<Rightarrow> bool" for sha s where
  empty: "stack_yields sha s [] [] []"
| frame: "\<lbrakk>stack_yields sha s up st xs; below up st dirs; drop pos (tree_Entries t) = map node_entry ns; length st \<le> maxTreeDepth;
     \<forall>n \<in> set ns. represents sha s n \<and> length st + height n \<le> maxTreeDepth\<rbrakk> \<Longrightarrow>
    stack_yields sha s dirs ((t, pos) # st) (concat (map (listing dirs) ns) @ xs)"
| stuck: "\<lbrakk>cut_listing sha s (length st) dirs (drop pos (tree_Entries t)) xs; \<forall>d \<in> set dirs. d \<noteq> []\<rbrakk> \<Longrightarrow>
    stack_yields sha s dirs ((t, pos) # st) xs"

definition walker_yields :: "digest \<Rightarrow> objects \<Rightarrow> TreeWalker \<Rightarrow> (string \<times> TreeEntry) list \<Rightarrow> bool" where
  "walker_yields sha s w xs \<longleftrightarrow>
     w_recursive w \<and> w_seen w = {} \<and> (\<exists>dirs. w_base w = JoinChar dirs slash \<and> stack_yields sha s dirs (w_stack w) xs)"

lemma stack_yields_dirs: "stack_yields sha s dirs st xs \<Longrightarrow> \<forall>d \<in> set dirs. d \<noteq> []"
  by (induction rule: stack_yields.induct) (auto simp: below_def split: if_splits)

lemma below_base: "below up st dirs \<Longrightarrow> TrimSuffix (fst (PathSplit (JoinChar dirs slash))) ''/'' = JoinChar up slash"
  using base_up base_up_root by (auto simp: below_def split: if_splits)

lemma drop_Cons_nth: "drop pos xs = x # ys \<Longrightarrow> pos < length xs \<and> xs ! pos = x \<and> drop (Suc pos) xs = ys"
  by (metis Cons_nth_drop_Suc drop_all list.inject list.distinct(1) not_le)

lemma pop_step:
  assumes "w_stack w = (t, pos) # st" and "length st \<le> maxTreeDepth" and "drop pos (tree_Entries t) = []"
  shows "TreeWalker_Next sha s w = TreeWalker_Next sha s (w\<lparr>w_stack := st, w_base := TrimSuffix (fst (PathSplit (w_base w))) ''/''\<rparr>)"
  using assms by (subst TreeWalker_Next.simps) simp

lemma entry_step:
  assumes "w_stack w = (t, pos) # st" and "length st \<le> maxTreeDepth" and "drop pos (tree_Entries t) = e # es"
    and "w_recursive w" "w_seen w = {}"
  shows "te_Mode e \<noteq> Dir \<Longrightarrow>
      TreeWalker_Next sha s w = (Ok (simpleJoin (w_base w) (te_Name e), e), w\<lparr>w_stack := (t, Suc pos) # st\<rparr>)"
    and "te_Mode e = Dir \<Longrightarrow> GetTree sha s (te_Hash e) = Ok tree \<Longrightarrow>
      TreeWalker_Next sha s w = (Ok (simpleJoin (w_base w) (te_Name e), e),
        w\<lparr>w_stack := (tree, 0) # (t, Suc pos) # st, w_base := simpleJoin (w_base w) (te_Name e)\<rparr>)"
    and "te_Mode e = Dir \<Longrightarrow> GetTree sha s (te_Hash e) = Error err \<Longrightarrow> fst (TreeWalker_Next sha s w) = Error EOF"
  using drop_Cons_nth [OF assms(3)] assms by (subst TreeWalker_Next.simps; simp add: Let_def)+

lemma height_child: "n \<in> set ns \<Longrightarrow> height n < height (Branch e ns)"
  by (simp add: less_Suc_eq_le Max_ge_iff)

text \<open>One entry that the storage holds: the walker yields it and is to list what is below it and then \<open>ys\<close>.\<close>

lemma node_step:
  assumes w: "w_stack w = (t, pos) # st" "w_base w = JoinChar dirs slash" "w_recursive w" "w_seen w = {}"
    and es: "drop pos (tree_Entries t) = node_entry n # es" and dirs: "\<forall>d \<in> set dirs. d \<noteq> []"
    and n: "represents sha s n" "length st \<le> maxTreeDepth" "length st + height n \<le> maxTreeDepth"
    and rest: "stack_yields sha s dirs ((t, Suc pos) # st) ys"
  shows "\<exists>x w' xs'. TreeWalker_Next sha s w = (Ok x, w') \<and> walker_yields sha s w' xs' \<and> listing dirs n @ ys = x # xs'"
proof (cases n)
  case (Leaf e)
  have "walker_yields sha s (w\<lparr>w_stack := (t, Suc pos) # st\<rparr>) ys" using rest w by (auto simp: walker_yields_def)
  with entry_step(1) [OF w(1) n(2) es w(3,4), of sha s] n(1) w(2) Leaf show ?thesis
    by (simp add: simpleJoin_JoinChar [OF dirs])
next
  case (Branch e ms)
  then obtain tree where tree: "GetTree sha s (te_Hash e) = Ok tree" "tree_Entries tree = map node_entry ms"
    and e: "te_Mode e = Dir" "te_Name e \<noteq> []" "slash \<notin> set (te_Name e)" "\<forall>m \<in> set ms. represents sha s m"
    using n(1) by auto
  have "Suc (length st) + height m \<le> maxTreeDepth" if "m \<in> set ms" for m
    using height_child [OF that, of e] n(3) Branch by auto
  then have "stack_yields sha s (dirs @ [te_Name e]) ((tree, 0) # (t, Suc pos) # st)
      (concat (map (listing (dirs @ [te_Name e])) ms) @ ys)"
    using tree(2) e n(3) Branch by (intro stack_yields.frame [OF rest]) (auto simp: below_def)
  then have "walker_yields sha s (w\<lparr>w_stack := (tree, 0) # (t, Suc pos) # st, w_base := JoinChar (dirs @ [te_Name e]) slash\<rparr>)
      (concat (map (listing (dirs @ [te_Name e])) ms) @ ys)"
    using w by (auto simp: walker_yields_def)
  with entry_step(2) [OF w(1) n(2) es w(3,4), of sha s tree] tree(1) e(1) w(2) Branch show ?thesis
    by (simp add: simpleJoin_JoinChar [OF dirs])
qed

text \<open>The entry that leads to the missing directory.\<close>

lemma cut_step:
  assumes w: "w_stack w = (t, pos) # st" "w_base w = JoinChar dirs slash" "w_recursive w" "w_seen w = {}"
    and dirs: "\<forall>d \<in> set dirs. d \<noteq> []" and cut: "cut_listing sha s (length st) dirs (drop pos (tree_Entries t)) xs"
  shows "case xs of [] \<Rightarrow> fst (TreeWalker_Next sha s w) = Error EOF
    | x # xs' \<Rightarrow> \<exists>w'. TreeWalker_Next sha s w = (Ok x, w') \<and> walker_yields sha s w' xs'"
proof -
  have first: ?thesis if es: "drop pos (tree_Entries t) = node_entry n # es" and xs: "xs = listing dirs n @ ys"
    and n: "represents sha s n" "length st \<le> maxTreeDepth" "length st + height n \<le> maxTreeDepth"
    and rest: "cut_listing sha s (length st) dirs es ys" for n es ys
  proof -
    have "drop (Suc pos) (tree_Entries t) = es" using drop_Cons_nth [OF es] by simp
    then have "stack_yields sha s dirs ((t, Suc pos) # st) ys" using rest dirs by (intro stack_yields.stuck) simp_all
    from node_step [OF w es dirs n this] show ?thesis by (auto simp: xs)
  qed
  from cut show ?thesis
  proof cases
    case (here ns e err es)
    show ?thesis
    proof (cases ns)
      case Nil
      then show ?thesis using entry_step(3) [OF w(1) here(4) _ w(3,4)] here by simp
    next
      case (Cons n ns')
      then show ?thesis using here
        by (intro first [of n "map node_entry ns' @ e # es" "concat (map (listing dirs) ns')"]) (auto intro: cut_listing.here)
    qed
  next
    case (inside ns e tree ys es)
    show ?thesis
    proof (cases ns)
      case Nil
      have "stack_yields sha s (dirs @ [te_Name e]) ((tree, 0) # (t, Suc pos) # st) ys"
        using inside dirs by (intro stack_yields.stuck) auto
      then have "walker_yields sha s (w\<lparr>w_stack := (tree, 0) # (t, Suc pos) # st, w_base := JoinChar (dirs @ [te_Name e]) slash\<rparr>) ys"
        using w by (auto simp: walker_yields_def)
      then show ?thesis using entry_step(2) [OF w(1) inside(4) _ w(3,4), of e es sha s tree] inside w(2) Nil
        by (simp add: simpleJoin_JoinChar [OF dirs])
    next
      case (Cons n ns')
      then show ?thesis using inside
        by (intro first [of n "map node_entry ns' @ e # es"
              "concat (map (listing dirs) ns') @ (JoinChar (dirs @ [te_Name e]) slash, e) # ys"])
          (auto intro: cut_listing.inside)
    qed
  qed
qed

lemma walker_yields_step:
  "stack_yields sha s dirs st xs \<Longrightarrow> w_stack w = st \<Longrightarrow> w_base w = JoinChar dirs slash \<Longrightarrow> w_recursive w \<Longrightarrow> w_seen w = {} \<Longrightarrow>
    (case xs of [] \<Rightarrow> fst (TreeWalker_Next sha s w) = Error EOF
     | x # xs' \<Rightarrow> \<exists>w'. TreeWalker_Next sha s w = (Ok x, w') \<and> walker_yields sha s w' xs')"
proof (induction arbitrary: w rule: stack_yields.induct)
  case empty
  then show ?case by (subst TreeWalker_Next.simps) simp
next
  case (stuck st dirs pos t xs)
  then show ?case by (intro cut_step) simp_all
next
  case (frame up st xs dirs pos t ns)
  have dirs: "\<forall>d \<in> set dirs. d \<noteq> []" using stack_yields_dirs [OF frame.hyps(1)] frame.hyps(2) by (auto simp: below_def split: if_splits)
  show ?case
  proof (cases ns)
    case Nil
    let ?w = "w\<lparr>w_stack := st, w_base := JoinChar up slash\<rparr>"
    have "TreeWalker_Next sha s w = TreeWalker_Next sha s ?w"
      using pop_step [OF frame.prems(1) frame.hyps(4), of sha s] frame.hyps(3) frame.prems(2) Nil below_base [OF frame.hyps(2)] by simp
    moreover have "case xs of [] \<Rightarrow> fst (TreeWalker_Next sha s ?w) = Error EOF
        | x # xs' \<Rightarrow> \<exists>w'. TreeWalker_Next sha s ?w = (Ok x, w') \<and> walker_yields sha s w' xs'"
      using frame.prems by (intro frame.IH) simp_all
    ultimately show ?thesis by (simp only: Nil list.map concat.simps append_Nil)
  next
    case (Cons n ns')
    have es: "drop pos (tree_Entries t) = node_entry n # map node_entry ns'" using frame.hyps(3) Cons by simp
    have "stack_yields sha s dirs ((t, Suc pos) # st) (concat (map (listing dirs) ns') @ xs)"
      using drop_Cons_nth [OF es] frame.hyps Cons by (intro stack_yields.frame) auto
    from node_step [OF frame.prems es dirs _ frame.hyps(4) _ this] frame.hyps(5) Cons show ?thesis by auto
  qed
qed

interpretation tree_walk: traversal "TreeWalker_Next sha s" TreeWalker_Close "walker_yields sha s" for sha s
proof
  show "fst (TreeWalker_Next sha s w) = Error EOF" if "walker_yields sha s w []" for w
    using that walker_yields_step [of sha s _ "w_stack w" "[]" w] by (auto simp: walker_yields_def)
  show "\<exists>w'. TreeWalker_Next sha s w = (Ok x, w') \<and> walker_yields sha s w' xs" if "walker_yields sha s w (x # xs)" for w x xs
    using that walker_yields_step [of sha s _ "w_stack w" "x # xs" w] by (auto simp: walker_yields_def)
qed

section \<open>Iterating over files\<close>

lemma FileIter_Next_weight:
  "FileIter_Next sha s w = (Ok f, w') \<Longrightarrow> stack_weight sha s (w_stack w') < stack_weight sha s (w_stack w)"
proof (induction sha s w rule: FileIter_Next.induct)
  case (1 sha s w)
  obtain r w1 where nx: "TreeWalker_Next sha s w = (r, w1)" by fastforce
  then obtain name e where r: "r = Ok (name, e)" using "1.prems" by (subst (asm) FileIter_Next.simps) (auto split: result.splits)
  note less = TreeWalker_Next_weight [OF nx [unfolded r]]
  show ?case
  proof (cases "te_Mode e = Dir \<or> te_Mode e = Submodule")
    case True
    then have "FileIter_Next sha s w = FileIter_Next sha s w1" by (subst FileIter_Next.simps) (simp add: nx r)
    then show ?thesis using "1.IH" [OF nx [symmetric] r refl True] "1.prems" less by simp
  next
    case False
    then have "w' = w1" using "1.prems" by (subst (asm) FileIter_Next.simps) (auto simp: nx r split: result.splits)
    then show ?thesis using less by simp
  qed
qed

text \<open>
  C39. Iterating over the files of a tree ends, in every storage: also when trees contain one another
  in a cycle, the depth limit of the walker bounds the walk.
\<close>

theorem FileIter_ForEach_ends: "\<exists>res. FileIter_ForEach sha s w cb st = Some res"
  unfolding FileIter_ForEach_def
proof (induction "stack_weight sha s (w_stack w)" arbitrary: w st rule: less_induct)
  case less
  obtain r w' where nx: "FileIter_Next sha s w = (r, w')" by fastforce
  note unfold = forEachIter.simps [of "FileIter_Next sha s" TreeWalker_Close cb w]
  show ?case
  proof (cases r)
    case (Ok f)
    obtain st' e where cb: "cb st f = (st', e)" by fastforce
    have "\<exists>res. forEachIter (FileIter_Next sha s) TreeWalker_Close cb w' st' = Some res"
      by (rule less [OF FileIter_Next_weight [OF nx [unfolded Ok]]])
    then show ?thesis by (cases e) (simp_all add: unfold nx Ok cb)
  qed (simp_all add: unfold nx)
qed

definition is_file :: "string \<times> TreeEntry \<Rightarrow> bool" where
  "is_file x \<longleftrightarrow> te_Mode (snd x) \<noteq> Dir \<and> te_Mode (snd x) \<noteq> Submodule"

definition open_file :: "digest \<Rightarrow> objects \<Rightarrow> string \<times> TreeEntry \<Rightarrow> File result" where
  "open_file sha s x =
     rbind (GetBlob sha s (te_Hash (snd x))) (\<lambda>blob. Ok \<lparr>file_Name = fst x, file_Mode = te_Mode (snd x), file_Blob = blob\<rparr>)"

definition files_yield :: "digest \<Rightarrow> objects \<Rightarrow> TreeWalker \<Rightarrow> File list \<Rightarrow> bool" where
  "files_yield sha s w fs \<longleftrightarrow> (\<exists>xs. walker_yields sha s w xs \<and> map (open_file sha s) (filter is_file xs) = map Ok fs)"

lemma FileIter_Next_walk:
  "walker_yields sha s w xs \<Longrightarrow> map (open_file sha s) (filter is_file xs) = map Ok fs \<Longrightarrow>
    (case fs of [] \<Rightarrow> fst (FileIter_Next sha s w) = Error EOF
     | f # fs' \<Rightarrow> \<exists>w'. FileIter_Next sha s w = (Ok f, w') \<and> files_yield sha s w' fs')"
proof (induction xs arbitrary: w)
  case Nil
  then show ?case using tree_walk.yields_Nil [of sha s w] by (subst FileIter_Next.simps) (auto split: prod.splits)
next
  case (Cons x xs)
  obtain w' where nx: "TreeWalker_Next sha s w = (Ok x, w')" and w': "walker_yields sha s w' xs"
    using tree_walk.yields_Cons [OF Cons.prems(1)] by blast
  obtain name e where x: "x = (name, e)" by (cases x)
  show ?case
  proof (cases "is_file x")
    case False
    then have eq: "FileIter_Next sha s w = FileIter_Next sha s w'" by (subst FileIter_Next.simps) (auto simp: nx x is_file_def)
    show ?thesis unfolding eq by (rule Cons.IH [OF w']) (use Cons.prems(2) False in simp)
  next
    case True
    then obtain f fs' where fs: "fs = f # fs'" "open_file sha s x = Ok f" "map (open_file sha s) (filter is_file xs) = map Ok fs'"
      using Cons.prems(2) by (cases fs) auto
    then have "FileIter_Next sha s w = (Ok f, w')"
      using True by (subst FileIter_Next.simps) (auto simp: nx x is_file_def open_file_def)
    then show ?thesis using fs w' by (auto simp: files_yield_def)
  qed
qed

interpretation file_walk: traversal "FileIter_Next sha s" TreeWalker_Close "files_yield sha s" for sha s
proof
  fix sha s w f fs
  show "fst (FileIter_Next sha s w) = Error EOF" if "files_yield sha s w []"
    using that FileIter_Next_walk [of sha s w _ "[]"] by (auto simp: files_yield_def)
  assume "files_yield sha s w (f # fs)"
  then obtain xs where "walker_yields sha s w xs" "map (open_file sha s) (filter is_file xs) = map Ok (f # fs)"
    unfolding files_yield_def by blast
  from FileIter_Next_walk [OF this] show "\<exists>w'. FileIter_Next sha s w = (Ok f, w') \<and> files_yield sha s w' fs" by simp
qed

text \<open>
  C38. Iterating over the files of a tree that the storage holds with all its subtrees calls the
  callback for each file in it, with its path and its blob, in the order of the entries with a
  directory in place, until the callback stops it; directories and submodules are passed over.
\<close>

theorem FileIter_ForEach_files:
  assumes "tree_Entries t = map node_entry ns" and "\<forall>n \<in> set ns. represents sha s n \<and> height n \<le> maxTreeDepth"
    and "map (open_file sha s) (filter is_file (concat (map (listing []) ns))) = map Ok fs"
  shows "\<exists>it. FileIter_ForEach sha s (NewFileIter t) cb st = Some (fst (visit cb st fs), it, snd (visit cb st fs))"
proof -
  have "stack_yields sha s [] [(t, 0)] (concat (map (listing []) ns) @ [])"
    using assms(1,2) by (intro stack_yields.frame [OF stack_yields.empty]) (simp_all add: below_def)
  then have "walker_yields sha s (NewFileIter t) (concat (map (listing []) ns))"
    by (auto simp: walker_yields_def NewFileIter_def NewTreeWalker_def intro: exI [of _ "[]"])
  with assms(3) have "files_yield sha s (NewFileIter t) fs" by (auto simp: files_yield_def)
  from file_walk.forEach_traverses [OF this, of cb st] show ?thesis unfolding FileIter_ForEach_def by auto
qed

definition inner_tree :: Tree where
  "inner_tree = \<lparr>tree_Entries = [\<lparr>te_Name = ''f'', te_Mode = Regular, te_Hash = ZeroHash\<rparr>], tree_Hash = ZeroHash\<rparr>"

definition nested_storage :: objects where
  "nested_storage ty h =
     (if ty = TreeObject then Ok (fst (Tree_Encode inner_tree newMemoryObject)) else Ok (MemoryObject_SetType newMemoryObject BlobObject))"

definition outer_entry :: TreeEntry where
  "outer_entry = \<lparr>te_Name = ''d'', te_Mode = Dir, te_Hash = ZeroHash\<rparr>"

lemma inner_tree_stored: "\<exists>t. GetTree toy_sha nested_storage h = Ok t \<and> tree_Entries t = tree_Entries inner_tree"
proof -
  have "DecodeTree toy_sha (fst (Tree_Encode inner_tree newMemoryObject)) =
      Ok (inner_tree\<lparr>tree_Hash := fst (MemoryObject_Hash toy_sha (fst (Tree_Encode inner_tree newMemoryObject)))\<rparr>)"
    by (rule DecodeTree_Encode) (simp_all add: inner_tree_def entry_ok_def sha1_id_ZeroHash)
  then show ?thesis by (simp add: GetTree_def nested_storage_def)
qed

theorem FileIter_ForEach_files_witness:
  "\<exists>it. FileIter_ForEach toy_sha nested_storage (NewFileIter \<lparr>tree_Entries = [outer_entry], tree_Hash = ZeroHash\<rparr>)
     (\<lambda>st f. (st @ [file_Name f], Ok ())) [] = Some ([''d/f''], it, Ok ())"
proof -
  let ?f = "\<lparr>te_Name = ''f'', te_Mode = Regular, te_Hash = ZeroHash\<rparr>"
  obtain b where b: "GetBlob toy_sha nested_storage ZeroHash = Ok b"
    by (simp add: GetBlob_def DecodeBlob_def nested_storage_def MemoryObject_SetType_def object_types)
  have "represents toy_sha nested_storage (Branch outer_entry [Leaf ?f])"
    using inner_tree_stored by (simp add: outer_entry_def inner_tree_def Dir_def Regular_def)
  then show ?thesis
    using FileIter_ForEach_files [of "\<lparr>tree_Entries = [outer_entry], tree_Hash = ZeroHash\<rparr>" "[Branch outer_entry [Leaf ?f]]" toy_sha nested_storage
        "[\<lparr>file_Name = ''d/f'', file_Mode = Regular, file_Blob = b\<rparr>]" "\<lambda>st f. (st @ [file_Name f], Ok ())" "[]"] b
    by (simp add: maxTreeDepth_def outer_entry_def is_file_def open_file_def Dir_def Regular_def Submodule_def)
qed

text \<open>
  C40. A directory that the storage does not give, at the root or inside of directories that it holds,
  ends the iteration over the files as the end of the tree does: the callback is called for the files
  listed before that directory, in their order, the result is without an error when no callback
  stops it, and nothing behind the directory is visited, whatever it is. The comment on the walker says
  that such objects are skipped.
\<close>

theorem FileIter_missing_directory_ends:
  assumes "cut_listing sha s 0 [] (tree_Entries t) xs"
    and "map (open_file sha s) (filter is_file xs) = map Ok fs"
  shows "\<exists>it. FileIter_ForEach sha s (NewFileIter t) cb st = Some (fst (visit cb st fs), it, snd (visit cb st fs))"
proof -
  have "stack_yields sha s [] [(t, 0)] xs" using assms(1) by (intro stack_yields.stuck) simp_all
  then have "walker_yields sha s (NewFileIter t) xs"
    by (auto simp: walker_yields_def NewFileIter_def NewTreeWalker_def intro: exI [of _ "[]"])
  with assms(2) have "files_yield sha s (NewFileIter t) fs" by (auto simp: files_yield_def)
  from file_walk.forEach_traverses [OF this, of cb st] show ?thesis unfolding FileIter_ForEach_def by auto
qed

abbreviation plain_file :: "string \<Rightarrow> TreeEntry" where
  "plain_file name \<equiv> \<lparr>te_Name = name, te_Mode = Regular, te_Hash = ZeroHash\<rparr>"

definition broken_inner :: Tree where
  "broken_inner = \<lparr>tree_Entries = [plain_file ''f'', \<lparr>te_Name = ''m'', te_Mode = Dir, te_Hash = NewHash ''01''\<rparr>, plain_file ''z''],
     tree_Hash = ZeroHash\<rparr>"

definition broken_storage :: objects where
  "broken_storage ty h =
     (if ty \<noteq> TreeObject then Ok (MemoryObject_SetType newMemoryObject BlobObject)
      else if h = ZeroHash then Ok (fst (Tree_Encode broken_inner newMemoryObject)) else Error EOF)"

lemma broken_inner_stored:
  "\<exists>t. GetTree toy_sha broken_storage ZeroHash = Ok t \<and> tree_Entries t = tree_Entries broken_inner"
proof -
  have "sha1_id (NewHash ''01'')" by code_simp
  moreover have "sorted_wrt (\<lambda>x y. Compare x y \<le> 0) (map sortName (tree_Entries broken_inner))" by code_simp
  ultimately have "DecodeTree toy_sha (fst (Tree_Encode broken_inner newMemoryObject)) =
      Ok (broken_inner\<lparr>tree_Hash := fst (MemoryObject_Hash toy_sha (fst (Tree_Encode broken_inner newMemoryObject)))\<rparr>)"
    by (intro DecodeTree_Encode) (simp_all add: broken_inner_def entry_ok_def sha1_id_ZeroHash)
  then show ?thesis by (simp add: GetTree_def broken_storage_def)
qed

theorem FileIter_missing_directory_ends_witness:
  "\<exists>it. FileIter_ForEach toy_sha broken_storage
       (NewFileIter \<lparr>tree_Entries = [plain_file ''a'', outer_entry, plain_file ''q''], tree_Hash = ZeroHash\<rparr>)
       (\<lambda>st f. (st @ [file_Name f], Ok ())) [] = Some ([''a'', ''d/f''], it, Ok ())"
proof -
  let ?t = "\<lparr>tree_Entries = [plain_file ''a'', outer_entry, plain_file ''q''], tree_Hash = ZeroHash\<rparr>"
  let ?xs = "[(''a'', plain_file ''a''), (''d'', outer_entry), (''d/f'', plain_file ''f'')]"
  obtain b where b: "GetBlob toy_sha broken_storage ZeroHash = Ok b"
    by (simp add: GetBlob_def DecodeBlob_def broken_storage_def MemoryObject_SetType_def object_types)
  obtain t where t: "GetTree toy_sha broken_storage ZeroHash = Ok t" "tree_Entries t = tree_Entries broken_inner"
    using broken_inner_stored by blast
  have "NewHash ''01'' \<noteq> ZeroHash" by code_simp
  then have err: "GetTree toy_sha broken_storage (NewHash ''01'') = Error EOF" by (simp add: GetTree_def broken_storage_def)
  have "cut_listing toy_sha broken_storage (Suc 0) [''d''] (tree_Entries t) [(''d/f'', plain_file ''f'')]"
    using cut_listing.here [of "[Leaf (plain_file ''f'')]" toy_sha broken_storage "Suc 0"
        "\<lparr>te_Name = ''m'', te_Mode = Dir, te_Hash = NewHash ''01''\<rparr>" EOF "[''d'']" "[plain_file ''z'']"] err
    by (simp add: t(2) broken_inner_def maxTreeDepth_def Dir_def Regular_def)
  then have "cut_listing toy_sha broken_storage 0 [] (tree_Entries ?t) ?xs"
    using cut_listing.inside [of "[Leaf (plain_file ''a'')]" toy_sha broken_storage 0 outer_entry t "[]"
        "[(''d/f'', plain_file ''f'')]" "[plain_file ''q'']"] t(1)
    by (simp add: outer_entry_def maxTreeDepth_def Dir_def Regular_def)
  from FileIter_missing_directory_ends [OF this, of "[\<lparr>file_Name = ''a'', file_Mode = Regular, file_Blob = b\<rparr>,
      \<lparr>file_Name = ''d/f'', file_Mode = Regular, file_Blob = b\<rparr>]" "\<lambda>st f. (st @ [file_Name f], Ok ())" "[]"] b
  show ?thesis by (simp add: outer_entry_def is_file_def open_file_def Dir_def Regular_def Submodule_def)
qed

end
