(* ===== verification/CommitWalk.thy ===== *)
theory CommitWalk
  imports Trees
begin

text \<open>
  Walking the history of commits: \<^verbatim>\<open>plumbing/object/commit_walker.go\<close>, \<^verbatim>\<open>commit_walker_bfs.go\<close>,
  \<^verbatim>\<open>commit_walker_bfs_filtered.go\<close> and \<^verbatim>\<open>commit_walker_limit.go\<close>. A map from hashes to true is the set of its
  keys, and a nil map is the empty set.
\<close>

section \<open>Iterators over commits\<close>

text \<open>\<^verbatim>\<open>forEachCommit\<close>: as \<^verbatim>\<open>ForEach\<close> of the other iterators, but an error that wraps the end of the input ends it too.\<close>

partial_function (option) forEachCommit ::
    "('i \<Rightarrow> Commit result \<times> 'i) \<Rightarrow> ('st \<Rightarrow> Commit \<Rightarrow> 'st \<times> unit result) \<Rightarrow> 'i \<Rightarrow> 'st \<Rightarrow> ('st \<times> 'i \<times> unit result) option" where
  "forEachCommit nxt cb it st =
     (case nxt it of
        (Error e, it') \<Rightarrow> Some (st, it', if errors_Is e EOF then Ok () else Error e)
      | (Panic, it') \<Rightarrow> Some (st, it', Panic)
      | (Ok c, it') \<Rightarrow>
          (case cb st c of
             (st', Error e) \<Rightarrow> Some (st', it', if e = ErrStop then Ok () else Error e)
           | (st', Panic) \<Rightarrow> Some (st', it', Panic)
           | (st', Ok u) \<Rightarrow> forEachCommit nxt cb it' st'))"

definition storerCommitIter_Next :: "digest \<Rightarrow> objects \<Rightarrow> EncodedObjectLookupIter \<Rightarrow> Commit result \<times> EncodedObjectLookupIter" where
  "storerCommitIter_Next sha s it =
     (case EncodedObjectLookupIter_Next s it of
        (Ok obj, it') \<Rightarrow> (DecodeCommit sha obj, it')
      | (Error e, it') \<Rightarrow> (Error e, it')
      | (Panic, it') \<Rightarrow> (Panic, it'))"

text \<open>\<^verbatim>\<open>Parents().ForEach\<close> with a callback that collects: the parents before an error are kept.\<close>

fun parentsForEach :: "digest \<Rightarrow> objects \<Rightarrow> ObjectID list \<Rightarrow> Commit list \<Rightarrow> Commit list \<times> unit result" where
  "parentsForEach sha s [] acc = (acc, Ok ())"
| "parentsForEach sha s (h # hs) acc =
     (case s CommitObject h of
        Error e \<Rightarrow> (acc, if e = EOF then Ok () else Error e)
      | Panic \<Rightarrow> (acc, Panic)
      | Ok ob \<Rightarrow>
          (case DecodeCommit sha ob of
             Error e \<Rightarrow> (acc, if e = ErrStop then Ok () else Error e)
           | Panic \<Rightarrow> (acc, Panic)
           | Ok p \<Rightarrow> parentsForEach sha s hs (acc @ [p])))"

abbreviation ErrParentNotFound :: error where "ErrParentNotFound \<equiv> Sentinel ''ErrParentNotFound''"

definition Commit_Parent :: "digest \<Rightarrow> objects \<Rightarrow> Commit \<Rightarrow> nat \<Rightarrow> Commit result" where
  "Commit_Parent sha s c i =
     (if c_ParentHashes c = [] \<or> int i > int (length (c_ParentHashes c)) - 1 then Error ErrParentNotFound
      else GetCommit sha s (c_ParentHashes c ! i))"

section \<open>Pre-order\<close>

record commitPreIterator =
  pre_seenExternal :: "ObjectID set"
  pre_seen :: "ObjectID set"
  pre_stack :: "EncodedObjectLookupIter list"
  pre_start :: "Commit option"

definition NewCommitPreorderIter :: "Commit \<Rightarrow> ObjectID set \<Rightarrow> ObjectID list \<Rightarrow> commitPreIterator" where
  "NewCommitPreorderIter c seenExternal ignore =
     \<lparr>pre_seenExternal = seenExternal, pre_seen = set ignore, pre_stack = [], pre_start = Some c\<rparr>"

definition filteredParentIter :: "Commit \<Rightarrow> ObjectID set \<Rightarrow> EncodedObjectLookupIter" where
  "filteredParentIter c seen = NewEncodedObjectLookupIter CommitObject (filter (\<lambda>h. h \<notin> seen) (c_ParentHashes c))"

text \<open>What the loop does with a commit: \<open>None\<close> goes on, and the stack has its top first.\<close>

definition pre_visit :: "commitPreIterator \<Rightarrow> Commit \<Rightarrow> commitPreIterator option" where
  "pre_visit w c =
     (if c_Hash c \<in> pre_seen w \<or> c_Hash c \<in> pre_seenExternal w then None
      else let w = w\<lparr>pre_seen := insert (c_Hash c) (pre_seen w)\<rparr>
           in Some (if NumParents c > 0 then w\<lparr>pre_stack := filteredParentIter c (pre_seen w) # pre_stack w\<rparr> else w))"

lemma storerCommitIter_Next_pos:
  "storerCommitIter_Next sha s it = (Ok c, it') \<Longrightarrow> li_pos it < length (li_series it) \<and> it' = it\<lparr>li_pos := li_pos it + 1\<rparr>"
  by (auto simp: storerCommitIter_Next_def EncodedObjectLookupIter_Next_def Let_def split: if_splits prod.splits result.splits)

function commitPreIterator_Next :: "digest \<Rightarrow> objects \<Rightarrow> commitPreIterator \<Rightarrow> Commit result \<times> commitPreIterator" where
  "commitPreIterator_Next sha s w =
     (case pre_start w of
        Some c \<Rightarrow>
          (let w1 = w\<lparr>pre_start := None\<rparr>
           in case pre_visit w1 c of Some w2 \<Rightarrow> (Ok c, w2) | None \<Rightarrow> commitPreIterator_Next sha s w1)
      | None \<Rightarrow>
          (case pre_stack w of
             [] \<Rightarrow> (Error EOF, w)
           | it # rest \<Rightarrow>
               (case storerCommitIter_Next sha s it of
                  (Error e, it') \<Rightarrow>
                    if e = EOF then commitPreIterator_Next sha s (w\<lparr>pre_stack := rest\<rparr>) else (Error e, w\<lparr>pre_stack := it' # rest\<rparr>)
                | (Panic, it') \<Rightarrow> (Panic, w\<lparr>pre_stack := it' # rest\<rparr>)
                | (Ok c, it') \<Rightarrow>
                    (let w1 = w\<lparr>pre_stack := it' # rest\<rparr>
                     in case pre_visit w1 c of Some w2 \<Rightarrow> (Ok c, w2) | None \<Rightarrow> commitPreIterator_Next sha s w1))))"
  by pat_completeness auto
termination
  by (relation "measures [\<lambda>(sha, s, w). \<Sum>it\<leftarrow>pre_stack w. Suc (length (li_series it) - li_pos it), \<lambda>(sha, s, w). if pre_start w = None then 0 else 1]")
    (auto dest!: storerCommitIter_Next_pos [OF sym])

declare commitPreIterator_Next.simps [simp del]

section \<open>Post-order\<close>

record commitPostIterator =
  post_stack :: "Commit list"
  post_seen :: "ObjectID set"

definition NewCommitPostorderIter :: "Commit \<Rightarrow> ObjectID list \<Rightarrow> commitPostIterator" where
  "NewCommitPostorderIter c ignore = \<lparr>post_stack = [c], post_seen = set ignore\<rparr>"

function commitPostIterator_Next :: "digest \<Rightarrow> objects \<Rightarrow> commitPostIterator \<Rightarrow> Commit result \<times> commitPostIterator" where
  "commitPostIterator_Next sha s w =
     (case post_stack w of
        [] \<Rightarrow> (Error EOF, w)
      | c # rest \<Rightarrow>
          if c_Hash c \<in> post_seen w then commitPostIterator_Next sha s (w\<lparr>post_stack := rest\<rparr>)
          else let (ps, res) = parentsForEach sha s (c_ParentHashes c) [];
                   w1 = w\<lparr>post_stack := rev ps @ rest, post_seen := insert (c_Hash c) (post_seen w)\<rparr>
               in (rbind res (\<lambda>u. Ok c), w1))"
  by pat_completeness auto
termination by (relation "measure (\<lambda>(sha, s, w). length (post_stack w))") auto

declare commitPostIterator_Next.simps [simp del]

text \<open>Only along first parents.\<close>

function commitPostIteratorFirstParent_Next :: "digest \<Rightarrow> objects \<Rightarrow> commitPostIterator \<Rightarrow> Commit result \<times> commitPostIterator" where
  "commitPostIteratorFirstParent_Next sha s w =
     (case post_stack w of
        [] \<Rightarrow> (Error EOF, w)
      | c # rest \<Rightarrow>
          if c_Hash c \<in> post_seen w then commitPostIteratorFirstParent_Next sha s (w\<lparr>post_stack := rest\<rparr>)
          else let (ps, res) = parentsForEach sha s (c_ParentHashes c) [];
                   first = filter (\<lambda>p. c_ParentHashes c \<noteq> [] \<and> c_Hash p = c_ParentHashes c ! 0) ps;
                   w1 = w\<lparr>post_stack := rev first @ rest, post_seen := insert (c_Hash c) (post_seen w)\<rparr>
               in (rbind res (\<lambda>u. Ok c), w1))"
  by pat_completeness auto
termination by (relation "measure (\<lambda>(sha, s, w). length (post_stack w))") auto

declare commitPostIteratorFirstParent_Next.simps [simp del]

section \<open>Breadth-first\<close>

record bfsCommitIterator =
  bfs_seenExternal :: "ObjectID set"
  bfs_seen :: "ObjectID set"
  bfs_queue :: "Commit list"

definition NewCommitIterBSF :: "Commit \<Rightarrow> ObjectID set \<Rightarrow> ObjectID list \<Rightarrow> bfsCommitIterator" where
  "NewCommitIterBSF c seenExternal ignore = \<lparr>bfs_seenExternal = seenExternal, bfs_seen = set ignore, bfs_queue = [c]\<rparr>"

definition bfs_appendHash :: "digest \<Rightarrow> objects \<Rightarrow> bfsCommitIterator \<Rightarrow> ObjectID \<Rightarrow> bfsCommitIterator \<times> unit result" where
  "bfs_appendHash sha s w h =
     (if h \<in> bfs_seen w \<or> h \<in> bfs_seenExternal w then (w, Ok ())
      else case GetCommit sha s h of
             Ok c \<Rightarrow> (w\<lparr>bfs_queue := bfs_queue w @ [c]\<rparr>, Ok ())
           | Error e \<Rightarrow> (w, Error e)
           | Panic \<Rightarrow> (w, Panic))"

fun bfs_appendAll :: "digest \<Rightarrow> objects \<Rightarrow> bfsCommitIterator \<Rightarrow> ObjectID list \<Rightarrow> bfsCommitIterator \<times> unit result" where
  "bfs_appendAll sha s w [] = (w, Ok ())"
| "bfs_appendAll sha s w (h # hs) =
     (case bfs_appendHash sha s w h of
        (w', Ok u) \<Rightarrow> bfs_appendAll sha s w' hs
      | (w', r) \<Rightarrow> (w', r))"

function bfsCommitIterator_Next :: "digest \<Rightarrow> objects \<Rightarrow> bfsCommitIterator \<Rightarrow> Commit result \<times> bfsCommitIterator" where
  "bfsCommitIterator_Next sha s w =
     (case bfs_queue w of
        [] \<Rightarrow> (Error EOF, w)
      | c # q \<Rightarrow>
          (let w1 = w\<lparr>bfs_queue := q\<rparr>
           in if c_Hash c \<in> bfs_seen w \<or> c_Hash c \<in> bfs_seenExternal w then bfsCommitIterator_Next sha s w1
              else case bfs_appendAll sha s (w1\<lparr>bfs_seen := insert (c_Hash c) (bfs_seen w)\<rparr>) (c_ParentHashes c) of
                     (w2, res) \<Rightarrow> (rbind res (\<lambda>u. Ok c), w2)))"
  by pat_completeness auto
termination by (relation "measure (\<lambda>(sha, s, w). length (bfs_queue w))") auto

declare bfsCommitIterator_Next.simps [simp del]

definition bfsCommitIterator_ForEach where
  "bfsCommitIterator_ForEach sha s w cb st = forEachIter (bfsCommitIterator_Next sha s) (\<lambda>w. w) cb w st"

section \<open>Breadth-first with filters\<close>

text \<open>The filters are arguments, as they may read what a callback changes.\<close>

type_synonym CommitFilter = "Commit \<Rightarrow> bool"

record filterCommitIter =
  fi_visited :: "ObjectID set"
  fi_queue :: "Commit list"
  fi_lastErr :: "error option"

definition NewFilterCommitIter :: "Commit \<Rightarrow> filterCommitIter" where
  "NewFilterCommitIter from = \<lparr>fi_visited = {}, fi_queue = [from], fi_lastErr = None\<rparr>"

definition fi_close :: "filterCommitIter \<Rightarrow> error \<Rightarrow> filterCommitIter" where
  "fi_close w err = w\<lparr>fi_visited := {}, fi_queue := [], fi_lastErr := Some err\<rparr>"

fun popNew :: "ObjectID set \<Rightarrow> Commit list \<Rightarrow> (Commit \<times> Commit list) option" where
  "popNew visited [] = None"
| "popNew visited (c # q) = (if c_Hash c \<in> visited then popNew visited q else Some (c, q))"

definition popNewFromQueue :: "filterCommitIter \<Rightarrow> Commit result \<times> filterCommitIter" where
  "popNewFromQueue w =
     (case popNew (fi_visited w) (fi_queue w) of
        Some (c, q) \<Rightarrow> (Ok c, w\<lparr>fi_queue := q\<rparr>)
      | None \<Rightarrow> (Error (case fi_lastErr w of Some e \<Rightarrow> e | None \<Rightarrow> EOF), w\<lparr>fi_queue := []\<rparr>))"

fun addToQueue :: "digest \<Rightarrow> objects \<Rightarrow> filterCommitIter \<Rightarrow> ObjectID list \<Rightarrow> filterCommitIter \<times> unit result" where
  "addToQueue sha s w [] = (w, Ok ())"
| "addToQueue sha s w (h # hs) =
     (if h \<in> fi_visited w then addToQueue sha s w hs
      else case GetCommit sha s h of
             Ok c \<Rightarrow> addToQueue sha s (w\<lparr>fi_queue := fi_queue w @ [c]\<rparr>) hs
           | Error e \<Rightarrow> (w, Error e)
           | Panic \<Rightarrow> (w, Panic))"

text \<open>The body of the loop in \<^verbatim>\<open>Next\<close> up to the test whether the commit is valid.\<close>

definition filterCommitIter_visit :: "digest \<Rightarrow> objects \<Rightarrow> CommitFilter \<Rightarrow> filterCommitIter \<Rightarrow> Commit result \<times> filterCommitIter" where
  "filterCommitIter_visit sha s isLimit w =
     (case popNewFromQueue w of
        (Error e, w1) \<Rightarrow> (Error e, fi_close w1 e)
      | (Panic, w1) \<Rightarrow> (Panic, w1)
      | (Ok commit, w1) \<Rightarrow>
          (let w2 = w1\<lparr>fi_visited := insert (c_Hash commit) (fi_visited w1)\<rparr>
           in case (if isLimit commit then (w2, Ok ()) else addToQueue sha s w2 (c_ParentHashes commit)) of
                (w3, Error e) \<Rightarrow> (Error e, fi_close w3 e)
              | (w3, Panic) \<Rightarrow> (Panic, w3)
              | (w3, Ok u) \<Rightarrow> (Ok commit, w3)))"

partial_function (option) filterCommitIter_Next ::
    "digest \<Rightarrow> objects \<Rightarrow> CommitFilter \<Rightarrow> CommitFilter \<Rightarrow> filterCommitIter \<Rightarrow> (Commit result \<times> filterCommitIter) option" where
  "filterCommitIter_Next sha s isValid isLimit w =
     (case filterCommitIter_visit sha s isLimit w of
        (Ok commit, w') \<Rightarrow> if isValid commit then Some (Ok commit, w') else filterCommitIter_Next sha s isValid isLimit w'
      | res \<Rightarrow> Some res)"

text \<open>\<^verbatim>\<open>ForEach\<close>: the filters may depend on the state of the callback. \<open>None\<close> is a walk that does not end.\<close>

partial_function (option) filterCommitIter_ForEach ::
    "digest \<Rightarrow> objects \<Rightarrow> ('st \<Rightarrow> CommitFilter) \<Rightarrow> ('st \<Rightarrow> CommitFilter) \<Rightarrow> ('st \<Rightarrow> Commit \<Rightarrow> 'st \<times> unit result) \<Rightarrow>
     filterCommitIter \<Rightarrow> 'st \<Rightarrow> ('st \<times> filterCommitIter \<times> unit result) option" where
  "filterCommitIter_ForEach sha s isValid isLimit cb w st =
     (case filterCommitIter_Next sha s (isValid st) (isLimit st) w of
        None \<Rightarrow> None
      | Some (Error e, w') \<Rightarrow> Some (st, w', if e = EOF then Ok () else Error e)
      | Some (Panic, w') \<Rightarrow> Some (st, w', Panic)
      | Some (Ok c, w') \<Rightarrow>
          (case cb st c of
             (st', Error e) \<Rightarrow> Some (st', w', if e = ErrStop then Ok () else Error e)
           | (st', Panic) \<Rightarrow> Some (st', w', Panic)
           | (st', Ok u) \<Rightarrow> filterCommitIter_ForEach sha s isValid isLimit cb w' st'))"

section \<open>Limits\<close>

record LogLimitOptions =
  ll_Since :: "Time option"
  ll_Until :: "Time option"
  ll_TailHash :: ObjectID

text \<open>
  \<^verbatim>\<open>Next\<close> answers a commit together with \<^verbatim>\<open>ErrStop\<close> at the tail, so the outcome holds both: the commit
  is \<open>None\<close> for nil.
\<close>

partial_function (option) commitLimitIter_Next ::
    "('i \<Rightarrow> Commit result \<times> 'i) \<Rightarrow> LogLimitOptions \<Rightarrow> 'i \<Rightarrow> (Commit option \<times> unit result \<times> 'i) option" where
  "commitLimitIter_Next nxt lim it =
     (case nxt it of
        (Error e, it') \<Rightarrow> Some (None, Error e, it')
      | (Panic, it') \<Rightarrow> Some (None, Panic, it')
      | (Ok commit, it') \<Rightarrow>
          if (case ll_Since lim of None \<Rightarrow> False | Some since \<Rightarrow> Time_Before (sig_When (c_Committer commit)) since) \<or>
             (case ll_Until lim of None \<Rightarrow> False | Some until \<Rightarrow> Time_After (sig_When (c_Committer commit)) until)
          then commitLimitIter_Next nxt lim it'
          else if ll_TailHash lim = c_Hash commit then Some (Some commit, Error ErrStop, it')
          else Some (Some commit, Ok (), it'))"

text \<open>The callback may be called with the nil commit of a source that itself answers \<^verbatim>\<open>ErrStop\<close>.\<close>

partial_function (option) commitLimitIter_ForEach ::
    "('i \<Rightarrow> Commit result \<times> 'i) \<Rightarrow> LogLimitOptions \<Rightarrow> ('st \<Rightarrow> Commit option \<Rightarrow> 'st \<times> unit result) \<Rightarrow> 'i \<Rightarrow> 'st \<Rightarrow> ('st \<times> 'i \<times> unit result) option" where
  "commitLimitIter_ForEach nxt lim cb it st =
     (case commitLimitIter_Next nxt lim it of
        None \<Rightarrow> None
      | Some (commit, nextErr, it') \<Rightarrow>
          if nextErr = Error EOF then Some (st, it', Ok ())
          else if nextErr \<noteq> Ok () \<and> nextErr \<noteq> Error ErrStop then Some (st, it', nextErr)
          else case cb st commit of
                 (st', Panic) \<Rightarrow> Some (st', it', Panic)
               | (st', Error e) \<Rightarrow> Some (st', it', if e = ErrStop \<or> nextErr = Error ErrStop then Ok () else Error e)
               | (st', Ok u) \<Rightarrow>
                   if nextErr = Error ErrStop then Some (st', it', Ok ()) else commitLimitIter_ForEach nxt lim cb it' st')"

end
