(* ===== verification/History.thy ===== *)
theory History
  imports CommitWalk
begin

text \<open>
  What the walks over commits visit. The interface of a walk is the locale \<open>commit_walk\<close>: its state has a
  frontier and a set of hashes it avoids, and a step visits a commit of the frontier. A history is a
  finite set of hashes closed under parents whose commits the storage holds, each under its hash.
\<close>

section \<open>Reachability\<close>

definition parents :: "(ObjectID \<Rightarrow> Commit result) \<Rightarrow> ObjectID \<Rightarrow> ObjectID set" where
  "parents get h = (case get h of Ok c \<Rightarrow> set (c_ParentHashes c) | _ \<Rightarrow> {})"

definition history :: "(ObjectID \<Rightarrow> Commit result) \<Rightarrow> ObjectID set \<Rightarrow> bool" where
  "history get U \<longleftrightarrow> finite U \<and> (\<forall>h \<in> U. \<exists>c. get h = Ok c \<and> c_Hash c = h \<and> set (c_ParentHashes c) \<subseteq> U)"

text \<open>What is reached from \<open>F\<close> along a successor function, that of the parents or part of it, without touching \<open>A\<close>.\<close>

inductive_set reached :: "(ObjectID \<Rightarrow> ObjectID set) \<Rightarrow> ObjectID set \<Rightarrow> ObjectID set \<Rightarrow> ObjectID set" for succs A F where
  start: "h \<in> F \<Longrightarrow> h \<notin> A \<Longrightarrow> h \<in> reached succs A F"
| parent: "h \<in> reached succs A F \<Longrightarrow> p \<in> succs h \<Longrightarrow> p \<notin> A \<Longrightarrow> p \<in> reached succs A F"

lemma reached_avoids: "h \<in> reached succs A F \<Longrightarrow> h \<notin> A"
  by (induction rule: reached.induct) simp_all

lemma reached_mono: "h \<in> reached succs A F \<Longrightarrow> F - A \<subseteq> F' \<Longrightarrow> A' \<subseteq> A \<Longrightarrow> h \<in> reached succs A' F'"
  by (induction rule: reached.induct) (auto intro: reached.intros dest: reached_avoids)

lemma reached_cong: "F \<union> A = F' \<union> A \<Longrightarrow> reached succs A F = reached succs A F'"
  by (intro equalityI subsetI; erule reached_mono; blast)

lemma reached_empty: "F \<subseteq> A \<Longrightarrow> reached succs A F = {}"
proof -
  have "h \<in> reached succs A F \<Longrightarrow> \<not> F \<subseteq> A" for h by (induction rule: reached.induct) auto
  then show "F \<subseteq> A \<Longrightarrow> reached succs A F = {}" by blast
qed

lemma reached_step:
  assumes "h \<in> F" and "h \<notin> A"
  shows "reached succs A F = insert h (reached succs (insert h A) (F \<union> succs h))"
proof (intro equalityI subsetI)
  show "x \<in> insert h (reached succs (insert h A) (F \<union> succs h))" if "x \<in> reached succs A F" for x
    using that by (induction rule: reached.induct) (auto intro: reached.intros)
  have "x \<in> reached succs A F" if "x \<in> reached succs (insert h A) (F \<union> succs h)" for x
    using that
  proof (induction rule: reached.induct)
    case (start x)
    then show ?case using assms reached.start [of h F A succs] by (auto intro: reached.intros)
  next
    case (parent x p)
    then show ?case by (auto intro: reached.parent)
  qed
  then show "x \<in> reached succs A F" if "x \<in> insert h (reached succs (insert h A) (F \<union> succs h))" for x
    using that assms reached.start by auto
qed

lemma historyD: "history get U \<Longrightarrow> h \<in> U \<Longrightarrow> \<exists>c. get h = Ok c \<and> c_Hash c = h \<and> set (c_ParentHashes c) \<subseteq> U"
  by (simp add: history_def)

lemma parents_history: "history get U \<Longrightarrow> h \<in> U \<Longrightarrow> parents get h \<subseteq> U"
  using historyD [of get U h] by (auto simp: parents_def)

abbreviation reach :: "(ObjectID \<Rightarrow> Commit result) \<Rightarrow> ObjectID \<Rightarrow> ObjectID set" where
  "reach get h \<equiv> reached (parents get) {} {h}"

lemma reach_history:
  assumes "history get U" and "h \<in> U"
  shows "reach get h \<subseteq> U"
proof
  show "x \<in> U" if "x \<in> reach get h" for x
    using that by (induction rule: reached.induct) (use assms parents_history in auto)
qed

lemma reach_trans: "x \<in> reach get y \<Longrightarrow> y \<in> reach get z \<Longrightarrow> x \<in> reach get z"
  by (induction rule: reached.induct) (auto intro: reached.parent)

lemma reach_refl [simp]: "h \<in> reach get h"
  by (simp add: reached.start)

section \<open>Walks\<close>

text \<open>A run of an iterator to its end.\<close>

inductive run :: "('i \<Rightarrow> 'a result \<times> 'i) \<Rightarrow> 'i \<Rightarrow> 'a list \<Rightarrow> bool" for nxt where
  stop: "fst (nxt w) = Error EOF \<Longrightarrow> run nxt w []"
| yield: "nxt w = (Ok c, w') \<Longrightarrow> run nxt w' xs \<Longrightarrow> run nxt w (c # xs)"

inductive_cases run_Nil [elim!]: "run nxt w []"
inductive_cases run_Cons [elim!]: "run nxt w (c # xs)"

interpretation running: traversal nxt cls "run nxt" for nxt cls
  by unfold_locales auto

lemma forEachCommit_run:
  "run nxt it xs \<Longrightarrow> \<exists>it'. forEachCommit nxt cb it st = Some (fst (visit cb st xs), it', snd (visit cb st xs))"
proof (induction arbitrary: st rule: run.induct)
  case (stop w)
  then show ?case by (cases "nxt w") (auto simp: forEachCommit.simps [of nxt cb w])
next
  case (yield w c w' xs)
  obtain st' e where cb: "cb st c = (st', e)" by fastforce
  show ?case using yield.IH [of st'] yield.hyps(1) cb by (cases e) (auto simp: forEachCommit.simps [of nxt cb w])
qed

text \<open>A step of a walk visits a commit of the frontier that is not avoided, and its parents join the frontier.\<close>

definition walk_step ::
    "(ObjectID \<Rightarrow> Commit result) \<Rightarrow> (ObjectID \<Rightarrow> ObjectID set) \<Rightarrow> ('i \<Rightarrow> Commit result \<times> 'i) \<Rightarrow> ('i \<Rightarrow> ObjectID set) \<Rightarrow> ('i \<Rightarrow> ObjectID set) \<Rightarrow> 'i \<Rightarrow> Commit \<Rightarrow> 'i \<Rightarrow> bool" where
  "walk_step get succs nxt frontier avoided w c w' \<longleftrightarrow>
     nxt w = (Ok c, w') \<and> get (c_Hash c) = Ok c \<and> c_Hash c \<in> frontier w - avoided w \<and>
     avoided w' = insert (c_Hash c) (avoided w) \<and>
     frontier w' \<union> avoided w' = frontier w \<union> succs (c_Hash c) \<union> avoided w'"

definition enumerates :: "(ObjectID \<Rightarrow> Commit result) \<Rightarrow> Commit list \<Rightarrow> ObjectID set \<Rightarrow> bool" where
  "enumerates get xs H \<longleftrightarrow> distinct (map c_Hash xs) \<and> c_Hash ` set xs = H \<and> (\<forall>c \<in> set xs. get (c_Hash c) = Ok c)"

locale commit_walk =
  fixes get :: "ObjectID \<Rightarrow> Commit result" and succs :: "ObjectID \<Rightarrow> ObjectID set" and nxt :: "'i \<Rightarrow> Commit result \<times> 'i"
    and frontier avoided :: "'i \<Rightarrow> ObjectID set" and fits :: "ObjectID set \<Rightarrow> 'i \<Rightarrow> bool"
  assumes frontier_fits: "fits U w \<Longrightarrow> frontier w \<subseteq> U"
    and walk_next: "history get U \<Longrightarrow> fits U w \<Longrightarrow>
      frontier w \<subseteq> avoided w \<and> fst (nxt w) = Error EOF \<or> (\<exists>c w'. walk_step get succs nxt frontier avoided w c w' \<and> fits U w')"
begin

lemma walk_run:
  assumes "history get U" and "fits U w"
  shows "\<exists>xs. run nxt w xs \<and> enumerates get xs (reached succs (avoided w) (frontier w))"
  using assms(2)
proof (induction "card (U - avoided w)" arbitrary: w rule: less_induct)
  case less
  show ?case
  proof (cases "frontier w \<subseteq> avoided w \<and> fst (nxt w) = Error EOF")
    case True
    then show ?thesis by (intro exI [of _ "[]"]) (auto intro: run.stop simp: reached_empty enumerates_def)
  next
    case False
    then obtain c w' where st: "walk_step get succs nxt frontier avoided w c w'" "fits U w'" using walk_next [OF assms(1) less.prems] by blast
    let ?h = "c_Hash c"
    have st': "nxt w = (Ok c, w')" "get ?h = Ok c" "?h \<in> frontier w" "?h \<notin> avoided w" "avoided w' = insert ?h (avoided w)"
      "frontier w' \<union> avoided w' = frontier w \<union> succs ?h \<union> avoided w'"
      using st(1) unfolding walk_step_def by auto
    have "?h \<in> U" using frontier_fits [OF less.prems] st'(3) by blast
    then have "card (U - avoided w') < card (U - avoided w)"
      using assms(1) st'(4,5) by (intro psubset_card_mono) (auto simp: history_def)
    from less.hyps [OF this st(2)] obtain xs where xs: "run nxt w' xs" "enumerates get xs (reached succs (avoided w') (frontier w'))" by blast
    have eq: "reached succs (avoided w) (frontier w) = insert ?h (reached succs (avoided w') (frontier w'))"
      using reached_step [OF st'(3,4), of succs] reached_cong [of "frontier w'" "avoided w'" "frontier w \<union> succs ?h" succs] st'(5,6) by simp
    have "?h \<notin> reached succs (avoided w') (frontier w')" using reached_avoids st'(5) by blast
    with xs eq st'(1,2) show ?thesis by (intro exI [of _ "c # xs"]) (auto intro: run.yield simp: enumerates_def)
  qed
qed

end

lemma walk_step_skip:
  assumes "walk_step get succs nxt frontier avoided w1 c w'" and "nxt w = nxt w1" and "avoided w = avoided w1"
    and "frontier w \<union> avoided w = frontier w1 \<union> avoided w1" and "frontier w1 \<subseteq> frontier w"
  shows "walk_step get succs nxt frontier avoided w c w'"
  using assms unfolding walk_step_def by auto

definition loaded :: "(ObjectID \<Rightarrow> Commit result) \<Rightarrow> ObjectID set \<Rightarrow> Commit \<Rightarrow> bool" where
  "loaded get U c \<longleftrightarrow> get (c_Hash c) = Ok c \<and> c_Hash c \<in> U"

lemma loaded_parents: "history get U \<Longrightarrow> loaded get U c \<Longrightarrow> set (c_ParentHashes c) \<subseteq> U"
  using historyD [of get U "c_Hash c"] by (auto simp: loaded_def)

lemma history_load: "history get U \<Longrightarrow> h \<in> U \<Longrightarrow> \<exists>c. get h = Ok c \<and> c_Hash c = h \<and> loaded get U c"
  using historyD [of get U h] by (auto simp: loaded_def)

subsection \<open>Breadth-first\<close>

definition bfs_avoided :: "bfsCommitIterator \<Rightarrow> ObjectID set" where
  "bfs_avoided w = bfs_seen w \<union> bfs_seenExternal w"

definition bfs_frontier :: "bfsCommitIterator \<Rightarrow> ObjectID set" where
  "bfs_frontier w = c_Hash ` set (bfs_queue w)"

definition bfs_fits :: "digest \<Rightarrow> objects \<Rightarrow> ObjectID set \<Rightarrow> bfsCommitIterator \<Rightarrow> bool" where
  "bfs_fits sha s U w \<longleftrightarrow> (\<forall>c \<in> set (bfs_queue w). loaded (GetCommit sha s) U c)"

lemma bfs_appendAll_ok:
  assumes "history (GetCommit sha s) U" and "set hs \<subseteq> U" and "bfs_fits sha s U w"
  shows "\<exists>w'. bfs_appendAll sha s w hs = (w', Ok ()) \<and> bfs_fits sha s U w' \<and> bfs_avoided w' = bfs_avoided w \<and>
    bfs_frontier w' \<union> bfs_avoided w = bfs_frontier w \<union> set hs \<union> bfs_avoided w"
  using assms(2,3)
proof (induction hs arbitrary: w)
  case (Cons h hs)
  obtain c where c: "GetCommit sha s h = Ok c" "c_Hash c = h" "loaded (GetCommit sha s) U c"
    using history_load [OF assms(1), of h] Cons.prems(1) by auto
  show ?case
  proof (cases "h \<in> bfs_avoided w")
    case True
    then show ?thesis using Cons.IH [of w] Cons.prems by (auto simp: bfs_appendHash_def bfs_avoided_def)
  next
    case False
    let ?w = "w\<lparr>bfs_queue := bfs_queue w @ [c]\<rparr>"
    have "bfs_fits sha s U ?w" using Cons.prems(2) c(3) by (simp add: bfs_fits_def)
    moreover have "bfs_avoided ?w = bfs_avoided w" "bfs_frontier ?w = insert h (bfs_frontier w)"
      using c(2) by (simp_all add: bfs_avoided_def bfs_frontier_def)
    ultimately show ?thesis using Cons.IH [of ?w] Cons.prems(1) False c(1) by (auto simp: bfs_appendHash_def bfs_avoided_def)
  qed
qed simp

lemma bfs_next:
  assumes "history (GetCommit sha s) U"
  shows "bfs_fits sha s U w \<Longrightarrow>
    bfs_frontier w \<subseteq> bfs_avoided w \<and> fst (bfsCommitIterator_Next sha s w) = Error EOF \<or>
    (\<exists>c w'. walk_step (GetCommit sha s) (parents (GetCommit sha s)) (bfsCommitIterator_Next sha s) bfs_frontier bfs_avoided w c w' \<and> bfs_fits sha s U w')"
proof (induction "length (bfs_queue w)" arbitrary: w)
  case 0
  then show ?case by (subst bfsCommitIterator_Next.simps) (simp add: bfs_frontier_def)
next
  case (Suc n)
  then obtain c q where q: "bfs_queue w = c # q" by (cases "bfs_queue w") auto
  let ?w1 = "w\<lparr>bfs_queue := q\<rparr>" and ?h = "c_Hash c"
  have c: "loaded (GetCommit sha s) U c" and fits: "bfs_fits sha s U ?w1" using Suc.prems q by (simp_all add: bfs_fits_def)
  show ?case
  proof (cases "?h \<in> bfs_avoided w")
    case True
    then have eq: "bfsCommitIterator_Next sha s w = bfsCommitIterator_Next sha s ?w1"
      using q by (subst bfsCommitIterator_Next.simps) (auto simp: bfs_avoided_def Let_def)
    have "bfs_frontier w = insert ?h (bfs_frontier ?w1)" "bfs_avoided ?w1 = bfs_avoided w"
      using q by (simp_all add: bfs_frontier_def bfs_avoided_def)
    moreover note Suc.hyps(1) [of ?w1] Suc.hyps(2) q fits
    ultimately show ?thesis using eq True walk_step_skip [OF _ eq, where frontier = bfs_frontier and avoided = bfs_avoided] by fastforce
  next
    case False
    let ?w2 = "?w1\<lparr>bfs_seen := insert ?h (bfs_seen w)\<rparr>"
    obtain w' where w': "bfs_appendAll sha s ?w2 (c_ParentHashes c) = (w', Ok ())" "bfs_fits sha s U w'" "bfs_avoided w' = bfs_avoided ?w2"
        "bfs_frontier w' \<union> bfs_avoided ?w2 = bfs_frontier ?w2 \<union> set (c_ParentHashes c) \<union> bfs_avoided ?w2"
      using bfs_appendAll_ok [OF assms loaded_parents [OF assms c], of ?w2] fits by (auto simp: bfs_fits_def)
    have "bfsCommitIterator_Next sha s w = (Ok c, w')"
      using q False w'(1) by (subst bfsCommitIterator_Next.simps) (simp add: bfs_avoided_def Let_def)
    moreover have "bfs_avoided ?w2 = insert ?h (bfs_avoided w)" "bfs_frontier w = insert ?h (bfs_frontier ?w2)"
      using q by (auto simp: bfs_avoided_def bfs_frontier_def)
    ultimately have "walk_step (GetCommit sha s) (parents (GetCommit sha s)) (bfsCommitIterator_Next sha s) bfs_frontier bfs_avoided w c w'"
      using w'(3,4) False c unfolding walk_step_def loaded_def parents_def by auto
    with w'(2) show ?thesis by blast
  qed
qed

interpretation bfs: commit_walk "GetCommit sha s" "parents (GetCommit sha s)" "bfsCommitIterator_Next sha s" bfs_frontier bfs_avoided "bfs_fits sha s" for sha s
proof
  show "bfs_frontier w \<subseteq> U" if "bfs_fits sha s U w" for U w using that by (auto simp: bfs_fits_def bfs_frontier_def loaded_def)
qed (rule bfs_next)

subsection \<open>Pre-order\<close>

definition li_left :: "EncodedObjectLookupIter \<Rightarrow> ObjectID list" where
  "li_left it = drop (li_pos it) (li_series it)"

definition pre_avoided :: "commitPreIterator \<Rightarrow> ObjectID set" where
  "pre_avoided w = pre_seen w \<union> pre_seenExternal w"

definition pre_frontier :: "commitPreIterator \<Rightarrow> ObjectID set" where
  "pre_frontier w = c_Hash ` set_option (pre_start w) \<union> (\<Union>it \<in> set (pre_stack w). set (li_left it))"

definition pre_fits :: "digest \<Rightarrow> objects \<Rightarrow> ObjectID set \<Rightarrow> commitPreIterator \<Rightarrow> bool" where
  "pre_fits sha s U w \<longleftrightarrow>
     (\<forall>c \<in> set_option (pre_start w). loaded (GetCommit sha s) U c) \<and>
     (\<forall>it \<in> set (pre_stack w). li_t it = CommitObject \<and> set (li_left it) \<subseteq> U)"

lemma storerCommitIter_Next_left:
  assumes "history (GetCommit sha s) U" and "li_t it = CommitObject" and "set (li_left it) \<subseteq> U"
  shows "case li_left it of
      [] \<Rightarrow> storerCommitIter_Next sha s it = (Error EOF, it)
    | h # hs \<Rightarrow> \<exists>c. storerCommitIter_Next sha s it = (Ok c, it\<lparr>li_pos := li_pos it + 1\<rparr>) \<and> c_Hash c = h \<and> loaded (GetCommit sha s) U c \<and>
        li_left (it\<lparr>li_pos := li_pos it + 1\<rparr>) = hs"
proof (cases "li_left it")
  case Nil
  then show ?thesis by (simp add: storerCommitIter_Next_def EncodedObjectLookupIter_Next_def li_left_def)
next
  case (Cons h hs)
  then have pos: "li_pos it < length (li_series it) \<and> li_series it ! li_pos it = h \<and> drop (Suc (li_pos it)) (li_series it) = hs"
    unfolding li_left_def by (metis Cons_nth_drop_Suc drop_all list.inject list.distinct(1) not_le)
  obtain c where c: "GetCommit sha s h = Ok c" "c_Hash c = h" "loaded (GetCommit sha s) U c"
    using history_load [OF assms(1), of h] assms(3) Cons by auto
  then obtain ob where "s CommitObject h = Ok ob" "DecodeCommit sha ob = Ok c" by (auto simp: GetCommit_def)
  then show ?thesis using pos c Cons assms(2) by (simp add: storerCommitIter_Next_def EncodedObjectLookupIter_Next_def li_left_def)
qed

lemma pre_visit_step:
  assumes "history (GetCommit sha s) U" and "loaded (GetCommit sha s) U c" and "pre_fits sha s U w" and "c_Hash c \<notin> pre_avoided w" and "pre_start w = None"
  shows "\<exists>w'. pre_visit w c = Some w' \<and> pre_fits sha s U w' \<and> pre_avoided w' = insert (c_Hash c) (pre_avoided w) \<and>
    pre_frontier w' \<union> pre_avoided w' = pre_frontier w \<union> set (c_ParentHashes c) \<union> pre_avoided w'"
proof -
  let ?w = "w\<lparr>pre_seen := insert (c_Hash c) (pre_seen w)\<rparr>"
  let ?w' = "if NumParents c > 0 then ?w\<lparr>pre_stack := filteredParentIter c (pre_seen ?w) # pre_stack ?w\<rparr> else ?w"
  have "pre_visit w c = Some ?w'" using assms(4) by (simp add: pre_visit_def pre_avoided_def Let_def)
  moreover have left: "li_left (filteredParentIter c (pre_seen ?w)) = filter (\<lambda>h. h \<notin> pre_seen ?w) (c_ParentHashes c)"
    by (simp add: li_left_def filteredParentIter_def NewEncodedObjectLookupIter_def)
  moreover have "pre_fits sha s U ?w'"
    using assms(3,5) loaded_parents [OF assms(1,2)] left
    by (auto simp: pre_fits_def filteredParentIter_def NewEncodedObjectLookupIter_def)
  moreover have "pre_frontier ?w' \<union> pre_avoided ?w' = pre_frontier w \<union> set (c_ParentHashes c) \<union> pre_avoided ?w'"
    using left by (auto simp: pre_frontier_def pre_avoided_def NumParents_def)
  ultimately show ?thesis by (auto simp: pre_avoided_def)
qed

definition pre_goal :: "digest \<Rightarrow> objects \<Rightarrow> ObjectID set \<Rightarrow> commitPreIterator \<Rightarrow> bool" where
  "pre_goal sha s U w \<longleftrightarrow>
     pre_frontier w \<subseteq> pre_avoided w \<and> fst (commitPreIterator_Next sha s w) = Error EOF \<or>
     (\<exists>c w'. walk_step (GetCommit sha s) (parents (GetCommit sha s)) (commitPreIterator_Next sha s) pre_frontier pre_avoided w c w' \<and> pre_fits sha s U w')"

lemma pre_goal_skip:
  assumes "pre_goal sha s U w1" and "commitPreIterator_Next sha s w = commitPreIterator_Next sha s w1" and "pre_avoided w = pre_avoided w1"
    and "pre_frontier w \<union> pre_avoided w = pre_frontier w1 \<union> pre_avoided w1" and "pre_frontier w1 \<subseteq> pre_frontier w"
  shows "pre_goal sha s U w"
  using assms walk_step_skip [OF _ assms(2-5)] unfolding pre_goal_def by (metis Un_subset_iff sup.absorb2 sup_ge2)

lemma pre_goal_take:
  assumes U: "history (GetCommit sha s) U" and c: "loaded (GetCommit sha s) U c" and w1: "pre_fits sha s U w1" "pre_start w1 = None"
    and w: "pre_avoided w = pre_avoided w1" "pre_frontier w = insert (c_Hash c) (pre_frontier w1)"
    and nx: "commitPreIterator_Next sha s w = (case pre_visit w1 c of Some w2 \<Rightarrow> (Ok c, w2) | None \<Rightarrow> commitPreIterator_Next sha s w1)"
    and IH: "pre_visit w1 c = None \<Longrightarrow> pre_goal sha s U w1"
  shows "pre_goal sha s U w"
proof (cases "c_Hash c \<in> pre_avoided w1")
  case True
  then have "pre_visit w1 c = None" by (auto simp: pre_visit_def pre_avoided_def)
  with IH nx w True show ?thesis by (intro pre_goal_skip [of sha s U w1 w]) auto
next
  case False
  obtain w' where w': "pre_visit w1 c = Some w'" "pre_fits sha s U w'" "pre_avoided w' = insert (c_Hash c) (pre_avoided w1)"
      "pre_frontier w' \<union> pre_avoided w' = pre_frontier w1 \<union> set (c_ParentHashes c) \<union> pre_avoided w'"
    using pre_visit_step [OF U c w1(1) False w1(2)] by blast
  then have "walk_step (GetCommit sha s) (parents (GetCommit sha s)) (commitPreIterator_Next sha s) pre_frontier pre_avoided w c w'"
    using nx w False c unfolding walk_step_def loaded_def parents_def by auto
  with w'(2) show ?thesis unfolding pre_goal_def by blast
qed

lemma pre_next:
  assumes "history (GetCommit sha s) U"
  shows "pre_fits sha s U w \<Longrightarrow> pre_goal sha s U w"
  using assms
proof (induction sha s w rule: commitPreIterator_Next.induct)
  case (1 sha s w)
  note U = "1.prems"(2) and unfold = commitPreIterator_Next.simps [of sha s w]
  show ?case
  proof (cases "pre_start w")
    case (Some c)
    let ?w1 = "w\<lparr>pre_start := None\<rparr>"
    have fits: "pre_fits sha s U ?w1" "loaded (GetCommit sha s) U c" using "1.prems"(1) Some by (simp_all add: pre_fits_def)
    show ?thesis
      by (rule pre_goal_take [OF U fits(2,1)]) (use 1 Some fits(1) U in \<open>simp_all add: unfold pre_avoided_def pre_frontier_def Let_def\<close>)
  next
    case None
    show ?thesis
    proof (cases "pre_stack w")
      case Nil
      then show ?thesis using None by (simp add: pre_goal_def unfold pre_frontier_def)
    next
      case (Cons it rest)
      have it: "li_t it = CommitObject" "set (li_left it) \<subseteq> U" using "1.prems"(1) Cons by (simp_all add: pre_fits_def)
      note left = storerCommitIter_Next_left [OF U it]
      show ?thesis
      proof (cases "li_left it")
        case Nil
        let ?w1 = "w\<lparr>pre_stack := rest\<rparr>"
        have nx: "storerCommitIter_Next sha s it = (Error EOF, it)" using left Nil by simp
        have "pre_fits sha s U ?w1" using "1.prems"(1) Cons by (simp add: pre_fits_def)
        then have "pre_goal sha s U ?w1" using "1.IH"(2) [OF None Cons nx [symmetric] refl refl _ U] by simp
        then show ?thesis using None Cons Nil nx
          by (elim pre_goal_skip) (simp_all add: unfold pre_avoided_def pre_frontier_def)
      next
        case (Cons h hs)
        let ?it = "it\<lparr>li_pos := Suc (li_pos it)\<rparr>"
        let ?w1 = "w\<lparr>pre_stack := ?it # rest\<rparr>"
        note st = \<open>pre_stack w = it # rest\<close>
        obtain c where c: "storerCommitIter_Next sha s it = (Ok c, ?it)" "c_Hash c = h" "loaded (GetCommit sha s) U c" "li_left ?it = hs"
          using left Cons by auto
        have fits: "pre_fits sha s U ?w1" using "1.prems"(1) st Cons c(4) by (simp add: pre_fits_def)
        show ?thesis
          by (rule pre_goal_take [OF U c(3) fits])
            (use None st Cons c "1.IH"(1) [OF None st c(1) [symmetric] refl refl _ fits U] in \<open>simp_all add: unfold pre_avoided_def pre_frontier_def Let_def\<close>)
      qed
    qed
  qed
qed

interpretation pre: commit_walk "GetCommit sha s" "parents (GetCommit sha s)" "commitPreIterator_Next sha s" pre_frontier pre_avoided "pre_fits sha s" for sha s
proof
  show "pre_frontier w \<subseteq> U" if "pre_fits sha s U w" for U w
    using that by (auto simp: pre_fits_def pre_frontier_def loaded_def)
  show "pre_frontier w \<subseteq> pre_avoided w \<and> fst (commitPreIterator_Next sha s w) = Error EOF \<or>
      (\<exists>c w'. walk_step (GetCommit sha s) (parents (GetCommit sha s)) (commitPreIterator_Next sha s) pre_frontier pre_avoided w c w' \<and> pre_fits sha s U w')"
    if "history (GetCommit sha s) U" "pre_fits sha s U w" for U w
    using pre_next [OF that] by (simp add: pre_goal_def)
qed

subsection \<open>Post-order\<close>

definition post_frontier :: "commitPostIterator \<Rightarrow> ObjectID set" where
  "post_frontier w = c_Hash ` set (post_stack w)"

definition post_fits :: "digest \<Rightarrow> objects \<Rightarrow> ObjectID set \<Rightarrow> commitPostIterator \<Rightarrow> bool" where
  "post_fits sha s U w \<longleftrightarrow> (\<forall>c \<in> set (post_stack w). loaded (GetCommit sha s) U c)"

lemma parentsForEach_ok:
  assumes "history (GetCommit sha s) U"
  shows "set hs \<subseteq> U \<Longrightarrow> \<exists>ps. parentsForEach sha s hs acc = (acc @ ps, Ok ()) \<and> map c_Hash ps = hs \<and> (\<forall>p \<in> set ps. loaded (GetCommit sha s) U p)"
proof (induction hs arbitrary: acc)
  case (Cons h hs)
  obtain c where c: "GetCommit sha s h = Ok c" "c_Hash c = h" "loaded (GetCommit sha s) U c"
    using history_load [OF assms, of h] Cons.prems by auto
  then obtain ob where "s CommitObject h = Ok ob" "DecodeCommit sha ob = Ok c" by (auto simp: GetCommit_def)
  moreover obtain ps where "parentsForEach sha s hs (acc @ [c]) = ((acc @ [c]) @ ps, Ok ())" "map c_Hash ps = hs" "\<forall>p \<in> set ps. loaded (GetCommit sha s) U p"
    using Cons.IH [of "acc @ [c]"] Cons.prems by auto
  ultimately show ?case using c by (intro exI [of _ "c # ps"]) simp
qed simp

lemma post_next:
  assumes "history (GetCommit sha s) U"
  shows "post_fits sha s U w \<Longrightarrow>
    post_frontier w \<subseteq> post_seen w \<and> fst (commitPostIterator_Next sha s w) = Error EOF \<or>
    (\<exists>c w'. walk_step (GetCommit sha s) (parents (GetCommit sha s)) (commitPostIterator_Next sha s) post_frontier post_seen w c w' \<and> post_fits sha s U w')"
proof (induction "length (post_stack w)" arbitrary: w)
  case 0
  then show ?case by (subst commitPostIterator_Next.simps) (simp add: post_frontier_def)
next
  case (Suc n)
  then obtain c q where q: "post_stack w = c # q" by (cases "post_stack w") auto
  let ?w1 = "w\<lparr>post_stack := q\<rparr>" and ?h = "c_Hash c"
  have c: "loaded (GetCommit sha s) U c" and fits: "post_fits sha s U ?w1" using Suc.prems q by (simp_all add: post_fits_def)
  show ?case
  proof (cases "?h \<in> post_seen w")
    case True
    then have eq: "commitPostIterator_Next sha s w = commitPostIterator_Next sha s ?w1"
      using q by (subst commitPostIterator_Next.simps) simp
    have "post_frontier w = insert ?h (post_frontier ?w1)" using q by (simp add: post_frontier_def)
    moreover note Suc.hyps(1) [of ?w1] Suc.hyps(2) q fits
    ultimately show ?thesis using eq True walk_step_skip [OF _ eq, where frontier = post_frontier and avoided = post_seen] by fastforce
  next
    case False
    obtain ps where ps: "parentsForEach sha s (c_ParentHashes c) [] = (ps, Ok ())" "map c_Hash ps = c_ParentHashes c"
        "\<forall>p \<in> set ps. loaded (GetCommit sha s) U p"
      using parentsForEach_ok [OF assms loaded_parents [OF assms c], of "[]"] by auto
    let ?w' = "w\<lparr>post_stack := rev ps @ q, post_seen := insert ?h (post_seen w)\<rparr>"
    have "commitPostIterator_Next sha s w = (Ok c, ?w')" using q False ps(1) by (subst commitPostIterator_Next.simps) simp
    moreover have "post_frontier ?w' = post_frontier ?w1 \<union> set (c_ParentHashes c)" "post_frontier w = insert ?h (post_frontier ?w1)"
      using q ps(2) [symmetric] by (auto simp: post_frontier_def)
    ultimately have "walk_step (GetCommit sha s) (parents (GetCommit sha s)) (commitPostIterator_Next sha s) post_frontier post_seen w c ?w'"
      using False c unfolding walk_step_def loaded_def parents_def by auto
    moreover have "post_fits sha s U ?w'" using fits ps(3) by (auto simp: post_fits_def)
    ultimately show ?thesis by blast
  qed
qed

interpretation post: commit_walk "GetCommit sha s" "parents (GetCommit sha s)" "commitPostIterator_Next sha s" post_frontier post_seen "post_fits sha s" for sha s
proof
  show "post_frontier w \<subseteq> U" if "post_fits sha s U w" for U w using that by (auto simp: post_fits_def post_frontier_def loaded_def)
qed (rule post_next)

subsection \<open>Breadth-first with filters\<close>

definition fi_frontier :: "filterCommitIter \<Rightarrow> ObjectID set" where
  "fi_frontier w = c_Hash ` set (fi_queue w)"

definition fi_fits :: "digest \<Rightarrow> objects \<Rightarrow> ObjectID set \<Rightarrow> filterCommitIter \<Rightarrow> bool" where
  "fi_fits sha s U w \<longleftrightarrow> fi_lastErr w = None \<and> (\<forall>c \<in> set (fi_queue w). loaded (GetCommit sha s) U c)"

definition limited :: "ObjectID set \<Rightarrow> (ObjectID \<Rightarrow> ObjectID set) \<Rightarrow> ObjectID \<Rightarrow> ObjectID set" where
  "limited L succs h = (if h \<in> L then {} else succs h)"

lemma popNew_None: "popNew V q = None \<longleftrightarrow> c_Hash ` set q \<subseteq> V"
  by (induction q) auto

lemma popNew_Some:
  "popNew V q = Some (c, q') \<Longrightarrow> c_Hash c \<notin> V \<and> c \<in> set q \<and> set q' \<subseteq> set q \<and> c_Hash ` set q \<union> V = insert (c_Hash c) (c_Hash ` set q') \<union> V"
  by (induction q) (auto split: if_splits)

lemma addToQueue_ok:
  assumes "history (GetCommit sha s) U" and "set hs \<subseteq> U" and "fi_fits sha s U w"
  shows "\<exists>w'. addToQueue sha s w hs = (w', Ok ()) \<and> fi_fits sha s U w' \<and> fi_visited w' = fi_visited w \<and>
    fi_frontier w' \<union> fi_visited w = fi_frontier w \<union> set hs \<union> fi_visited w"
  using assms(2,3)
proof (induction hs arbitrary: w)
  case (Cons h hs)
  obtain c where c: "GetCommit sha s h = Ok c" "c_Hash c = h" "loaded (GetCommit sha s) U c"
    using history_load [OF assms(1), of h] Cons.prems(1) by auto
  show ?case
  proof (cases "h \<in> fi_visited w")
    case True
    then show ?thesis using Cons.IH [of w] Cons.prems by auto
  next
    case False
    let ?w = "w\<lparr>fi_queue := fi_queue w @ [c]\<rparr>"
    have "fi_fits sha s U ?w" using Cons.prems(2) c(3) by (auto simp: fi_fits_def)
    moreover have "fi_frontier ?w = insert h (fi_frontier w)" using c(2) by (simp add: fi_frontier_def)
    ultimately show ?thesis using Cons.IH [of ?w] Cons.prems(1) False c(1) by auto
  qed
qed simp

lemma fi_next:
  assumes "history (GetCommit sha s) U" and "fi_fits sha s U w"
  shows "fi_frontier w \<subseteq> fi_visited w \<and> fst (filterCommitIter_visit sha s (\<lambda>c. c_Hash c \<in> L) w) = Error EOF \<or>
    (\<exists>c w'. walk_step (GetCommit sha s) (limited L (parents (GetCommit sha s))) (filterCommitIter_visit sha s (\<lambda>c. c_Hash c \<in> L))
       fi_frontier fi_visited w c w' \<and> fi_fits sha s U w')"
proof (cases "popNew (fi_visited w) (fi_queue w)")
  case None
  then have "fst (filterCommitIter_visit sha s (\<lambda>c. c_Hash c \<in> L) w) = Error EOF"
    using assms(2) by (simp add: filterCommitIter_visit_def popNewFromQueue_def fi_fits_def)
  with None show ?thesis by (simp add: popNew_None fi_frontier_def)
next
  case (Some res)
  then obtain c q where pop: "popNew (fi_visited w) (fi_queue w) = Some (c, q)" by (cases res) auto
  note c = popNew_Some [OF pop]
  let ?h = "c_Hash c"
  let ?w2 = "w\<lparr>fi_queue := q, fi_visited := insert ?h (fi_visited w)\<rparr>"
  have ld: "loaded (GetCommit sha s) U c" and fits: "fi_fits sha s U ?w2" using assms(2) c by (auto simp: fi_fits_def)
  obtain w' where w': "(if ?h \<in> L then (?w2, Ok ()) else addToQueue sha s ?w2 (c_ParentHashes c)) = (w', Ok ())" "fi_fits sha s U w'"
      "fi_visited w' = fi_visited ?w2"
      "fi_frontier w' \<union> fi_visited ?w2 = fi_frontier ?w2 \<union> limited L (parents (GetCommit sha s)) ?h \<union> fi_visited ?w2"
    using addToQueue_ok [OF assms(1) loaded_parents [OF assms(1) ld] fits] fits ld
    by (cases "?h \<in> L") (auto simp: limited_def parents_def loaded_def)
  have "filterCommitIter_visit sha s (\<lambda>c. c_Hash c \<in> L) w = (Ok c, w')"
    using pop w'(1) by (cases "?h \<in> L") (simp_all add: filterCommitIter_visit_def popNewFromQueue_def Let_def)
  moreover have "fi_frontier w \<union> fi_visited w = insert ?h (fi_frontier ?w2) \<union> fi_visited w" "?h \<in> fi_frontier w"
    using c by (auto simp: fi_frontier_def)
  ultimately have "walk_step (GetCommit sha s) (limited L (parents (GetCommit sha s))) (filterCommitIter_visit sha s (\<lambda>c. c_Hash c \<in> L))
      fi_frontier fi_visited w c w'"
    using w'(3,4) c ld unfolding walk_step_def loaded_def by auto
  with w'(2) show ?thesis by blast
qed

interpretation filtered: commit_walk "GetCommit sha s" "limited L (parents (GetCommit sha s))" "filterCommitIter_visit sha s (\<lambda>c. c_Hash c \<in> L)"
    fi_frontier fi_visited "fi_fits sha s" for sha s L
proof
  show "fi_frontier w \<subseteq> U" if "fi_fits sha s U w" for U w using that by (auto simp: fi_fits_def fi_frontier_def loaded_def)
qed (rule fi_next)

lemma filterCommitIter_visit_cases:
  "filterCommitIter_visit sha s P w =
     (case popNew (fi_visited w) (fi_queue w) of
        None \<Rightarrow> (let e = (case fi_lastErr w of Some e \<Rightarrow> e | None \<Rightarrow> EOF) in (Error e, fi_close (w\<lparr>fi_queue := []\<rparr>) e))
      | Some (c, q) \<Rightarrow>
          (let w2 = w\<lparr>fi_queue := q, fi_visited := insert (c_Hash c) (fi_visited w)\<rparr>
           in case (if P c then (w2, Ok ()) else addToQueue sha s w2 (c_ParentHashes c)) of
                (w3, Error e) \<Rightarrow> (Error e, fi_close w3 e)
              | (w3, Panic) \<Rightarrow> (Panic, w3)
              | (w3, Ok u) \<Rightarrow> (Ok c, w3)))"
  by (cases "popNew (fi_visited w) (fi_queue w)") (auto simp: filterCommitIter_visit_def popNewFromQueue_def Let_def)

lemma filterCommitIter_visit_cong:
  assumes "\<And>c. c_Hash c \<notin> fi_visited w \<Longrightarrow> P c = Q c"
  shows "filterCommitIter_visit sha s P w = filterCommitIter_visit sha s Q w"
proof (cases "popNew (fi_visited w) (fi_queue w)")
  case (Some res)
  then have "P (fst res) = Q (fst res)" using assms [of "fst res"] popNew_Some [of "fi_visited w" "fi_queue w" "fst res" "snd res"] by simp
  with Some show ?thesis by (cases res) (simp add: filterCommitIter_visit_cases)
qed (simp add: filterCommitIter_visit_cases)

lemma addToQueue_visited: "addToQueue sha s w hs = (w', r) \<Longrightarrow> fi_visited w' = fi_visited w"
proof (induction hs arbitrary: w)
  case (Cons h hs)
  then show ?case using Cons.IH [of w] by (cases "GetCommit sha s h") (auto split: if_splits dest: Cons.IH)
qed simp

lemma filterCommitIter_visit_visited:
  assumes "filterCommitIter_visit sha s P w = (Ok c, w')"
  shows "fi_visited w' = insert (c_Hash c) (fi_visited w)"
proof (cases "popNew (fi_visited w) (fi_queue w)")
  case (Some res)
  obtain d q where res: "res = (d, q)" by fastforce
  let ?w2 = "w\<lparr>fi_queue := q, fi_visited := insert (c_Hash d) (fi_visited w)\<rparr>"
  obtain w3 r where add: "(if P d then (?w2, Ok ()) else addToQueue sha s ?w2 (c_ParentHashes d)) = (w3, r)" by fastforce
  then have "fi_visited w3 = fi_visited ?w2" using addToQueue_visited [of sha s ?w2 "c_ParentHashes d" w3 r] by (auto split: if_splits)
  moreover have "w3 = w' \<and> d = c" using assms add unfolding filterCommitIter_visit_cases Some res by (cases r) (simp_all add: Let_def)
  ultimately show ?thesis by simp
qed (use assms in \<open>simp add: filterCommitIter_visit_cases Let_def\<close>)

text \<open>
  The callback may change what the limit answers, as long as it does so on the commits already visited: the walk
  is that with the limit of its start.
\<close>

lemma filterCommitIter_ForEach_run:
  assumes "run (filterCommitIter_visit sha s (\<lambda>c. c_Hash c \<in> L)) w xs"
    and "\<And>c. c_Hash c \<notin> fi_visited w \<Longrightarrow> isLimit st c \<longleftrightarrow> c_Hash c \<in> L"
    and "\<And>st c st' d. cb st c = (st', Ok ()) \<Longrightarrow> c_Hash d \<noteq> c_Hash c \<Longrightarrow> isLimit st' d = isLimit st d"
  shows "\<exists>w'. filterCommitIter_ForEach sha s (\<lambda>_. isValid) isLimit cb w st =
    Some (fst (visit cb st (filter isValid xs)), w', snd (visit cb st (filter isValid xs)))"
  using assms(1,2)
proof (induction arbitrary: st rule: run.induct)
  case (stop w)
  have "filterCommitIter_visit sha s (isLimit st) w = filterCommitIter_visit sha s (\<lambda>c. c_Hash c \<in> L) w"
    by (rule filterCommitIter_visit_cong) (rule stop.prems)
  with stop.hyps obtain w' where "filterCommitIter_visit sha s (isLimit st) w = (Error EOF, w')" by (metis prod.collapse)
  then show ?case
    by (simp add: filterCommitIter_ForEach.simps [of sha s "\<lambda>_. isValid" isLimit cb w] filterCommitIter_Next.simps [of sha s isValid "isLimit st" w])
next
  case (yield w c w' xs)
  have vis: "filterCommitIter_visit sha s (isLimit st) w = (Ok c, w')"
    using filterCommitIter_visit_cong [of w "isLimit st" "\<lambda>c. c_Hash c \<in> L" sha s] yield.prems yield.hyps(1) by simp
  have V: "fi_visited w' = insert (c_Hash c) (fi_visited w)" using filterCommitIter_visit_visited [OF vis] .
  note unfold = filterCommitIter_ForEach.simps [of sha s "\<lambda>_. isValid" isLimit cb w] filterCommitIter_Next.simps [of sha s isValid "isLimit st" w]
  show ?case
  proof (cases "isValid c")
    case False
    then have "filterCommitIter_ForEach sha s (\<lambda>_. isValid) isLimit cb w st = filterCommitIter_ForEach sha s (\<lambda>_. isValid) isLimit cb w' st"
      using vis by (simp add: unfold filterCommitIter_ForEach.simps [of sha s "\<lambda>_. isValid" isLimit cb w'])
    with False show ?thesis using yield.IH [of st] yield.prems V by simp
  next
    case True
    obtain st' e where cb: "cb st c = (st', e)" by fastforce
    show ?thesis
    proof (cases e)
      case (Ok u)
      then have "isLimit st' d \<longleftrightarrow> c_Hash d \<in> L" if "c_Hash d \<notin> fi_visited w'" for d
        using assms(3) [of st c st' d] cb yield.prems [of d] that V by simp
      from yield.IH [OF this] show ?thesis using True vis cb Ok by (simp add: unfold)
    qed (use True vis cb in \<open>simp_all add: unfold\<close>)
  qed
qed

section \<open>What the iterators visit\<close>

abbreviation walks_over ::
    "(ObjectID \<Rightarrow> Commit result) \<Rightarrow> (('st \<Rightarrow> Commit \<Rightarrow> 'st \<times> unit result) \<Rightarrow> 'st \<Rightarrow> ('st \<times> 'i \<times> unit result) option) \<Rightarrow> ObjectID set \<Rightarrow> bool" where
  "walks_over get forEach H \<equiv>
     \<exists>xs. enumerates get xs H \<and> (\<forall>cb st. \<exists>w. forEach cb st = Some (fst (visit cb st xs), w, snd (visit cb st xs)))"

lemma CommitPreorderIter_run:
  assumes "history (GetCommit sha s) U" and "loaded (GetCommit sha s) U c"
  shows "\<exists>xs. run (commitPreIterator_Next sha s) (NewCommitPreorderIter c seenExternal ignore) xs \<and>
    enumerates (GetCommit sha s) xs (reached (parents (GetCommit sha s)) (seenExternal \<union> set ignore) {c_Hash c})"
proof -
  let ?w = "NewCommitPreorderIter c seenExternal ignore"
  have "pre_fits sha s U ?w" using assms(2) by (simp add: pre_fits_def NewCommitPreorderIter_def)
  moreover have "pre_frontier ?w = {c_Hash c}" "pre_avoided ?w = seenExternal \<union> set ignore"
    by (auto simp: pre_frontier_def pre_avoided_def NewCommitPreorderIter_def)
  ultimately show ?thesis using pre.walk_run [OF assms(1), of ?w] by simp
qed

lemma CommitPostorderIter_run:
  assumes "history (GetCommit sha s) U" and "loaded (GetCommit sha s) U c"
  shows "\<exists>xs. run (commitPostIterator_Next sha s) (NewCommitPostorderIter c ignore) xs \<and>
    enumerates (GetCommit sha s) xs (reached (parents (GetCommit sha s)) (set ignore) {c_Hash c})"
  using post.walk_run [OF assms(1), of "NewCommitPostorderIter c ignore"] assms(2)
  by (simp add: post_fits_def post_frontier_def NewCommitPostorderIter_def)

lemma CommitIterBSF_run:
  assumes "history (GetCommit sha s) U" and "loaded (GetCommit sha s) U c"
  shows "\<exists>xs. run (bfsCommitIterator_Next sha s) (NewCommitIterBSF c seenExternal ignore) xs \<and>
    enumerates (GetCommit sha s) xs (reached (parents (GetCommit sha s)) (seenExternal \<union> set ignore) {c_Hash c})"
  using bfs.walk_run [OF assms(1), of "NewCommitIterBSF c seenExternal ignore"] assms(2)
  by (simp add: bfs_fits_def bfs_frontier_def bfs_avoided_def NewCommitIterBSF_def Un_commute)

lemma FilterCommitIter_run:
  assumes "history (GetCommit sha s) U" and "loaded (GetCommit sha s) U c"
  shows "\<exists>xs. run (filterCommitIter_visit sha s (\<lambda>c. c_Hash c \<in> L)) (NewFilterCommitIter c) xs \<and>
    enumerates (GetCommit sha s) xs (reached (limited L (parents (GetCommit sha s))) {} {c_Hash c})"
  using filtered.walk_run [OF assms(1), of "NewFilterCommitIter c" L] assms(2)
  by (simp add: fi_fits_def fi_frontier_def NewFilterCommitIter_def)

text \<open>
  C33. Over a finite history whose commits are all stored, the pre-order, the post-order and the breadth-first
  iterator end, and each calls its callback once for every commit that is reached from the start along parents
  without touching the commits to ignore, until the callback stops it.
\<close>

theorem commit_walks_visit_history:
  assumes "history (GetCommit sha s) U" and "loaded (GetCommit sha s) U c"
  shows "walks_over (GetCommit sha s) (\<lambda>cb. forEachCommit (commitPreIterator_Next sha s) cb (NewCommitPreorderIter c seenExternal ignore))
       (reached (parents (GetCommit sha s)) (seenExternal \<union> set ignore) {c_Hash c}) \<and>
     walks_over (GetCommit sha s) (\<lambda>cb. forEachCommit (commitPostIterator_Next sha s) cb (NewCommitPostorderIter c ignore))
       (reached (parents (GetCommit sha s)) (set ignore) {c_Hash c}) \<and>
     walks_over (GetCommit sha s) (bfsCommitIterator_ForEach sha s (NewCommitIterBSF c seenExternal ignore))
       (reached (parents (GetCommit sha s)) (seenExternal \<union> set ignore) {c_Hash c})"
proof (intro conjI)
  show "walks_over (GetCommit sha s) (\<lambda>cb. forEachCommit (commitPreIterator_Next sha s) cb (NewCommitPreorderIter c seenExternal ignore))
       (reached (parents (GetCommit sha s)) (seenExternal \<union> set ignore) {c_Hash c})"
    using CommitPreorderIter_run [OF assms] forEachCommit_run by meson
  show "walks_over (GetCommit sha s) (\<lambda>cb. forEachCommit (commitPostIterator_Next sha s) cb (NewCommitPostorderIter c ignore))
       (reached (parents (GetCommit sha s)) (set ignore) {c_Hash c})"
    using CommitPostorderIter_run [OF assms] forEachCommit_run by meson
  show "walks_over (GetCommit sha s) (bfsCommitIterator_ForEach sha s (NewCommitIterBSF c seenExternal ignore))
       (reached (parents (GetCommit sha s)) (seenExternal \<union> set ignore) {c_Hash c})"
    using CommitIterBSF_run [OF assms] running.forEach_traverses unfolding bfsCommitIterator_ForEach_def by meson
qed

text \<open>A history of a root, two commits on it and their merge.\<close>

definition sample_with :: "ObjectID list \<Rightarrow> string \<Rightarrow> Commit" where
  "sample_with ps message = sample_commit\<lparr>c_ParentHashes := ps, c_PGPSignature := [], c_Message := message\<rparr>"

definition sample_id :: "Commit \<Rightarrow> ObjectID" where
  "sample_id c = fst (MemoryObject_Hash toy_sha (Commit_Encode c newMemoryObject))"

definition sample_oid :: "byte \<Rightarrow> ObjectID" where
  "sample_oid n = \<lparr>oid_hash = n # replicate 19 7 @ replicate 12 0, oid_format = SHA1\<rparr>"

definition sample_contents :: "Commit list" where
  "sample_contents =
     [sample_with [] [], sample_with [sample_oid 118] [], sample_with [sample_oid 118] ''b'',
      sample_with [sample_oid 166, sample_oid 167] []]"

definition sample_ids :: "ObjectID list" where
  "sample_ids = map sample_oid [118, 166, 167, 214]"

definition sample_history :: objects where
  "sample_history ty h =
     (case List.find (\<lambda>c. sample_id c = h) sample_contents of
        Some c \<Rightarrow> Ok (Commit_Encode c newMemoryObject)
      | None \<Rightarrow> Error EOF)"

lemma sample_ids: "map sample_id sample_contents = sample_ids"
  by code_simp

lemma sample_ids_ok: "distinct sample_ids \<and> (\<forall>h \<in> set sample_ids. sha1_id h)"
  by (simp add: sample_ids_def sample_oid_def sha1_id_def wf_oid_def SHA256Size_def SHA1Size_def)

lemma sample_with_ok: "(\<forall>h \<in> set ps. sha1_id h) \<Longrightarrow> commit_ok (sample_with ps message)"
  using sample_commit_ok by (simp add: commit_ok_def sample_with_def)

lemma sample_parents:
  assumes "c \<in> set sample_contents"
  obtains ps message where "c = sample_with ps message" "set ps \<subseteq> set sample_ids"
  using assms by (auto simp: sample_contents_def sample_ids_def)

lemma sample_stored:
  assumes "c \<in> set sample_contents"
  shows "GetCommit toy_sha sample_history (sample_id c) = Ok (c\<lparr>c_Hash := sample_id c\<rparr>)"
proof -
  obtain ps message where c: "c = sample_with ps message" "set ps \<subseteq> set sample_ids" by (rule sample_parents [OF assms])
  then have "commit_ok c" using sample_with_ok sample_ids_ok by blast
  moreover have "c_MergeTag c = []" "c_PGPSignature c = []" "c_Encoding c \<noteq> []" "c_Author c = c_Author sample_commit"
      "c_Committer c = c_Committer sample_commit"
    by (simp_all add: c(1) sample_with_def sample_commit_def)
  then have "stored_commit c = c" using sample_signatures by (cases c) (simp add: stored_commit_def)
  ultimately have "DecodeCommit toy_sha (Commit_Encode c newMemoryObject) = Ok (c\<lparr>c_Hash := sample_id c\<rparr>)"
    using Commit_Decode_Encode [of c toy_sha] by (simp add: sample_id_def)
  moreover have "List.find (\<lambda>d. sample_id d = sample_id c) cs = Some c" if "c \<in> set cs" "distinct (map sample_id cs)" for cs
    using that by (induction cs) auto
  ultimately show ?thesis using sample_ids_ok assms by (simp add: GetCommit_def sample_history_def sample_ids)
qed

lemma sample_is_history: "history (GetCommit toy_sha sample_history) (set sample_ids)"
  unfolding history_def
proof (intro conjI ballI)
  fix h assume "h \<in> set sample_ids"
  then obtain c where c: "c \<in> set sample_contents" "h = sample_id c" unfolding sample_ids [symmetric] by auto
  obtain ps message where ps: "c = sample_with ps message" "set ps \<subseteq> set sample_ids" by (rule sample_parents [OF c(1)])
  then have "c_ParentHashes c = ps" by (simp add: sample_with_def)
  then show "\<exists>c. GetCommit toy_sha sample_history h = Ok c \<and> c_Hash c = h \<and> set (c_ParentHashes c) \<subseteq> set sample_ids"
    using sample_stored [OF c(1)] c(2) ps(2) by simp
qed simp

definition sample_at :: "nat \<Rightarrow> Commit" where
  "sample_at i = (sample_contents ! i)\<lparr>c_Hash := sample_ids ! i\<rparr>"

lemma sample_loaded: "i < 4 \<Longrightarrow> loaded (GetCommit toy_sha sample_history) (set sample_ids) (sample_at i)"
proof -
  assume "i < 4"
  then have "i < length sample_contents" by (simp add: sample_contents_def)
  then show ?thesis using sample_stored [of "sample_contents ! i"] 
    unfolding loaded_def sample_at_def sample_ids [symmetric] by simp
qed

theorem commit_walks_visit_history_witness:
  "walks_over (GetCommit toy_sha sample_history)
     (bfsCommitIterator_ForEach toy_sha sample_history (NewCommitIterBSF (sample_at 3) {} [sample_ids ! 0]))
     (reached (parents (GetCommit toy_sha sample_history)) ({} \<union> set [sample_ids ! 0]) {c_Hash (sample_at 3)})"
  by (rule commit_walks_visit_history [OF sample_is_history sample_loaded, THEN conjunct2, THEN conjunct2]) simp

end
