(* ===== verification/MergeBase.thy ===== *)
theory MergeBase
  imports History "HOL-Library.Multiset"
begin

text \<open>
  Common ancestors: \<^verbatim>\<open>plumbing/object/merge_base.go\<close>. The sort of the standard library is an argument, as it
  leaves the order of commits of the same date open: nothing but that it permutes its input is used.
\<close>

section \<open>Lists of commits\<close>

type_synonym sorter = "(Commit \<Rightarrow> Commit \<Rightarrow> bool) \<Rightarrow> Commit list \<Rightarrow> Commit list"

definition sortByCommitDateDesc :: "sorter \<Rightarrow> Commit list \<Rightarrow> Commit list" where
  "sortByCommitDateDesc sort_Slice commits =
     sort_Slice (\<lambda>a b. Time_After (sig_When (c_Committer a)) (sig_When (c_Committer b))) commits"

fun indexOf :: "Commit list \<Rightarrow> Commit \<Rightarrow> int" where
  "indexOf [] target = -1"
| "indexOf (c # cs) target =
     (if c_Hash target = c_Hash c then 0 else let i = indexOf cs target in if i = -1 then -1 else i + 1)"

definition remove :: "Commit list \<Rightarrow> Commit \<Rightarrow> Commit list" where
  "remove commits toDelete = filter (\<lambda>c. c_Hash c \<noteq> c_Hash toDelete) commits"

fun removeSeen :: "ObjectID set \<Rightarrow> Commit list \<Rightarrow> Commit list" where
  "removeSeen seen [] = []"
| "removeSeen seen (c # cs) = (if c_Hash c \<in> seen then removeSeen seen cs else c # removeSeen (insert (c_Hash c) seen) cs)"

definition removeDuplicated :: "Commit list \<Rightarrow> Commit list" where
  "removeDuplicated commits = removeSeen {} commits"

definition isInIndexCommitFilter :: "ObjectID set \<Rightarrow> CommitFilter" where
  "isInIndexCommitFilter index c \<longleftrightarrow> c_Hash c \<in> index"

section \<open>Ancestors\<close>

definition IsAncestor :: "digest \<Rightarrow> objects \<Rightarrow> Commit \<Rightarrow> Commit \<Rightarrow> (bool \<times> unit result) option" where
  "IsAncestor sha s c other =
     map_option (\<lambda>(found, w, err). (found, err))
       (forEachCommit (commitPreIterator_Next sha s)
          (\<lambda>found comm. if c_Hash comm \<noteq> c_Hash c then (found, Ok ()) else (True, Error ErrStop))
          (NewCommitPreorderIter other {} []) False)"

abbreviation errIsReachable :: error where "errIsReachable \<equiv> Sentinel ''errIsReachable''"

definition ancestorsIndex :: "digest \<Rightarrow> objects \<Rightarrow> Commit \<Rightarrow> Commit \<Rightarrow> ObjectID set result option" where
  "ancestorsIndex sha s excluded starting =
     (if ObjectID_String (c_Hash excluded) = ObjectID_String (c_Hash starting) then Some (Error errIsReachable)
      else map_option (\<lambda>(startingHistory, w, err). rbind err (\<lambda>_. Ok startingHistory))
             (bfsCommitIterator_ForEach sha s (NewCommitIterBSF starting {} [])
                (\<lambda>startingHistory commit.
                   if c_Hash commit = c_Hash excluded then (startingHistory, Error errIsReachable)
                   else (insert (c_Hash commit) startingHistory, Ok ())) {}))"

section \<open>Independent commits\<close>

text \<open>The callback of \<^verbatim>\<open>Independents\<close> on its candidates, the others and what is seen. Its loop ranges over the others as they were.\<close>

type_synonym independents = "Commit list \<times> Commit list \<times> ObjectID set"

fun removeOthers :: "Commit \<Rightarrow> Commit list \<Rightarrow> Commit list \<times> Commit list \<Rightarrow> Commit list \<times> Commit list" where
  "removeOthers fromAncestor [] acc = acc"
| "removeOthers fromAncestor (other # os) (candidates, others) =
     removeOthers fromAncestor os
       (if c_Hash fromAncestor = c_Hash other then (remove candidates other, remove others other) else (candidates, others))"

definition independents_visit :: "independents \<Rightarrow> Commit \<Rightarrow> independents \<times> unit result" where
  "independents_visit = (\<lambda>(candidates, others, seen) fromAncestor.
     let (candidates, others) = removeOthers fromAncestor others (candidates, others)
     in if length candidates = 1 then ((candidates, others, seen), Error ErrStop)
        else ((candidates, others, insert (c_Hash fromAncestor) seen), Ok ()))"

definition independents_limit :: "independents \<Rightarrow> CommitFilter" where
  "independents_limit = (\<lambda>(candidates, others, seen) commit. c_Hash commit \<in> seen)"

partial_function (option) independents_loop :: "digest \<Rightarrow> objects \<Rightarrow> Commit list \<Rightarrow> ObjectID set \<Rightarrow> nat \<Rightarrow> Commit list result option" where
  "independents_loop sha s candidates seen pos =
     (if pos \<ge> length candidates then Some Panic
      else let from = candidates ! pos
           in case filterCommitIter_ForEach sha s (\<lambda>_ _. True) independents_limit independents_visit
                     (NewFilterCommitIter from) (candidates, remove candidates from, seen) of
                None \<Rightarrow> None
              | Some (st, w, Error e) \<Rightarrow> Some (Error e)
              | Some (st, w, Panic) \<Rightarrow> Some Panic
              | Some ((candidates', others', seen'), w, Ok u) \<Rightarrow>
                  let nextPos = nat (indexOf candidates' from + 1)
                  in if nextPos \<ge> length candidates' then Some (Ok candidates') else independents_loop sha s candidates' seen' nextPos)"

definition Independents :: "digest \<Rightarrow> objects \<Rightarrow> sorter \<Rightarrow> Commit list \<Rightarrow> Commit list result option" where
  "Independents sha s sort_Slice commits =
     (let candidates = removeDuplicated (sortByCommitDateDesc sort_Slice commits)
      in if length candidates < 2 then Some (Ok candidates) else independents_loop sha s candidates {} 0)"

section \<open>Merge bases\<close>

definition MergeBase :: "digest \<Rightarrow> objects \<Rightarrow> sorter \<Rightarrow> Commit \<Rightarrow> Commit \<Rightarrow> Commit list result option" where
  "MergeBase sha s sort_Slice c other =
     (let sorted = sortByCommitDateDesc sort_Slice [c, other]; newer = sorted ! 0; older = sorted ! 1
      in case ancestorsIndex sha s older newer of
           None \<Rightarrow> None
         | Some Panic \<Rightarrow> Some Panic
         | Some (Error e) \<Rightarrow> Some (if e = errIsReachable then Ok [older] else Error e)
         | Some (Ok newerHistory) \<Rightarrow>
             (case filterCommitIter_ForEach sha s (\<lambda>_. isInIndexCommitFilter newerHistory) (\<lambda>_. isInIndexCommitFilter newerHistory)
                     (\<lambda>res commit. (res @ [commit], Ok ())) (NewFilterCommitIter older) [] of
                None \<Rightarrow> None
              | Some (res, w, Panic) \<Rightarrow> Some Panic
              | Some (res, w, err) \<Rightarrow> Independents sha s sort_Slice res))"

section \<open>Correctness of the lists\<close>

definition acyclic_history :: "(ObjectID \<Rightarrow> Commit result) \<Rightarrow> ObjectID set \<Rightarrow> bool" where
  "acyclic_history get U \<longleftrightarrow> history get U \<and> (\<forall>h \<in> U. sha1_id h) \<and> (\<forall>x \<in> U. \<forall>y \<in> U. x \<in> reach get y \<and> y \<in> reach get x \<longrightarrow> x = y)"

lemma removeSeen_hashes: "c_Hash ` set (removeSeen seen cs) = c_Hash ` set cs - seen"
  by (induction seen cs rule: removeSeen.induct) auto

lemma removeSeen_distinct: "distinct (map c_Hash (removeSeen seen cs))"
  by (induction seen cs rule: removeSeen.induct) (auto simp: removeSeen_hashes)

lemma removeSeen_subset: "set (removeSeen seen cs) \<subseteq> set cs"
  by (induction seen cs rule: removeSeen.induct) auto

lemma set_removeDuplicated:
  assumes "\<forall>c \<in> set cs. get (c_Hash c) = Ok c"
  shows "set (removeDuplicated cs) = set cs"
proof
  show "set cs \<subseteq> set (removeDuplicated cs)"
  proof
    fix c assume c: "c \<in> set cs"
    then have "c_Hash c \<in> c_Hash ` set (removeDuplicated cs)" by (simp add: removeDuplicated_def removeSeen_hashes)
    then obtain d where d: "d \<in> set (removeDuplicated cs)" "c_Hash d = c_Hash c" by auto
    then have "d \<in> set cs" using removeSeen_subset [of "{}" cs] by (auto simp: removeDuplicated_def)
    then have "Ok d = Ok c" using assms c d(2) by metis
    with d(1) show "c \<in> set (removeDuplicated cs)" by simp
  qed
qed (simp add: removeDuplicated_def removeSeen_subset)

lemma indexOf_at:
  "\<forall>c \<in> set pre. c_Hash c \<noteq> c_Hash p \<Longrightarrow> indexOf (pre @ p # post) p = int (length pre)"
  by (induction pre) auto

lemma removeOthers_conv:
  "removeOthers fa os (cands, others) =
     (if c_Hash fa \<in> c_Hash ` set os then (filter (\<lambda>c. c_Hash c \<noteq> c_Hash fa) cands, filter (\<lambda>c. c_Hash c \<noteq> c_Hash fa) others)
      else (cands, others))"
  by (induction os arbitrary: cands others) (auto simp: remove_def)

section \<open>Ancestors are found\<close>

lemma visit_find:
  "visit (\<lambda>found comm. if c_Hash comm \<noteq> h then (found, Ok ()) else (True, Error ErrStop)) False xs = (h \<in> c_Hash ` set xs, Ok ())"
  by (induction xs) auto

text \<open>
  C34. \<^verbatim>\<open>IsAncestor\<close> answers whether the commit is reached from the other along parents.
\<close>

theorem IsAncestor_reach:
  assumes "history (GetCommit sha s) U" and "loaded (GetCommit sha s) U other"
  shows "IsAncestor sha s c other = Some (c_Hash c \<in> reach (GetCommit sha s) (c_Hash other), Ok ())"
proof -
  obtain xs where xs: "run (commitPreIterator_Next sha s) (NewCommitPreorderIter other {} []) xs"
      "enumerates (GetCommit sha s) xs (reach (GetCommit sha s) (c_Hash other))"
    using CommitPreorderIter_run [OF assms, of "{}" "[]"] by auto
  show ?thesis
    using forEachCommit_run [OF xs(1), of "\<lambda>found comm. if c_Hash comm \<noteq> c_Hash c then (found, Ok ()) else (True, Error ErrStop)" False]
      visit_find [of "c_Hash c" xs] xs(2)
    by (auto simp: IsAncestor_def enumerates_def)
qed

lemma visit_index:
  "visit (\<lambda>H c. if c_Hash c = h then (H, Error errIsReachable) else (insert (c_Hash c) H, Ok ())) H xs =
     (if h \<in> c_Hash ` set xs then (H \<union> c_Hash ` set (takeWhile (\<lambda>c. c_Hash c \<noteq> h) xs), Error errIsReachable) else (H \<union> c_Hash ` set xs, Ok ()))"
  by (induction xs arbitrary: H) auto

lemma ancestorsIndex_reach:
  assumes "acyclic_history (GetCommit sha s) U" and "loaded (GetCommit sha s) U excluded" and "loaded (GetCommit sha s) U starting"
  shows "ancestorsIndex sha s excluded starting =
    Some (if c_Hash excluded \<in> reach (GetCommit sha s) (c_Hash starting) then Error errIsReachable else Ok (reach (GetCommit sha s) (c_Hash starting)))"
proof (cases "c_Hash excluded = c_Hash starting")
  case False
  have ids: "sha1_id (c_Hash excluded)" "sha1_id (c_Hash starting)" using assms by (auto simp: acyclic_history_def loaded_def)
  with False have str: "ObjectID_String (c_Hash excluded) \<noteq> ObjectID_String (c_Hash starting)" using NewHash_text by metis
  have hist: "history (GetCommit sha s) U" using assms(1) by (simp add: acyclic_history_def)
  obtain xs where xs: "run (bfsCommitIterator_Next sha s) (NewCommitIterBSF starting {} []) xs"
      "enumerates (GetCommit sha s) xs (reach (GetCommit sha s) (c_Hash starting))"
    using CommitIterBSF_run [OF hist assms(3), of "{}" "[]"] by auto
  show ?thesis
    using running.forEach_traverses [OF xs(1), of "\<lambda>w. w"
        "\<lambda>H c. if c_Hash c = c_Hash excluded then (H, Error errIsReachable) else (insert (c_Hash c) H, Ok ())" "{}"]
      visit_index [of "c_Hash excluded" "{}" xs] str xs(2)
    by (auto simp: ancestorsIndex_def bfsCommitIterator_ForEach_def enumerates_def)
qed (simp add: ancestorsIndex_def)

section \<open>Walks up to what is seen\<close>

lemma limited_reach:
  assumes "h \<in> reached (limited L succs) {} F"
  shows "h \<in> reached succs {} F"
  using assms by (induction rule: reached.induct) (auto simp: limited_def intro: reached.intros split: if_splits)

lemma reach_limited:
  assumes "x \<in> reached succs {} {q}" and "q \<in> reached (limited L succs) {} F"
  shows "x \<in> reached (limited L succs) {} F \<or> (\<exists>q' \<in> L \<inter> reached (limited L succs) {} F. x \<in> reached succs {} {q'})"
  using assms(1)
proof (induction rule: reached.induct)
  case (start h)
  with assms(2) show ?case by simp
next
  case (parent h p)
  show ?case
  proof (cases "h \<in> reached (limited L succs) {} F \<and> h \<notin> L")
    case True
    then have "p \<in> limited L succs h" using parent.hyps(2) by (simp add: limited_def)
    with True show ?thesis using reached.parent [of h "limited L succs" "{}" F p] by blast
  next
    case False
    then obtain q' where "q' \<in> L \<inter> reached (limited L succs) {} F" "h \<in> reached succs {} {q'}"
      using parent.IH reached.start [of h "{h}" "{}" succs] by auto
    then show ?thesis using parent.hyps(2) reached.parent by fastforce
  qed
qed

section \<open>Independent commits are the maximal ones\<close>

text \<open>What a walk from \<open>from\<close> leaves of the candidates when it has visited \<open>H\<close>.\<close>

definition keep :: "Commit \<Rightarrow> ObjectID set \<Rightarrow> Commit list \<Rightarrow> Commit list" where
  "keep from H cands = filter (\<lambda>c. c_Hash c = c_Hash from \<or> c_Hash c \<notin> H) cands"

lemma keep_keep: "keep from H (keep from K cands) = keep from (K \<union> H) cands"
  unfolding keep_def filter_filter by (rule filter_cong) auto

lemma independents_visit_keep:
  fixes fa :: Commit
  defines "kept cands from \<equiv> keep from {c_Hash fa} cands"
  shows "independents_visit (cands, remove cands from, seen) fa =
    (if length (kept cands from) = 1 then ((kept cands from, remove (kept cands from) from, seen), Error ErrStop)
     else ((kept cands from, remove (kept cands from) from, insert (c_Hash fa) seen), Ok ()))"
proof -
  have "removeOthers fa (remove cands from) (cands, remove cands from) = (kept cands from, remove (kept cands from) from)"
  proof (cases "c_Hash fa \<in> c_Hash ` set (remove cands from)")
    case True
    then have ne: "c_Hash fa \<noteq> c_Hash from" by (auto simp: remove_def)
    have "kept cands from = filter (\<lambda>c. c_Hash c \<noteq> c_Hash fa) cands" unfolding kept_def keep_def
      by (rule filter_cong) (use ne in auto)
    moreover have "remove (kept cands from) from = filter (\<lambda>c. c_Hash c \<noteq> c_Hash fa) (remove cands from)"
      unfolding calculation remove_def filter_filter by (rule filter_cong) auto
    ultimately show ?thesis using True by (simp add: removeOthers_conv)
  next
    case False
    then have "kept cands from = cands" unfolding kept_def keep_def remove_def by (intro filter_True) (simp add: image_iff, metis)
    with False show ?thesis by (simp add: removeOthers_conv)
  qed
  then show ?thesis by (simp add: independents_visit_def Let_def)
qed

lemma independents_visits:
  "\<exists>cands' seen' H. visit independents_visit (cands, remove cands from, seen) xs = ((cands', remove cands' from, seen'), Ok ()) \<and>
     H \<subseteq> c_Hash ` set xs \<and> cands' = keep from H cands \<and>
     (length cands' = 1 \<or> H = c_Hash ` set xs \<and> seen' = seen \<union> H)"
proof (induction xs arbitrary: cands seen)
  case Nil
  show ?case by (auto simp: keep_def)
next
  case (Cons fa xs)
  let ?c = "keep from {c_Hash fa} cands"
  show ?case
  proof (cases "length ?c = 1")
    case True
    then show ?thesis by (auto simp: independents_visit_keep intro!: exI [of _ "{c_Hash fa}"])
  next
    case False
    obtain cands' seen' H where IH: "visit independents_visit (?c, remove ?c from, insert (c_Hash fa) seen) xs = ((cands', remove cands' from, seen'), Ok ())"
        "H \<subseteq> c_Hash ` set xs" "cands' = keep from H ?c" "length cands' = 1 \<or> H = c_Hash ` set xs \<and> seen' = insert (c_Hash fa) seen \<union> H"
      using Cons.IH [of ?c "insert (c_Hash fa) seen"] by blast
    have "visit independents_visit (cands, remove cands from, seen) (fa # xs) = ((cands', remove cands' from, seen'), Ok ())"
      using False IH(1) by (simp add: independents_visit_keep)
    moreover have "cands' = keep from (insert (c_Hash fa) H) cands" using IH(3) by (simp add: keep_keep)
    moreover have "insert (c_Hash fa) H \<subseteq> c_Hash ` set (fa # xs)" using IH(2) by auto
    moreover have "length cands' = 1 \<or> insert (c_Hash fa) H = c_Hash ` set (fa # xs) \<and> seen' = seen \<union> insert (c_Hash fa) H"
      using IH(4) by auto
    ultimately show ?thesis by blast
  qed
qed

lemma independents_walk:
  fixes seen :: "ObjectID set"
  assumes "history (GetCommit sha s) U" and "loaded (GetCommit sha s) U from"
  defines "R \<equiv> reached (limited seen (parents (GetCommit sha s))) {} {c_Hash from}"
  shows "\<exists>cands' seen' H w. filterCommitIter_ForEach sha s (\<lambda>_ _. True) independents_limit independents_visit
      (NewFilterCommitIter from) (cands, remove cands from, seen) = Some ((cands', remove cands' from, seen'), w, Ok ()) \<and>
     H \<subseteq> R \<and> cands' = keep from H cands \<and> (length cands' = 1 \<or> H = R \<and> seen' = seen \<union> R)"
proof -
  obtain xs where xs: "run (filterCommitIter_visit sha s (\<lambda>c. c_Hash c \<in> seen)) (NewFilterCommitIter from) xs" "c_Hash ` set xs = R"
    using FilterCommitIter_run [OF assms(1,2), of seen] by (auto simp: enumerates_def R_def)
  have lim: "independents_limit st' d = independents_limit st d" if "independents_visit st c = (st', Ok ())" "c_Hash d \<noteq> c_Hash c" for st c st' d
    using that by (auto simp: independents_visit_def independents_limit_def Let_def split: if_splits prod.splits)
  obtain w where "filterCommitIter_ForEach sha s (\<lambda>_ _. True) independents_limit independents_visit
      (NewFilterCommitIter from) (cands, remove cands from, seen) =
      Some (fst (visit independents_visit (cands, remove cands from, seen) xs), w, snd (visit independents_visit (cands, remove cands from, seen) xs))"
    using filterCommitIter_ForEach_run [OF xs(1), of independents_limit "(cands, remove cands from, seen)" independents_visit "\<lambda>_. True", OF _ lim]
    by (fastforce simp: independents_limit_def)
  moreover obtain cands' seen' H where
      "visit independents_visit (cands, remove cands from, seen) xs = ((cands', remove cands' from, seen'), Ok ())"
      "H \<subseteq> c_Hash ` set xs" "cands' = keep from H cands" "length cands' = 1 \<or> H = c_Hash ` set xs \<and> seen' = seen \<union> H"
    using independents_visits [of cands "from" seen xs] by blast
  ultimately show ?thesis unfolding xs(2) by (metis fst_conv snd_conv)
qed

text \<open>A commit of a list is maximal when no other one of the list reaches it.\<close>

definition maximal :: "(ObjectID \<Rightarrow> Commit result) \<Rightarrow> Commit set \<Rightarrow> Commit \<Rightarrow> bool" where
  "maximal get C x \<longleftrightarrow> (\<forall>y \<in> C. c_Hash x \<in> reach get (c_Hash y) \<longrightarrow> c_Hash y = c_Hash x)"

definition covers :: "(ObjectID \<Rightarrow> Commit result) \<Rightarrow> Commit list \<Rightarrow> Commit list \<Rightarrow> bool" where
  "covers get cands C \<longleftrightarrow> (\<exists>K. cands = filter K C) \<and> (\<forall>x \<in> set C. \<exists>y \<in> set cands. c_Hash x \<in> reach get (c_Hash y))"

definition candidates_ok :: "(ObjectID \<Rightarrow> Commit result) \<Rightarrow> ObjectID set \<Rightarrow> Commit list \<Rightarrow> bool" where
  "candidates_ok get U C \<longleftrightarrow> distinct (map c_Hash C) \<and> (\<forall>c \<in> set C. loaded get U c)"

lemma covers_maximal:
  assumes "acyclic_history get U" and "candidates_ok get U C" and "covers get cands C"
    and indep: "\<forall>x \<in> set cands. \<forall>y \<in> set cands. c_Hash x \<in> reach get (c_Hash y) \<longrightarrow> c_Hash y = c_Hash x"
  shows "cands = filter (maximal get (set C)) C"
proof -
  obtain K where K: "cands = filter K C" using assms(3) by (auto simp: covers_def)
  have "K x \<longleftrightarrow> maximal get (set C) x" if x: "x \<in> set C" for x
  proof
    assume "K x"
    then have xc: "x \<in> set cands" using x by (simp add: K)
    show "maximal get (set C) x" unfolding maximal_def
    proof (intro ballI impI)
      fix y assume y: "y \<in> set C" "c_Hash x \<in> reach get (c_Hash y)"
      then obtain z where z: "z \<in> set cands" "c_Hash y \<in> reach get (c_Hash z)" using assms(3) by (auto simp: covers_def)
      then have "c_Hash z = c_Hash x" using indep xc reach_trans [OF y(2) z(2)] by blast
      then show "c_Hash y = c_Hash x" using assms(1,2) y z x by (auto simp: acyclic_history_def candidates_ok_def loaded_def)
    qed
  next
    assume m: "maximal get (set C) x"
    obtain y where y: "y \<in> set cands" "c_Hash x \<in> reach get (c_Hash y)" using assms(3) x by (auto simp: covers_def)
    then have "c_Hash y = c_Hash x" using m K by (auto simp: maximal_def)
    then have "y = x" using assms(2) y(1) x K by (auto simp: candidates_ok_def distinct_map dest: inj_onD)
    with y(1) show "K x" by (simp add: K)
  qed
  then show ?thesis using K by (simp cong: filter_cong)
qed

lemma covers_refl: "covers get C C"
  unfolding covers_def by (intro conjI exI [of _ "\<lambda>_. True"] ballI bexI) (simp_all add: reach_refl)

lemma covers_keep:
  assumes "covers get cands C" and "p \<in> set cands" and "H \<subseteq> reach get (c_Hash p)"
  shows "covers get (keep p H cands) C"
proof -
  obtain K where K: "cands = filter K C" and cov: "\<forall>x \<in> set C. \<exists>y \<in> set cands. c_Hash x \<in> reach get (c_Hash y)"
    using assms(1) unfolding covers_def by (elim conjE exE)
  have "\<exists>K. keep p H cands = filter K C" unfolding keep_def K filter_filter by (rule exI, rule refl)
  moreover have "\<exists>y \<in> set (keep p H cands). c_Hash x \<in> reach get (c_Hash y)" if x: "x \<in> set C" for x
  proof -
    obtain y where y: "y \<in> set cands" "c_Hash x \<in> reach get (c_Hash y)" using cov x by blast
    show ?thesis
    proof (cases "y \<in> set (keep p H cands)")
      case False
      then have "c_Hash y \<in> reach get (c_Hash p)" using y(1) assms(3) by (auto simp: keep_def)
      from reach_trans [OF y(2) this] show ?thesis by (rule bexI [of _ p]) (use assms(2) in \<open>simp add: keep_def\<close>)
    qed (use y in blast)
  qed
  ultimately show ?thesis by (simp add: covers_def)
qed

text \<open>The loop: the candidates before the position are seen, the others are not, and no candidate is reached from another commit that is seen.\<close>

definition independents_inv :: "(ObjectID \<Rightarrow> Commit result) \<Rightarrow> ObjectID set \<Rightarrow> Commit list \<Rightarrow> Commit list \<Rightarrow> Commit list \<Rightarrow> ObjectID set \<Rightarrow> bool" where
  "independents_inv get U C pre rest seen \<longleftrightarrow>
     candidates_ok get U C \<and> covers get (pre @ rest) C \<and> (\<forall>x \<in> set rest. c_Hash x \<notin> seen) \<and> c_Hash ` set pre \<subseteq> seen \<and>
     (\<forall>x \<in> set (pre @ rest). \<forall>q \<in> seen. c_Hash x \<in> reach get q \<longrightarrow> q = c_Hash x)"

lemma independents_inv_candidates:
  assumes "independents_inv get U C pre rest seen"
  shows "candidates_ok get U (pre @ rest)"
proof -
  obtain K where K: "pre @ rest = filter K C" using assms by (auto simp: independents_inv_def covers_def)
  show ?thesis unfolding K using assms by (auto simp: independents_inv_def candidates_ok_def distinct_map_filter)
qed

lemma independents_inv_done:
  assumes "acyclic_history get U" and "independents_inv get U C pre [] seen"
  shows "pre = filter (maximal get (set C)) C"
  using covers_maximal [OF assms(1), of C pre] assms(2) by (force simp: independents_inv_def)

lemma independents_inv_step:
  assumes ac: "acyclic_history get U" and inv: "independents_inv get U C pre (p # post) seen"
  defines "R \<equiv> reached (limited seen (parents get)) {} {c_Hash p}"
  shows "independents_inv get U C (keep p R pre @ [p]) (keep p R post) (seen \<union> R)"
proof -
  have ok: "candidates_ok get U (pre @ p # post)" by (rule independents_inv_candidates [OF inv])
  have pR: "c_Hash p \<in> R" by (simp add: R_def reached.start)
  have sub: "R \<subseteq> reach get (c_Hash p)" using limited_reach by (auto simp: R_def)
  have eq: "(keep p R pre @ [p]) @ keep p R post = keep p R (pre @ p # post)" by (simp add: keep_def)
  have "c_Hash p \<in> U" using ok by (simp add: candidates_ok_def loaded_def)
  then have U: "R \<subseteq> U" using sub reach_history [of get U "c_Hash p"] ac by (auto simp: acyclic_history_def)
  have old: "q = c_Hash x" if "x \<in> set (pre @ p # post)" "q \<in> seen" "c_Hash x \<in> reach get q" for x q
    using inv that unfolding independents_inv_def by blast
  have new: "q = c_Hash x" if x: "x \<in> set (keep p R (pre @ p # post))" and q: "q \<in> R" "c_Hash x \<in> reach get q" for x q
  proof -
    have xc: "x \<in> set (pre @ p # post)" "c_Hash x = c_Hash p \<or> c_Hash x \<notin> R" using x unfolding keep_def by auto
    have "c_Hash x \<in> R" using reach_limited [OF q(2), of seen "{c_Hash p}"] q(1) old [OF xc(1)] by (auto simp: R_def)
    then have "c_Hash x = c_Hash p" using xc(2) by blast
    then show ?thesis using ac q sub U \<open>c_Hash p \<in> U\<close> unfolding acyclic_history_def by (metis subsetD)
  qed
  have "covers get (keep p R (pre @ p # post)) C" using covers_keep [of get "pre @ p # post" C p R] inv sub by (simp add: independents_inv_def)
  moreover have "\<forall>x \<in> set (keep p R post). c_Hash x \<notin> seen \<union> R"
  proof -
    have "c_Hash x \<noteq> c_Hash p" if "x \<in> set post" for x using ok that by (auto simp: candidates_ok_def image_iff)
    then show ?thesis using inv by (auto simp: independents_inv_def keep_def)
  qed
  moreover have "c_Hash ` set (keep p R pre @ [p]) \<subseteq> seen \<union> R" using inv pR by (auto simp: independents_inv_def keep_def)
  moreover have "\<forall>x \<in> set (keep p R (pre @ p # post)). \<forall>q \<in> seen \<union> R. c_Hash x \<in> reach get q \<longrightarrow> q = c_Hash x"
  proof (intro ballI impI)
    fix x q assume x: "x \<in> set (keep p R (pre @ p # post))" and q: "q \<in> seen \<union> R" "c_Hash x \<in> reach get q"
    have "x \<in> set (pre @ p # post)" using x unfolding keep_def by (simp only: set_filter mem_Collect_eq)
    then show "q = c_Hash x" using old [of x q] new [OF x, of q] q by blast
  qed
  ultimately show ?thesis using inv unfolding independents_inv_def eq by (intro conjI) simp_all
qed

lemma independents_loop_unfold:
  assumes "filterCommitIter_ForEach sha s (\<lambda>_ _. True) independents_limit independents_visit
      (NewFilterCommitIter p) (pre @ p # post, remove (pre @ p # post) p, seen) = Some ((pre' @ p # post', others', seen'), w, Ok ())"
    and "\<forall>c \<in> set pre'. c_Hash c \<noteq> c_Hash p"
  shows "independents_loop sha s (pre @ p # post) seen (length pre) =
    (if post' = [] then Some (Ok (pre' @ [p])) else independents_loop sha s (pre' @ p # post') seen' (Suc (length pre')))"
  using assms by (subst independents_loop.simps) (simp add: indexOf_at Let_def nat_add_distrib)

lemma independents_loop_maximal:
  assumes ac: "acyclic_history (GetCommit sha s) U" and inv: "independents_inv (GetCommit sha s) U C pre (p # post) seen"
  shows "independents_loop sha s (pre @ p # post) seen (length pre) = Some (Ok (filter (maximal (GetCommit sha s) (set C)) C))"
  using inv
proof (induction "length post" arbitrary: pre p post seen rule: less_induct)
  case less
  let ?get = "GetCommit sha s" and ?R = "reached (limited seen (parents (GetCommit sha s))) {} {c_Hash p}"
  have ok: "candidates_ok ?get U (pre @ p # post)" by (rule independents_inv_candidates [OF less.prems])
  have C: "candidates_ok ?get U C" "covers ?get (pre @ p # post) C" using less.prems by (simp_all add: independents_inv_def)
  have hist: "history ?get U" using ac by (simp add: acyclic_history_def)
  obtain cands' seen' H w where walk: "filterCommitIter_ForEach sha s (\<lambda>_ _. True) independents_limit independents_visit
      (NewFilterCommitIter p) (pre @ p # post, remove (pre @ p # post) p, seen) = Some ((cands', remove cands' p, seen'), w, Ok ())"
      and H: "H \<subseteq> ?R" "cands' = keep p H (pre @ p # post)" "length cands' = 1 \<or> H = ?R \<and> seen' = seen \<union> ?R"
    using independents_walk [OF hist, of p "pre @ p # post" seen] ok by (auto simp: candidates_ok_def)
  have split: "cands' = keep p H pre @ p # keep p H post" using H(2) by (simp add: keep_def)
  have ne: "\<forall>c \<in> set (keep p H pre). c_Hash c \<noteq> c_Hash p" using ok by (auto simp: candidates_ok_def keep_def image_iff)
  note unf = independents_loop_unfold [OF walk [unfolded split] ne]
  show ?case
  proof (cases "length cands' = 1")
    case True
    have "H \<subseteq> reach ?get (c_Hash p)" using H(1) limited_reach by blast
    then have "covers ?get cands' C" unfolding H(2) by (intro covers_keep [OF C(2)]) simp_all
    moreover have "cands' = [p]" "keep p H pre = []" "keep p H post = []" using True split by simp_all
    ultimately show ?thesis using covers_maximal [OF ac C(1), of "[p]"] unf by simp
  next
    case False
    then have inv': "independents_inv ?get U C (keep p H pre @ [p]) (keep p H post) seen'"
      using independents_inv_step [OF ac less.prems] H(3) by simp
    have len: "length (keep p H post) \<le> length post" by (simp add: keep_def)
    show ?thesis
    proof (cases "keep p H post")
      case Nil
      then show ?thesis using independents_inv_done [OF ac, of C "keep p H pre @ [p]" seen'] inv' unf by simp
    next
      case (Cons p2 post2)
      then show ?thesis using less.hyps [of post2 "keep p H pre @ [p]" p2 seen'] inv' len unf by simp
    qed
  qed
qed

lemma Independents_maximal:
  assumes "acyclic_history (GetCommit sha s) U" and "\<forall>c \<in> set commits. loaded (GetCommit sha s) U c"
    and "\<And>less xs. mset (sort_Slice less xs) = mset xs"
  defines "C \<equiv> removeDuplicated (sortByCommitDateDesc sort_Slice commits)"
  shows "Independents sha s sort_Slice commits = Some (Ok (filter (maximal (GetCommit sha s) (set commits)) C))" and "set C = set commits"
    and "distinct (map c_Hash C)"
proof -
  have srt: "set (sortByCommitDateDesc sort_Slice commits) = set commits"
    using assms(3) unfolding sortByCommitDateDesc_def by (metis set_mset_mset)
  show set: "set C = set commits"
    using set_removeDuplicated [of "sortByCommitDateDesc sort_Slice commits" "GetCommit sha s"] assms(2) srt by (simp add: C_def loaded_def)
  show dist: "distinct (map c_Hash C)" by (simp add: C_def removeDuplicated_def removeSeen_distinct)
  then have ok: "candidates_ok (GetCommit sha s) U C" using set assms(2) by (simp add: candidates_ok_def)
  show "Independents sha s sort_Slice commits = Some (Ok (filter (maximal (GetCommit sha s) (set commits)) C))"
  proof (cases C)
    case (Cons p post)
    have "independents_inv (GetCommit sha s) U C [] (p # post) {}"
      using ok covers_refl by (simp add: independents_inv_def Cons)
    note loop = independents_loop_maximal [OF assms(1) this, unfolded set append_Nil list.size Cons [symmetric]]
    have "filter (maximal (GetCommit sha s) (set commits)) C = C" if "post = []"
      using that Cons by (simp add: maximal_def flip: set)
    then show ?thesis using loop Cons by (cases post) (simp_all add: Independents_def Let_def flip: C_def)
  qed (simp add: Independents_def Let_def flip: C_def)
qed

text \<open>
  C32. On an acyclic history \<^verbatim>\<open>Independents\<close> ends and answers, once each, the passed commits that are not
  reached from another one of them, whatever order the sort leaves and whatever the dates are.
\<close>

theorem Independents_independent:
  assumes "acyclic_history (GetCommit sha s) U" and "\<forall>c \<in> set commits. loaded (GetCommit sha s) U c"
    and "\<And>less xs. mset (sort_Slice less xs) = mset xs"
  shows "\<exists>res. Independents sha s sort_Slice commits = Some (Ok res) \<and> distinct (map c_Hash res) \<and>
    set res = {x \<in> set commits. \<forall>y \<in> set commits. c_Hash x \<in> reach (GetCommit sha s) (c_Hash y) \<longrightarrow> c_Hash y = c_Hash x}"
  using Independents_maximal [OF assms] by (auto simp: maximal_def distinct_map_filter)

section \<open>Merge bases are the best common ancestors\<close>

definition best :: "(ObjectID \<Rightarrow> Commit result) \<Rightarrow> ObjectID set \<Rightarrow> ObjectID set" where
  "best get A = {h \<in> A. \<forall>k \<in> A. h \<in> reach get k \<longrightarrow> k = h}"

lemma best_cover:
  assumes "acyclic_history get U" and "B \<subseteq> A" and "A \<subseteq> U" and cov: "\<And>x. x \<in> A \<Longrightarrow> \<exists>b \<in> B. x \<in> reach get b"
  shows "best get B = best get A"
proof (intro equalityI subsetI)
  fix h assume h: "h \<in> best get B"
  have "k = h" if k: "k \<in> A" "h \<in> reach get k" for k
  proof -
    obtain b where b: "b \<in> B" "k \<in> reach get b" using cov [OF k(1)] by blast
    then have "b = h" using h reach_trans [OF k(2) b(2)] by (simp add: best_def)
    with b k assms(1,2,3) show ?thesis unfolding acyclic_history_def by blast
  qed
  with h assms(2) show "h \<in> best get A" by (auto simp: best_def)
next
  fix h assume h: "h \<in> best get A"
  then obtain b where b: "b \<in> B" "h \<in> reach get b" using cov [of h] by (auto simp: best_def)
  then have "b = h" using h assms(2) by (auto simp: best_def)
  with b h assms(2) show "h \<in> best get B" by (auto simp: best_def)
qed

lemma visit_collect: "visit (\<lambda>res commit. (res @ [commit], Ok ())) acc xs = (acc @ xs, Ok ())"
  by (induction xs arbitrary: acc) auto

lemma maximal_hashes: "c_Hash ` {x \<in> set C. maximal get (set C) x} = best get (c_Hash ` set C)"
  by (auto simp: maximal_def best_def)

lemma MergeBase_sorted:
  assumes ac: "acyclic_history (GetCommit sha s) U" and old: "loaded (GetCommit sha s) U older" and new: "loaded (GetCommit sha s) U newer"
    and perm: "\<And>less xs. mset (sort_Slice less xs) = mset xs" and srt: "sortByCommitDateDesc sort_Slice [c, other] = [newer, older]"
  shows "\<exists>res. MergeBase sha s sort_Slice c other = Some (Ok res) \<and>
    enumerates (GetCommit sha s) res (best (GetCommit sha s) (reach (GetCommit sha s) (c_Hash newer) \<inter> reach (GetCommit sha s) (c_Hash older)))"
proof -
  let ?get = "GetCommit sha s"
  let ?N = "reach ?get (c_Hash newer)" and ?O = "reach ?get (c_Hash older)"
  have hist: "history ?get U" using ac by (simp add: acyclic_history_def)
  have U: "?N \<inter> ?O \<subseteq> U" using reach_history [OF hist, of "c_Hash newer"] new by (auto simp: loaded_def)
  show ?thesis
  proof (cases "c_Hash older \<in> ?N")
    case True
    then have "MergeBase sha s sort_Slice c other = Some (Ok [older])" by (simp add: MergeBase_def srt ancestorsIndex_reach [OF ac old new])
    moreover have "best ?get {c_Hash older} = best ?get (?N \<inter> ?O)" using True U by (intro best_cover [OF ac]) auto
    moreover have "best ?get {c_Hash older} = {c_Hash older}" by (auto simp: best_def)
    ultimately show ?thesis using old by (auto simp: enumerates_def loaded_def)
  next
    case False
    let ?R = "reached (limited ?N (parents ?get)) {} {c_Hash older}"
    obtain xs where xs: "run (filterCommitIter_visit sha s (\<lambda>c. c_Hash c \<in> ?N)) (NewFilterCommitIter older) xs" "enumerates ?get xs ?R"
      using FilterCommitIter_run [OF hist old, of ?N] by blast
    define res where "res = filter (isInIndexCommitFilter ?N) xs"
    have merge: "MergeBase sha s sort_Slice c other = Independents sha s sort_Slice res"
      using False filterCommitIter_ForEach_run [OF xs(1), of "\<lambda>_. isInIndexCommitFilter ?N" "[]" "\<lambda>res commit. (res @ [commit], Ok ())" "isInIndexCommitFilter ?N"]
      by (auto simp: MergeBase_def srt ancestorsIndex_reach [OF ac old new] visit_collect isInIndexCommitFilter_def res_def)
    have sub: "?R \<subseteq> ?O" using limited_reach by blast
    have res: "c_Hash ` set res = ?R \<inter> ?N" "\<forall>c \<in> set res. ?get (c_Hash c) = Ok c"
      using xs(2) by (auto simp: enumerates_def isInIndexCommitFilter_def res_def)
    have "\<forall>c \<in> set res. loaded ?get U c" using res U sub by (auto simp: loaded_def)
    note ind = Independents_maximal [where sort_Slice = sort_Slice, OF ac this perm]
    have "best ?get (?R \<inter> ?N) = best ?get (?N \<inter> ?O)"
    proof (rule best_cover [OF ac _ U])
      show "\<exists>b \<in> ?R \<inter> ?N. x \<in> reach ?get b" if "x \<in> ?N \<inter> ?O" for x
        using reach_limited [of x "parents ?get" "c_Hash older" ?N "{c_Hash older}"] that reach_refl [of x ?get]
          reached.start [of "c_Hash older" "{c_Hash older}" "{}" "limited ?N (parents ?get)"] by blast
    qed (use sub in blast)
    then have "c_Hash ` set (filter (maximal ?get (set res)) (removeDuplicated (sortByCommitDateDesc sort_Slice res))) = best ?get (?N \<inter> ?O)"
      using maximal_hashes [of res ?get] by (simp add: ind(2) res(1))
    then show ?thesis using ind(1,2,3) merge res(2) by (auto simp: enumerates_def distinct_map_filter)
  qed
qed

text \<open>
  C31. On an acyclic history \<^verbatim>\<open>MergeBase\<close> ends and answers, once each, the commits with the best common
  ancestors of both: those that are not reached from another common ancestor.
\<close>

theorem MergeBase_best_common_ancestors:
  assumes "acyclic_history (GetCommit sha s) U" and "loaded (GetCommit sha s) U c" and "loaded (GetCommit sha s) U other"
    and "\<And>less xs. mset (sort_Slice less xs) = mset xs"
  defines "common \<equiv> reach (GetCommit sha s) (c_Hash c) \<inter> reach (GetCommit sha s) (c_Hash other)"
  shows "\<exists>res. MergeBase sha s sort_Slice c other = Some (Ok res) \<and>
    enumerates (GetCommit sha s) res {h \<in> common. \<forall>k \<in> common. h \<in> reach (GetCommit sha s) k \<longrightarrow> k = h}"
proof -
  have m: "mset (sortByCommitDateDesc sort_Slice [c, other]) = {#c, other#}" using assms(4) by (simp add: sortByCommitDateDesc_def)
  then have "length (sortByCommitDateDesc sort_Slice [c, other]) = 2" by (metis size_mset size_add_mset size_empty numeral_2_eq_2)
  then obtain newer older where srt: "sortByCommitDateDesc sort_Slice [c, other] = [newer, older]"
    by (auto simp: length_Suc_conv numeral_2_eq_2)
  then have "newer = c \<and> older = other \<or> newer = other \<and> older = c" using m by (auto simp: add_eq_conv_diff split: if_splits)
  then have two: "loaded (GetCommit sha s) U older" "loaded (GetCommit sha s) U newer"
      "reach (GetCommit sha s) (c_Hash newer) \<inter> reach (GetCommit sha s) (c_Hash older) = common"
    using assms(2,3) by (auto simp: common_def)
  from MergeBase_sorted [OF assms(1) two(1,2) assms(4) srt] show ?thesis by (simp only: two(3) best_def)
qed

section \<open>An acyclic history\<close>

lemma ranked_acyclic:
  fixes rank :: "ObjectID \<Rightarrow> nat"
  assumes "history get U" and "\<forall>h \<in> U. sha1_id h" and rank: "\<And>h p. h \<in> U \<Longrightarrow> p \<in> parents get h \<Longrightarrow> rank p < rank h"
  shows "acyclic_history get U"
proof -
  have lower: "x \<in> U \<and> (x = y \<or> rank x < rank y)" if "x \<in> reach get y" "y \<in> U" for x y
    using that
  proof (induction rule: reached.induct)
    case (parent h p)
    then show ?case using rank [of h p] parents_history [OF assms(1), of h] by fastforce
  qed simp
  have "x = y" if "x \<in> U" "y \<in> U" "x \<in> reach get y \<and> y \<in> reach get x" for x y
    using lower [of x y] lower [of y x] that by auto
  then show ?thesis using assms(1,2) unfolding acyclic_history_def by blast
qed

lemma sample_parents_at:
  "i < 4 \<Longrightarrow> parents (GetCommit toy_sha sample_history) (sample_ids ! i) = set (c_ParentHashes (sample_contents ! i))"
proof -
  assume "i < 4"
  from sample_loaded [OF this] show ?thesis by (simp add: loaded_def sample_at_def parents_def)
qed

lemma sample_acyclic: "acyclic_history (GetCommit toy_sha sample_history) (set sample_ids)"
proof (rule ranked_acyclic [OF sample_is_history])
  fix h p assume h: "h \<in> set sample_ids" and p: "p \<in> parents (GetCommit toy_sha sample_history) h"
  have "length sample_ids = 4" by (simp add: sample_ids_def)
  with h obtain i where i: "i < 4" "h = sample_ids ! i" by (metis in_set_conv_nth)
  have "i = 0 \<or> i = 1 \<or> i = 2 \<or> i = 3" using i(1) by linarith
  then show "unat (hd (oid_hash p)) < unat (hd (oid_hash h))"
    using p unfolding i(2) sample_parents_at [OF i(1)]
    by (auto simp: sample_contents_def sample_ids_def sample_with_def sample_oid_def)
qed (use sample_ids_ok in blast)

lemma reach_unfold: "reach get h = insert h (\<Union>p \<in> parents get h. reach get p)"
proof (intro equalityI subsetI)
  show "x \<in> insert h (\<Union>p \<in> parents get h. reach get p)" if "x \<in> reach get h" for x
    using that
  proof (induction rule: reached.induct)
    case (parent y p)
    from parent.IH consider "y = h" | q where "q \<in> parents get h" "y \<in> reach get q" by blast
    then show ?case
    proof cases
      case 1
      then show ?thesis using parent.hyps(2) reach_refl [of p get] by blast
    next
      case (2 q)
      then show ?thesis using reached.parent [OF 2(2) parent.hyps(2)] by blast
    qed
  qed simp
  show "x \<in> reach get h" if "x \<in> insert h (\<Union>p \<in> parents get h. reach get p)" for x
    using that reached.parent [OF reach_refl [of h get]] reach_trans [of x get _ h] by auto
qed

text \<open>The sort of the standard library on short slices.\<close>

definition insertionSort :: sorter where
  "insertionSort lt xs = foldl (\<lambda>acc x. takeWhile (\<lambda>y. \<not> lt x y) acc @ x # dropWhile (\<lambda>y. \<not> lt x y) acc) [] xs"

lemma insertionSort_permutes: "mset (insertionSort lt xs) = mset xs"
proof -
  have ins: "mset (takeWhile P acc @ x # dropWhile P acc) = add_mset x (mset acc)" for P acc and x :: Commit
    by (induction acc) auto
  have "mset (foldl (\<lambda>acc x. takeWhile (\<lambda>y. \<not> lt x y) acc @ x # dropWhile (\<lambda>y. \<not> lt x y) acc) acc xs) = mset acc + mset xs" for acc
    by (induction xs arbitrary: acc) (simp_all add: ins del: mset_append)
  then show ?thesis by (simp add: insertionSort_def)
qed

lemma sample_hash: "c_Hash (sample_at i) = sample_ids ! i"
  by (simp add: sample_at_def)

lemma sample_reach:
  "reach (GetCommit toy_sha sample_history) (sample_ids ! 0) = {sample_ids ! 0}"
  "reach (GetCommit toy_sha sample_history) (sample_ids ! 1) = {sample_ids ! 1, sample_ids ! 0}"
  "reach (GetCommit toy_sha sample_history) (sample_ids ! 2) = {sample_ids ! 2, sample_ids ! 0}"
proof -
  show root: "reach (GetCommit toy_sha sample_history) (sample_ids ! 0) = {sample_ids ! 0}"
    using sample_parents_at [of 0] by (subst reach_unfold) (simp add: sample_contents_def sample_with_def)
  show "reach (GetCommit toy_sha sample_history) (sample_ids ! 1) = {sample_ids ! 1, sample_ids ! 0}"
    using sample_parents_at [of 1] root by (subst reach_unfold) (simp add: sample_contents_def sample_with_def sample_ids_def)
  show "reach (GetCommit toy_sha sample_history) (sample_ids ! 2) = {sample_ids ! 2, sample_ids ! 0}"
    using sample_parents_at [of 2] root by (subst reach_unfold) (simp add: sample_contents_def sample_with_def sample_ids_def)
qed

lemma sample_ids_distinct: "i < 4 \<Longrightarrow> j < 4 \<Longrightarrow> sample_ids ! i = sample_ids ! j \<longleftrightarrow> i = j"
  using sample_ids_ok nth_eq_iff_index_eq [of sample_ids i j] by (simp add: sample_ids_def)

theorem IsAncestor_reach_witness:
  "IsAncestor toy_sha sample_history (sample_at 0) (sample_at 2) = Some (True, Ok ()) \<and>
   IsAncestor toy_sha sample_history (sample_at 1) (sample_at 2) = Some (False, Ok ())"
  using IsAncestor_reach [OF sample_is_history sample_loaded, of 2] sample_ids_distinct [of 1 2] sample_ids_distinct [of 1 0]
  by (simp add: sample_hash sample_reach)

theorem Independents_independent_witness:
  "\<exists>res. Independents toy_sha sample_history insertionSort [sample_at 0, sample_at 1, sample_at 2] = Some (Ok res) \<and>
     distinct (map c_Hash res) \<and> set res = {sample_at 1, sample_at 2}"
proof -
  have ld: "\<forall>c \<in> set [sample_at 0, sample_at 1, sample_at 2]. loaded (GetCommit toy_sha sample_history) (set sample_ids) c"
    by (simp add: sample_loaded)
  have eq: "{x \<in> set [sample_at 0, sample_at 1, sample_at 2]. \<forall>y \<in> set [sample_at 0, sample_at 1, sample_at 2].
      c_Hash x \<in> reach (GetCommit toy_sha sample_history) (c_Hash y) \<longrightarrow> c_Hash y = c_Hash x} = {sample_at 1, sample_at 2}"
    using sample_ids_distinct [of 1 2] sample_ids_distinct [of 1 0] sample_ids_distinct [of 0 2]
    by (auto simp: sample_hash sample_reach simp del: One_nat_def)
  from Independents_independent [where sort_Slice = insertionSort, OF sample_acyclic ld insertionSort_permutes] show ?thesis unfolding eq .
qed

theorem MergeBase_best_common_ancestors_witness:
  "\<exists>res. MergeBase toy_sha sample_history insertionSort (sample_at 1) (sample_at 2) = Some (Ok res) \<and> map c_Hash res = [sample_ids ! 0]"
proof -
  have common: "reach (GetCommit toy_sha sample_history) (c_Hash (sample_at 1)) \<inter> reach (GetCommit toy_sha sample_history) (c_Hash (sample_at 2)) = {sample_ids ! 0}"
    using sample_ids_distinct [of 1 2] sample_ids_distinct [of 1 0] sample_ids_distinct [of 0 2] 
    by (auto simp: sample_hash sample_reach simp del: One_nat_def)
  obtain res where "MergeBase toy_sha sample_history insertionSort (sample_at 1) (sample_at 2) = Some (Ok res)"
      "enumerates (GetCommit toy_sha sample_history) res {sample_ids ! 0}"
    using MergeBase_best_common_ancestors [where sort_Slice = insertionSort, OF sample_acyclic sample_loaded sample_loaded insertionSort_permutes, of 1 2]
    unfolding common by (auto simp: Collect_conv_if)
  moreover have "hs = [h]" if "distinct hs" "set hs = {h}" for hs and h :: ObjectID
    using that by (cases hs; cases "tl hs") auto
  ultimately show ?thesis by (auto simp: enumerates_def)
qed

end
