(* ===== verification/Spec2Isabelle.thy ===== *)
theory Spec2Isabelle
  imports DiffDelta Sideband RefSpec Transactional Cache UpdateReq AdvRefs Tag TreeWalk MergeBase
begin

text \<open>
  go-git, a Git implementation in Go: a verification of its data formats, names, storages and history walks.

  \<^bold>\<open>The program.\<close> Objects are identified by the digest of their content (\<^verbatim>\<open>plumbing\<close>), packed as
  deltas against one another (\<^verbatim>\<open>plumbing/format/packfile\<close>) and sent in packets over multiplexed
  channels (\<^verbatim>\<open>plumbing/format/pktline\<close>, \<^verbatim>\<open>plumbing/protocol/packp/sideband\<close>). References name them
  (\<^verbatim>\<open>plumbing/reference.go\<close>), refspecs rename references between repositories
  (\<^verbatim>\<open>config/refspec.go\<close>), and storages keep both behind the interfaces of \<^verbatim>\<open>plumbing/storer\<close>: in
  memory (\<^verbatim>\<open>storage/memory\<close>) or as a transaction over two other storages
  (\<^verbatim>\<open>storage/transactional\<close>). Commits, tags, trees and blobs are decoded from objects
  (\<^verbatim>\<open>plumbing/object\<close>); trees are walked for paths and files, and the history of commits is walked for logs and
  merge bases.

  \<^bold>\<open>Conventions.\<close> A byte is an 8-bit word and a stream is the list of the bytes that are left. A Go
  function that may fail returns a value of type \<open>result\<close>: \<open>Ok\<close>, \<open>Error\<close> with a sentinel or wrapped
  error, or \<open>Panic\<close> for an index out of range or a nil pointer. An operation that changes a
  structure returns the changed structure together with its outcome. Fixed-width integers are words
  where the code may overflow, and naturals or integers where they count positions in memory.
  Loops are recursive functions with a termination proof; a loop that may not end is a partial
  function with values in \<open>option\<close>, and that it ends is proved. No definition uses fuel. Digests are
  a parameter of the definitions: the algorithms belong to other modules.

  \<^bold>\<open>The theories.\<close>

  \<^item> \<open>Prelude\<close>: results, panicking accesses, readers; \<open>GoStrings\<close>: the functions of the packages
    \<^verbatim>\<open>strings\<close>, \<^verbatim>\<open>strconv\<close> and \<^verbatim>\<open>hex\<close> that the sources call; \<open>GoScan\<close>: UTF-8 and the scanning of words by
    \<^verbatim>\<open>fmt.Sscanf\<close>, rune by rune.

  \<^item> \<open>BinaryIO\<close> models \<^verbatim>\<open>utils/binary\<close>: fixed-width and variable-width integers, delimited reads.
    Variable-width integers round trip, at the width of the code.

  \<^item> \<open>ObjectId\<close> models object formats, ids, hashers and memory objects (\<^verbatim>\<open>objectid.go\<close>, \<^verbatim>\<open>hash.go\<close>,
    \<^verbatim>\<open>hasher.go\<close>, \<^verbatim>\<open>object.go\<close>, \<^verbatim>\<open>memory.go\<close>): the text of ids, agreement of the two hashers, the cached
    hash of an object.

  \<^item> \<open>PatchDelta\<close>, \<open>StreamDelta\<close>, \<open>DeltaIndex\<close> and \<open>DiffDelta\<close> model \<^verbatim>\<open>patch_delta.go\<close>,
    \<^verbatim>\<open>delta_index.go\<close> and \<^verbatim>\<open>diff_delta.go\<close>: the three appliers, the hash index of a source with its
    chained table, and the encoder. Applying is safe on every input; what the encoder writes for a
    target that is not empty, the appliers of whole deltas turn back into the target. The streaming reader is
    described on every list of instructions: it agrees with the applier in memory while the copies go
    forward, and is off by the old position after one that goes back.

  \<^item> \<open>Pktline\<close> and \<open>Sideband\<close> model packets, the scanner and the multiplexed channels, with the buffer
    that readers share as an argument. They round trip within the limits that the proofs state, and
    the cases outside these limits are theorems too.

  \<^item> \<open>Filemode\<close>, \<open>Reference\<close> and \<open>RefSpec\<close> model file modes, reference names with their validation, and
    refspecs. The validation is equivalent to the rules its comments quote, as the code reads them;
    a refspec has a direct semantics that its matching and renaming compute.

  \<^item> \<open>Storer\<close> holds the interfaces: iterators (locale \<open>iterator\<close>, interpreted for the four iterators of
    the sources), reference storers (locales \<open>reference_map\<close> and \<open>reference_storer\<close>) and
    \<^verbatim>\<open>ResolveReference\<close>, which follows exactly the chain of symbolic references up to its limit.

  \<^item> \<open>MemoryStorage\<close> and \<open>Transactional\<close> model the storages. The memory storage interprets
    \<open>reference_storer\<close>; the locale \<open>transaction\<close> takes any two reference storers, is a sublocale of
    \<open>reference_map\<close>, and shows that a transaction refines a map of references and that committing
    makes the base storage this map.

  \<^item> \<open>Cache\<close> models the two least-recently-used caches of \<^verbatim>\<open>plumbing/cache\<close> once, over a list of elements with
    identities, and instantiates it for buffers and for objects. Sizes wrap as an \<^verbatim>\<open>int64\<close>; while they stay in
    its range, the caches refine a list of values in order of use that never exceeds the maximum size, for
    every sequence of operations.

  \<^item> \<open>Capability\<close>, \<open>Packp\<close> and \<open>UploadReq\<close> model capability lists, what the messages of
    \<^verbatim>\<open>plumbing/protocol/packp\<close> share, and the upload request, whose decoder is a state machine that
    stops on every input. Lists and requests round trip; where an encoder and its decoder disagree,
    or an error is lost, a theorem says so.

  \<^item> \<open>UpdateReq\<close>, \<open>Messages\<close> and \<open>AdvRefs\<close> model the other messages of the protocol: update requests, reports,
    acknowledgements and the advertised references with their head. Each round trips, up to the
    differences that its theorem states.

  \<^item> \<open>Signatures\<close>, \<open>Commit\<close> and \<open>Tag\<close> model the people and times in objects and the text of commits and tags
    (\<^verbatim>\<open>plumbing/object/object.go\<close>, \<^verbatim>\<open>commit.go\<close>, \<^verbatim>\<open>tag.go\<close>, \<^verbatim>\<open>signature.go\<close>). The
    theorems say what each comes back as: a signature without the spaces around its name, in whole seconds from
    1970 on and whole minutes of its zone, commits and tags with such signatures and without the indentation of
    signed blocks; a tag without a name makes the decoder panic.

  \<^item> \<open>GoPaths\<close> holds the paths of the standard library, \<open>Trees\<close> models trees and blobs with the cache of
    directories that a look-up fills (\<^verbatim>\<open>tree.go\<close>, \<^verbatim>\<open>blob.go\<close>), and \<open>TreeWalk\<close> the walker over a tree and the
    iterator over its files (\<^verbatim>\<open>tree.go\<close>, \<^verbatim>\<open>file.go\<close>). Trees round trip; a look-up with the cache is one without for
    paths that cleaning leaves alone; iterating over files ends on every storage and visits the files of
    the whole tree, or those before the first directory that the storage does not give.

  \<^item> \<open>CommitWalk\<close> models the iterators over the history (\<^verbatim>\<open>commit_walker.go\<close> and its companions), \<open>History\<close> what
    they visit, and \<open>MergeBase\<close> models \<^verbatim>\<open>merge_base.go\<close>. A history is a finite set of stored commits closed under
    parents. The locale \<open>commit_walk\<close> has the law of a single step, that it visits a commit of the frontier and
    adds its parents, and shows that a walk visits what is reached exactly once; it is interpreted for four
    iterators. The iterators are also instances of the locale \<open>traversal\<close> of \<open>Storer\<close>. On them rest the theorems that
    \<^verbatim>\<open>IsAncestor\<close>, \<^verbatim>\<open>Independents\<close> and \<^verbatim>\<open>MergeBase\<close> compute what their names say on acyclic histories.

  \<^bold>\<open>Not modelled.\<close> Repositories, worktrees, remotes and their options (\<^verbatim>\<open>repository.go\<close>,
  \<^verbatim>\<open>worktree.go\<close>, \<^verbatim>\<open>remote.go\<close>), which mostly sequence file-system and network effects; the
  filesystem storage and its directory layer; the transports; the cryptographic verification of signatures and
  the character encodings of messages, which other modules implement; compression, which is the standard library's, and with
  it packfiles and loose objects as files; diffs, renames and patches, which rest on the diff of another module; the configuration
  files, which another module parses; the walk by date, which rests on the heap of another module.
\<close>

end
